(* ===== verification/Confium_Base.thy ===== *)
theory Confium_Base
  imports Main "HOL-Library.Word" "HOL-Library.AList" "HOL-Library.Sublist"
begin

text \<open>
  Shared vocabulary of the development: the machine types of the Rust sources, byte encodings of
  integers (\<open>to_le_bytes\<close>, \<open>to_be_bytes\<close>), \<open>HashMap\<close> as an association list with distinct keys
  whose list order stands for the unspecified iteration order, \<open>Result\<close> as a sum type with the
  error on the left and \<open>?\<close> as \<open>try_bind\<close>, and the generic list facts the components share.
\<close>

section \<open>Machine types\<close>

type_synonym u8 = "8 word"
type_synonym u32 = "32 word"
type_synonym u64 = "64 word"
type_synonym bytes = "u8 list"

text \<open>\<open>DateTime<Utc>\<close> is an instant in nanoseconds since the epoch, \<open>Duration\<close> a signed number
  of nanoseconds; the clock reading \<open>Utc::now()\<close> is an argument of the operations that use it.\<close>

type_synonym instant = int
type_synonym duration = int

definition minutes :: "int \<Rightarrow> duration" where
  "minutes m = m * 60 * 1000000000"

definition hours :: "int \<Rightarrow> duration" where
  "hours h = h * 3600 * 1000000000"

definition seconds :: "int \<Rightarrow> duration" where
  "seconds s = s * 1000000000"

text \<open>Collections of the facts that carry the component proofs.\<close>

named_theorems op_defs \<open>definitions of the operations of a component\<close>
named_theorems inv_intros \<open>preservation of a component's invariant by its operations\<close>

section \<open>Results and early return\<close>

fun try_bind :: "'e + 'a \<Rightarrow> ('a \<Rightarrow> 'e + 'b) \<Rightarrow> 'e + 'b" where
  "try_bind (Inl e) f = Inl e"
| "try_bind (Inr x) f = f x"

lemma try_bind_Inr_iff: "try_bind r f = Inr y \<longleftrightarrow> (\<exists>x. r = Inr x \<and> f x = Inr y)"
  by (cases r) auto

lemma try_bind_Inl_iff: "try_bind r f = Inl e \<longleftrightarrow> r = Inl e \<or> (\<exists>x. r = Inr x \<and> f x = Inl e)"
  by (cases r) auto

lemma try_bind_cong [fundef_cong]:
  "\<lbrakk>r = r'; \<And>x. r' = Inr x \<Longrightarrow> f x = g x\<rbrakk> \<Longrightarrow> try_bind r f = try_bind r' g"
  by (cases r') auto

definition ensure :: "bool \<Rightarrow> 'e \<Rightarrow> 'e + unit" where
  "ensure c e = (if c then Inr () else Inl e)"

lemma ensure_simps [simp]:
  "ensure True e = Inr ()" "ensure False e = Inl e"
  "ensure c e = Inr u \<longleftrightarrow> c" "ensure c e = Inl e' \<longleftrightarrow> \<not> c \<and> e' = e"
  by (auto simp: ensure_def)

fun is_ok :: "'e + 'a \<Rightarrow> bool" where
  "is_ok (Inl _) = False"
| "is_ok (Inr _) = True"

lemma is_ok_iff: "is_ok r \<longleftrightarrow> (\<exists>x. r = Inr x)"
  by (cases r) auto

section \<open>Integers as byte strings\<close>

fun le_bytes :: "nat \<Rightarrow> nat \<Rightarrow> bytes" where
  "le_bytes 0 x = []"
| "le_bytes (Suc n) x = of_nat (x mod 256) # le_bytes n (x div 256)"

fun le_nat :: "bytes \<Rightarrow> nat" where
  "le_nat [] = 0"
| "le_nat (b # bs) = unat b + 256 * le_nat bs"

definition be_bytes :: "nat \<Rightarrow> nat \<Rightarrow> bytes" where
  "be_bytes n x = rev (le_bytes n x)"

definition be_nat :: "bytes \<Rightarrow> nat" where
  "be_nat bs = le_nat (rev bs)"

lemma length_le_bytes [simp]: "length (le_bytes n x) = n"
  by (induction n arbitrary: x) auto

lemma length_be_bytes [simp]: "length (be_bytes n x) = n"
  by (simp add: be_bytes_def)

lemma unat_of_nat_byte [simp]: "unat (of_nat (x mod 256) :: u8) = x mod 256"
  by (simp add: unat_of_nat)

lemma le_nat_le_bytes: "le_nat (le_bytes n x) = x mod 256 ^ n"
proof (induction n arbitrary: x)
  case (Suc n)
  have "x mod 256 + 256 * (x div 256 mod 256 ^ n) = x mod (256 * 256 ^ n)"
    by (simp add: mod_mult2_eq)
  then show ?case by (simp add: Suc.IH)
qed simp

lemma be_nat_be_bytes: "be_nat (be_bytes n x) = x mod 256 ^ n"
  by (simp add: be_nat_def be_bytes_def le_nat_le_bytes)

lemma be_bytes_inject:
  "\<lbrakk>be_bytes n x = be_bytes n y; x < 256 ^ n; y < 256 ^ n\<rbrakk> \<Longrightarrow> x = y"
  by (metis be_nat_be_bytes mod_less)

lemma le_bytes_inject:
  "\<lbrakk>le_bytes n x = le_bytes n y; x < 256 ^ n; y < 256 ^ n\<rbrakk> \<Longrightarrow> x = y"
  by (metis le_nat_le_bytes mod_less)

lemma unat_u64_less: "unat (w :: u64) < 256 ^ 8"
  using unsigned_less [of w] by simp

lemma unat_u32_less: "unat (w :: u32) < 256 ^ 4"
  using unsigned_less [of w] by simp

definition u64_to_le_bytes :: "u64 \<Rightarrow> bytes" where
  "u64_to_le_bytes w = le_bytes 8 (unat w)"

definition i64_to_le_bytes :: "int \<Rightarrow> bytes" where
  "i64_to_le_bytes i = le_bytes 8 (unat (word_of_int i :: u64))"

definition u32_to_be_bytes :: "u32 \<Rightarrow> bytes" where
  "u32_to_be_bytes w = be_bytes 4 (unat w)"

definition i64_range :: "int \<Rightarrow> bool" where
  "i64_range i \<longleftrightarrow> - (2 ^ 63) \<le> i \<and> i < 2 ^ 63"

lemma length_int_bytes [simp]:
  "length (u64_to_le_bytes a) = 8" "length (i64_to_le_bytes i) = 8"
  "length (u32_to_be_bytes c) = 4"
  by (simp_all add: u64_to_le_bytes_def i64_to_le_bytes_def u32_to_be_bytes_def)

lemma u64_to_le_bytes_inject: "u64_to_le_bytes a = u64_to_le_bytes b \<longleftrightarrow> a = b"
  by (metis u64_to_le_bytes_def le_bytes_inject unat_u64_less word_unat_eq_iff)

lemma u32_to_be_bytes_inject: "u32_to_be_bytes a = u32_to_be_bytes b \<longleftrightarrow> a = b"
  by (metis u32_to_be_bytes_def be_bytes_inject unat_u32_less word_unat_eq_iff)

lemma i64_word_inject:
  assumes "i64_range i" "i64_range j" "(word_of_int i :: u64) = word_of_int j"
  shows "i = j"
proof -
  have "sint (word_of_int i :: u64) = i" "sint (word_of_int j :: u64) = j"
    using assms(1,2) by (simp_all add: i64_range_def signed_take_bit_int_eq_self sint_sbintrunc')
  with assms(3) show ?thesis by metis
qed

lemma i64_to_le_bytes_inject:
  assumes "i64_range i" "i64_range j"
  shows "i64_to_le_bytes i = i64_to_le_bytes j \<longleftrightarrow> i = j"
proof
  assume "i64_to_le_bytes i = i64_to_le_bytes j"
  then have "unat (word_of_int i :: u64) = unat (word_of_int j :: u64)"
    unfolding i64_to_le_bytes_def by (rule le_bytes_inject) (rule unat_u64_less)+
  then have "(word_of_int i :: u64) = word_of_int j" by (simp only: word_unat_eq_iff)
  with assms show "i = j" by (intro i64_word_inject)
qed simp

section \<open>Hash maps\<close>

type_synonym ('k, 'v) hashmap = "('k \<times> 'v) list"

abbreviation hm_get :: "('k, 'v) hashmap \<Rightarrow> 'k \<Rightarrow> 'v option" where
  "hm_get m k \<equiv> map_of m k"

abbreviation hm_insert :: "'k \<Rightarrow> 'v \<Rightarrow> ('k, 'v) hashmap \<Rightarrow> ('k, 'v) hashmap" where
  "hm_insert \<equiv> AList.update"

abbreviation hm_remove :: "'k \<Rightarrow> ('k, 'v) hashmap \<Rightarrow> ('k, 'v) hashmap" where
  "hm_remove \<equiv> AList.delete"

abbreviation hm_keys :: "('k, 'v) hashmap \<Rightarrow> 'k list" where
  "hm_keys m \<equiv> map fst m"

abbreviation hm_values :: "('k, 'v) hashmap \<Rightarrow> 'v list" where
  "hm_values m \<equiv> map snd m"

definition hm_wf :: "('k, 'v) hashmap \<Rightarrow> bool" where
  "hm_wf m \<longleftrightarrow> distinct (hm_keys m)"

lemma hm_wf_Nil [simp, intro]: "hm_wf []"
  by (simp add: hm_wf_def)

lemma hm_wf_insert [simp, intro]: "hm_wf m \<Longrightarrow> hm_wf (hm_insert k v m)"
  by (simp add: hm_wf_def distinct_update)

lemma hm_wf_remove [simp, intro]: "hm_wf m \<Longrightarrow> hm_wf (hm_remove k m)"
  by (simp add: hm_wf_def distinct_delete)

lemma hm_get_insert [simp]: "hm_get (hm_insert k v m) k' = (if k' = k then Some v else hm_get m k')"
  by (simp add: update_conv')

lemma hm_get_remove [simp]: "hm_get (hm_remove k m) k' = (if k' = k then None else hm_get m k')"
  by (simp add: delete_conv')

lemma hm_get_in: "hm_get m k = Some v \<Longrightarrow> (k, v) \<in> set m"
  by (rule map_of_SomeD)

lemma hm_get_iff: "hm_wf m \<Longrightarrow> hm_get m k = Some v \<longleftrightarrow> (k, v) \<in> set m"
  by (simp add: hm_wf_def)

lemma hm_keys_iff: "k \<in> set (hm_keys m) \<longleftrightarrow> hm_get m k \<noteq> None"
  by (simp add: map_of_eq_None_iff)

lemma hm_insert_fresh: "hm_get m k = None \<Longrightarrow> hm_insert k v m = m @ [(k, v)]"
  by (induction m) (auto split: if_splits)

lemma length_hm_insert:
  "length (hm_insert k v m) = (if hm_get m k = None then Suc (length m) else length m)"
  by (induction m) auto

lemma hm_keys_insert:
  "hm_keys (hm_insert k v m) = (if hm_get m k = None then hm_keys m @ [k] else hm_keys m)"
  by (induction m) auto

section \<open>Lists\<close>

lemma filter_snoc: "filter P (xs @ [x]) = filter P xs @ (if P x then [x] else [])"
  by simp

lemma find_Some_iff_ex: "(\<exists>x. List.find P xs = Some x) \<longleftrightarrow> (\<exists>x \<in> set xs. P x)"
  using find_None_iff [of P xs] by auto

lemma append_eq_same_length:
  "\<lbrakk>length xs = length us; xs @ ys = us @ vs\<rbrakk> \<Longrightarrow> xs = us \<and> ys = vs"
  by simp

lemma list_all_take: "i < length xs \<Longrightarrow> list_all P (take i xs) \<longleftrightarrow> (\<forall>j<i. P (xs ! j))"
  by (auto simp: list_all_length)

lemma hm_get_tabulate: "hm_get (map (\<lambda>k. (k, f k)) ks) k = (if k \<in> set ks then Some (f k) else None)"
  by (induction ks) auto

section \<open>Counters\<close>

lemma unat_plus_1: "w \<noteq> - 1 \<Longrightarrow> unat (w + 1 :: u64) = Suc (unat w)"
  by (metis add.commute add_eq_0_iff minus_equation_iff unat_1 unatSuc Suc_eq_plus1_left)

lemma less_plus_1: "t \<le> w \<Longrightarrow> w \<noteq> - 1 \<Longrightarrow> t < (w + 1 :: u64)"
  by (simp add: word_le_nat_alt word_less_nat_alt unat_plus_1)

section \<open>Decimal numbers in identifiers\<close>

text \<open>The text of an unsigned integer under \<open>format!\<close>.\<close>

definition digit :: "nat \<Rightarrow> char" where
  "digit n = char_of (48 + n)"

fun decimal :: "nat \<Rightarrow> string" where
  "decimal n = (if n < 10 then [digit n] else decimal (n div 10) @ [digit (n mod 10)])"

declare decimal.simps [simp del]

definition undecimal :: "string \<Rightarrow> nat" where
  "undecimal = foldl (\<lambda>a c. 10 * a + (of_char c - 48)) 0"

lemma undecimal_decimal: "undecimal (decimal n) = n"
proof (induction n rule: decimal.induct)
  case (1 n)
  then show ?case
    by (cases "n < 10") (simp_all add: decimal.simps [of n] undecimal_def digit_def of_char_of)
qed

lemma decimal_inject [simp]: "decimal m = decimal n \<longleftrightarrow> m = n"
  by (metis undecimal_decimal)

section \<open>Contracts shared by several components\<close>

text \<open>
  Operations that keep an invariant, and operations that only ever extend a log. The lemmas carry
  both over any sequence of operations.
\<close>

locale op_invariant =
  fixes exec :: "'op \<Rightarrow> 's \<Rightarrow> 's" and I :: "'s \<Rightarrow> bool"
  assumes exec_inv: "I s \<Longrightarrow> I (exec op s)"
begin

lemma run_inv: "I s \<Longrightarrow> I (fold exec ops s)"
  by (induction ops arbitrary: s) (simp_all add: exec_inv)

end

locale append_only = op_invariant exec I
  for exec :: "'op \<Rightarrow> 's \<Rightarrow> 's" and I :: "'s \<Rightarrow> bool" +
  fixes log :: "'s \<Rightarrow> 'e list"
  assumes exec_log: "I s \<Longrightarrow> prefix (log s) (log (exec op s))"
begin

lemma run_log: "I s \<Longrightarrow> prefix (log s) (log (fold exec ops s))"
proof (induction ops arbitrary: s)
  case (Cons op ops)
  then have "prefix (log (exec op s)) (log (fold exec ops (exec op s)))" by (simp add: exec_inv)
  with exec_log [OF Cons.prems] show ?case by (auto intro: prefix_order.trans)
qed simp

lemma run_log_nth:
  assumes "I s" "i < length (log s)"
  shows "i < length (log (fold exec ops s)) \<and> log (fold exec ops s) ! i = log s ! i"
  using run_log [OF assms(1), of ops] assms(2) by (auto simp: prefix_def nth_append)

end

section \<open>Injectivity on finite sets of inputs\<close>

lemma inj_on_setI: "list_all (\<lambda>a. list_all (\<lambda>b. f a = f b \<longrightarrow> a = b) xs) xs \<Longrightarrow> inj_on f (set xs)"
  by (auto simp: list_all_iff inj_on_def)

end
