(* ===== verification/Log_Entry.thy ===== *)
theory Log_Entry
  imports Confium_Base
begin

text \<open>
  The entries of the transparency log (\<open>confium-transparency/src/entry.rs\<close>): the artifact
  types with their stable names and the parser of those names, the entry record and the digest
  that the Merkle tree hashes. SHA-256 is the argument \<open>sha\<close>; the JSON value of the metadata
  field, which no operation reads, is the type parameter.
\<close>

datatype artifact_type =
    CertificateIssuance
  | CertificateRevocation
  | ThresholdSignature
  | ThresholdEncryption
  | DirectorRotation
  | QuorumPolicy
  | DirectorIdentity
  | ArchiveRenewal

fun as_str :: "artifact_type \<Rightarrow> string" where
  "as_str CertificateIssuance = ''certificate_issuance''"
| "as_str CertificateRevocation = ''certificate_revocation''"
| "as_str ThresholdSignature = ''threshold_signature''"
| "as_str ThresholdEncryption = ''threshold_encryption''"
| "as_str DirectorRotation = ''director_rotation''"
| "as_str QuorumPolicy = ''quorum_policy''"
| "as_str DirectorIdentity = ''director_identity''"
| "as_str ArchiveRenewal = ''archive_renewal''"

definition all_artifact_types :: "artifact_type list" where
  "all_artifact_types =
     [CertificateIssuance, CertificateRevocation, ThresholdSignature, ThresholdEncryption,
      DirectorRotation, QuorumPolicy, DirectorIdentity, ArchiveRenewal]"

datatype unknown_artifact_type = UnknownArtifactType string

text \<open>\<open>FromStr::from_str\<close>: the first variant of \<open>ALL\<close> whose name is the input.\<close>

definition from_str :: "string \<Rightarrow> unknown_artifact_type + artifact_type" where
  "from_str s =
     (case List.find (\<lambda>v. as_str v = s) all_artifact_types of
        Some v \<Rightarrow> Inr v
      | None \<Rightarrow> Inl (UnknownArtifactType s))"

type_synonym hash = bytes

record 'm merkle_entry =
  sequence :: u64
  timestamp :: instant
  artifact_type :: artifact_type
  artifact_hash :: hash
  metadata :: 'm

definition entry_new :: "'m \<Rightarrow> instant \<Rightarrow> u64 \<Rightarrow> artifact_type \<Rightarrow> hash \<Rightarrow> 'm merkle_entry" where
  "entry_new null now sq ty h =
     \<lparr>sequence = sq, timestamp = now, artifact_type = ty, artifact_hash = h, metadata = null\<rparr>"

text \<open>\<open>timestamp_micros\<close> rounds the instant down to microseconds.\<close>

definition timestamp_micros :: "instant \<Rightarrow> int" where
  "timestamp_micros t = t div 1000"

definition entry_bytes :: "'m merkle_entry \<Rightarrow> bytes" where
  "entry_bytes e =
     u64_to_le_bytes (sequence e) @ i64_to_le_bytes (timestamp_micros (timestamp e))
       @ artifact_hash e"

definition entry_hash :: "(bytes \<Rightarrow> hash) \<Rightarrow> 'm merkle_entry \<Rightarrow> hash" where
  "entry_hash sha e = sha (entry_bytes e)"

section \<open>Names and digests\<close>

lemma as_str_inject: "as_str a = as_str b \<longleftrightarrow> a = b"
  by (cases a; cases b) auto

lemma from_str_as_str: "from_str (as_str a) = Inr a"
  by (cases a) (simp_all add: from_str_def all_artifact_types_def)

lemma from_str_Inr: "from_str s = Inr a \<longleftrightarrow> s = as_str a"
proof
  assume "from_str s = Inr a"
  then show "s = as_str a"
    by (auto simp: from_str_def find_Some_iff split: option.splits)
next
  assume "s = as_str a"
  then show "from_str s = Inr a" by (simp add: from_str_as_str)
qed

text \<open>The bytes hashed for an entry determine the sequence number, the timestamp to the
  microsecond and the artifact hash (timestamps in the range of \<open>i64\<close> microseconds).\<close>

lemma entry_bytes_inject:
  assumes "entry_bytes a = entry_bytes b"
    and "i64_range (timestamp_micros (timestamp a))" "i64_range (timestamp_micros (timestamp b))"
  shows "sequence a = sequence b"
    and "timestamp_micros (timestamp a) = timestamp_micros (timestamp b)"
    and "artifact_hash a = artifact_hash b"
  using assms
  by (auto simp: entry_bytes_def u64_to_le_bytes_inject i64_to_le_bytes_inject)

end
