(* ===== verification/Merkle.thy ===== *)
theory Merkle
  imports Log_Entry
begin

text \<open>
  The Merkle tree of the transparency log (\<open>confium-transparency/src/merkle.rs\<close>): append with
  incrementally maintained levels, inclusion proofs and their verification, consistency proofs
  and their verification. SHA-256 is the argument \<open>sha\<close>. Indexing that would panic, and a loop
  that would not end, is the value \<open>None\<close>.
\<close>

section \<open>Data\<close>

datatype side = Left | Right

record proof_step =
  sibling :: hash
  side :: side

record inclusion_proof =
  proof_sequence :: u64
  steps :: "proof_step list"

record 'm merkle_tree =
  entries :: "'m merkle_entry list"
  leaf_hashes :: "hash list"
  levels :: "hash list list"
  cached_root :: hash

datatype merkle_error =
    OutOfRange u64 nat
  | ConsistencyFailed hash hash
  | InclusionFailed u64

definition zero_hash :: hash where
  "zero_hash = replicate 32 0"

definition hash_leaf :: "(bytes \<Rightarrow> hash) \<Rightarrow> hash \<Rightarrow> hash" where
  "hash_leaf sha h = sha (1 # h)"

definition hash_internal :: "(bytes \<Rightarrow> hash) \<Rightarrow> hash \<Rightarrow> hash \<Rightarrow> hash" where
  "hash_internal sha l r = sha (2 # l @ r)"

section \<open>Loops over powers of two\<close>

function pow2_loop :: "nat \<Rightarrow> nat \<Rightarrow> nat" where
  "pow2_loop n k = (if 0 < k \<and> k * 2 < n then pow2_loop n (k * 2) else k)"
  by pat_completeness auto
termination
  by (relation "measure (\<lambda>(n, k). n - k)") auto

declare pow2_loop.simps [simp del]

definition largest_pow2_strictly_less_than :: "nat \<Rightarrow> nat" where
  "largest_pow2_strictly_less_than n = (if n \<le> 1 then 0 else pow2_loop n 1)"

text \<open>The loop \<open>while k * 2 <= remaining\<close> of \<open>subtree_root\<close> is the same loop with the
  other bound.\<close>

definition largest_pow2_at_most :: "nat \<Rightarrow> nat" where
  "largest_pow2_at_most n = pow2_loop (Suc n) 1"

function trailing_zeros :: "nat \<Rightarrow> nat" where
  "trailing_zeros n = (if n = 0 then 64 else if odd n then 0 else Suc (trailing_zeros (n div 2)))"
  by pat_completeness auto
termination
  by (relation "measure id") auto

declare trailing_zeros.simps [simp del]

section \<open>Construction\<close>

definition tree_new :: "'m merkle_tree" where
  "tree_new = \<lparr>entries = [], leaf_hashes = [], levels = [], cached_root = zero_hash\<rparr>"

text \<open>
  The loop of \<open>append_level\<close>: \<open>lvl\<close> is the level at index \<open>j\<close>, the second list the levels above
  it. The result is the new levels above and the new root.
\<close>

fun append_loop :: "(bytes \<Rightarrow> hash) \<Rightarrow> hash list \<Rightarrow> hash list list \<Rightarrow> hash list list \<times> hash" where
  "append_loop sha lvl [] =
     (let n = length lvl;
          up = (if even n then hash_internal sha (lvl ! (n - 2)) (lvl ! (n - 1)) else lvl ! (n - 1))
      in ([[up]], up))"
| "append_loop sha lvl (upper # rest) =
     (let n = length lvl;
          up = (if even n then hash_internal sha (lvl ! (n - 2)) (lvl ! (n - 1)) else lvl ! (n - 1));
          target = (n + 1) div 2;
          upper' = (if length upper = target then butlast upper @ [up] else upper @ [up])
      in if length upper' = 1 then (upper' # rest, upper' ! 0)
         else let (ls, r) = append_loop sha upper' rest in (upper' # ls, r))"

definition append_level :: "(bytes \<Rightarrow> hash) \<Rightarrow> hash \<Rightarrow> hash list list \<Rightarrow> hash list list \<times> hash" where
  "append_level sha leaf lvls =
     (case lvls of
        [] \<Rightarrow> ([[leaf]], leaf)
      | lvl0 # uppers \<Rightarrow>
          (let lvl0' = lvl0 @ [leaf]; (ls, r) = append_loop sha lvl0' uppers in (lvl0' # ls, r)))"

definition tree_append :: "(bytes \<Rightarrow> hash) \<Rightarrow> 'm merkle_entry \<Rightarrow> 'm merkle_tree \<Rightarrow> 'm merkle_tree \<times> u64" where
  "tree_append sha entry t =
     (let entry' = (if sequence entry = 0 \<and> entries t \<noteq> []
                    then entry\<lparr>sequence := of_nat (length (entries t))\<rparr> else entry);
          leaf = hash_leaf sha (entry_hash sha entry');
          (lvls, r) = append_level sha leaf (levels t);
          t' = \<lparr>entries = entries t @ [entry'], leaf_hashes = leaf_hashes t @ [leaf],
                levels = lvls, cached_root = r\<rparr>
      in (t', of_nat (length (entries t') - 1)))"

text \<open>A log is built by appending entries one after the other.\<close>

fun append_all :: "(bytes \<Rightarrow> hash) \<Rightarrow> 'm merkle_entry list \<Rightarrow> 'm merkle_tree \<Rightarrow> 'm merkle_tree" where
  "append_all sha [] t = t"
| "append_all sha (e # es) t = append_all sha es (fst (tree_append sha e t))"

abbreviation log_of :: "(bytes \<Rightarrow> hash) \<Rightarrow> 'm merkle_entry list \<Rightarrow> 'm merkle_tree" where
  "log_of sha es \<equiv> append_all sha es tree_new"

lemma append_all_fold: "append_all sha es t = fold (\<lambda>e t. fst (tree_append sha e t)) es t"
  by (induction es arbitrary: t) auto

text \<open>\<open>rebuild_levels\<close>, the reference the incremental maintenance is compared with.\<close>

fun pair_level :: "(bytes \<Rightarrow> hash) \<Rightarrow> hash list \<Rightarrow> hash list" where
  "pair_level sha (l # r # xs) = hash_internal sha l r # pair_level sha xs"
| "pair_level sha [l] = [l]"
| "pair_level sha [] = []"

lemma length_pair_level: "length (pair_level sha xs) = (length xs + 1) div 2"
  by (induction sha xs rule: pair_level.induct) auto

function build_levels :: "(bytes \<Rightarrow> hash) \<Rightarrow> hash list \<Rightarrow> hash list list" where
  "build_levels sha xs =
     (if 1 < length xs then xs # build_levels sha (pair_level sha xs) else [xs])"
  by pat_completeness auto
termination
  by (relation "measure (\<lambda>(sha, xs). length xs)") (auto simp: length_pair_level)

declare build_levels.simps [simp del]

definition rebuild_levels :: "(bytes \<Rightarrow> hash) \<Rightarrow> 'm merkle_tree \<Rightarrow> 'm merkle_tree" where
  "rebuild_levels sha t =
     (if leaf_hashes t = [] then t\<lparr>levels := [], cached_root := zero_hash\<rparr>
      else let lvls = build_levels sha (leaf_hashes t)
           in t\<lparr>levels := lvls, cached_root := last lvls ! 0\<rparr>)"

section \<open>Queries\<close>

definition tree_len :: "'m merkle_tree \<Rightarrow> nat" where
  "tree_len t = length (entries t)"

definition tree_is_empty :: "'m merkle_tree \<Rightarrow> bool" where
  "tree_is_empty t \<longleftrightarrow> entries t = []"

definition tree_root :: "'m merkle_tree \<Rightarrow> hash" where
  "tree_root t = cached_root t"

definition tree_entry :: "'m merkle_tree \<Rightarrow> u64 \<Rightarrow> merkle_error + 'm merkle_entry" where
  "tree_entry t sq =
     (if unat sq < length (entries t) then Inr (entries t ! unat sq)
      else Inl (OutOfRange sq (length (entries t))))"

section \<open>Inclusion proofs\<close>

fun proof_steps :: "hash list list \<Rightarrow> nat \<Rightarrow> proof_step list" where
  "proof_steps [] idx = []"
| "proof_steps (current # rest) idx =
     (if even idx
      then (if idx + 1 < length current
            then [\<lparr>sibling = current ! (idx + 1), side = Right\<rparr>] else [])
      else [\<lparr>sibling = current ! (idx - 1), side = Left\<rparr>])
     @ proof_steps rest (idx div 2)"

definition tree_inclusion_proof :: "'m merkle_tree \<Rightarrow> u64 \<Rightarrow> merkle_error + inclusion_proof" where
  "tree_inclusion_proof t sq =
     (if length (leaf_hashes t) \<le> unat sq then Inl (OutOfRange sq (length (entries t)))
      else if levels t = [] then Inl (OutOfRange sq (length (entries t)))
      else Inr \<lparr>proof_sequence = sq,
                steps = proof_steps (take (length (levels t) - 1) (levels t)) (unat sq)\<rparr>)"

fun fold_step :: "(bytes \<Rightarrow> hash) \<Rightarrow> hash \<Rightarrow> proof_step \<Rightarrow> hash" where
  "fold_step sha current st =
     (case side st of
        Left \<Rightarrow> hash_internal sha (sibling st) current
      | Right \<Rightarrow> hash_internal sha current (sibling st))"

definition verify_inclusion ::
    "(bytes \<Rightarrow> hash) \<Rightarrow> 'm merkle_entry \<Rightarrow> inclusion_proof \<Rightarrow> hash \<Rightarrow> merkle_error + unit" where
  "verify_inclusion sha entry pf root =
     (let current = foldl (fold_step sha) (hash_leaf sha (entry_hash sha entry)) (steps pf)
      in if current = root then Inr () else Inl (InclusionFailed (sequence entry)))"

section \<open>Subtree roots and consistency proofs\<close>

text \<open>The cache-miss path of \<open>perfect_subtree_root\<close>: an odd chunk would panic.\<close>

fun chunk_level :: "(bytes \<Rightarrow> hash) \<Rightarrow> hash list \<Rightarrow> hash list option" where
  "chunk_level sha [] = Some []"
| "chunk_level sha [x] = None"
| "chunk_level sha (l # r # xs) = map_option ((#) (hash_internal sha l r)) (chunk_level sha xs)"

lemma length_chunk_level: "chunk_level sha xs = Some ys \<Longrightarrow> length xs = 2 * length ys"
  by (induction sha xs arbitrary: ys rule: chunk_level.induct) auto

function rehash :: "(bytes \<Rightarrow> hash) \<Rightarrow> hash list \<Rightarrow> hash option" where
  "rehash sha lvl =
     (if 1 < length lvl
      then (case chunk_level sha lvl of None \<Rightarrow> None | Some nxt \<Rightarrow> rehash sha nxt)
      else if lvl = [] then None else Some (lvl ! 0))"
  by pat_completeness auto
termination
  by (relation "measure (\<lambda>(sha, lvl). length lvl)") (auto dest!: length_chunk_level)

declare rehash.simps [simp del]

definition perfect_subtree_root ::
    "(bytes \<Rightarrow> hash) \<Rightarrow> 'm merkle_tree \<Rightarrow> nat \<Rightarrow> nat \<Rightarrow> hash option" where
  "perfect_subtree_root sha t start sz =
     (if sz = 1
      then (if start < length (leaf_hashes t) then Some (leaf_hashes t ! start) else None)
      else let j = trailing_zeros sz; idx = start div sz
           in if j < length (levels t) \<and> idx < length (levels t ! j)
              then Some (levels t ! j ! idx)
              else if start + sz \<le> length (leaf_hashes t)
              then rehash sha (take sz (drop start (leaf_hashes t)))
              else None)"

text \<open>
  The frontier loop of \<open>subtree_root\<close>. With \<open>k = 0\<close> and leaves remaining the source would loop
  for ever; the value is \<open>None\<close>.
\<close>

function frontier_loop ::
    "(bytes \<Rightarrow> hash) \<Rightarrow> 'm merkle_tree \<Rightarrow> nat \<Rightarrow> nat \<Rightarrow> nat \<Rightarrow> (nat \<times> hash) list option" where
  "frontier_loop sha t offset remaining k =
     (if remaining = 0 then Some []
      else if k = 0 then None
      else if k \<le> remaining
      then (case perfect_subtree_root sha t offset k of
              None \<Rightarrow> None
            | Some h \<Rightarrow>
                map_option ((#) (k, h)) (frontier_loop sha t (offset + k) (remaining - k) (k div 2)))
      else frontier_loop sha t offset remaining (k div 2))"
  by pat_completeness auto
termination
  by (relation "measure (\<lambda>(sha, t, offset, remaining, k). k)") auto

declare frontier_loop.simps [simp del]

definition subtree_root :: "(bytes \<Rightarrow> hash) \<Rightarrow> 'm merkle_tree \<Rightarrow> nat \<Rightarrow> nat \<Rightarrow> hash option" where
  "subtree_root sha t start sz =
     (if sz = 0 then Some zero_hash
      else case frontier_loop sha t start sz (largest_pow2_at_most sz) of
             None \<Rightarrow> None
           | Some frontier \<Rightarrow>
               (if frontier = [] then None
                else Some (fold (\<lambda>(_, h) acc. hash_internal sha h acc)
                             (tl (rev frontier)) (snd (last frontier)))))"

lemma pow2_loop_bounds: "0 < k \<Longrightarrow> k < n \<Longrightarrow> k \<le> pow2_loop n k \<and> pow2_loop n k < n"
proof (induction n k rule: pow2_loop.induct)
  case (1 n k)
  then show ?case by (subst (1 2) pow2_loop.simps) (auto simp: pow2_loop.simps [of n k])
qed

lemma largest_pow2_bounds:
  "1 < n \<Longrightarrow> 0 < largest_pow2_strictly_less_than n \<and> largest_pow2_strictly_less_than n < n"
  using pow2_loop_bounds [of 1 n] by (simp add: largest_pow2_strictly_less_than_def)

lemma largest_pow2_less [simp]:
  "Suc 0 < n \<Longrightarrow> 0 < largest_pow2_strictly_less_than n"
  "Suc 0 < n \<Longrightarrow> largest_pow2_strictly_less_than n < n"
  using largest_pow2_bounds [of n] by simp_all

text \<open>The second recursive call with \<open>k = 0\<close> would repeat itself for ever.\<close>

function consistency_rec ::
    "(bytes \<Rightarrow> hash) \<Rightarrow> 'm merkle_tree \<Rightarrow> nat \<Rightarrow> nat \<Rightarrow> nat \<Rightarrow> hash list option" where
  "consistency_rec sha t start old_size new_size =
     (if old_size = new_size then Some []
      else let k = largest_pow2_strictly_less_than new_size
           in if old_size \<le> k
              then (case consistency_rec sha t start old_size k of
                      None \<Rightarrow> None
                    | Some sub \<Rightarrow>
                        map_option (\<lambda>h. sub @ [h]) (subtree_root sha t (start + k) (new_size - k)))
              else if k = 0 then None
              else (case consistency_rec sha t (start + k) (old_size - k) (new_size - k) of
                      None \<Rightarrow> None
                    | Some sub \<Rightarrow> map_option (\<lambda>h. h # sub) (subtree_root sha t start k)))"
  by pat_completeness auto
termination
  by (relation "measure (\<lambda>(sha, t, start, old_size, new_size). new_size)")
     (use largest_pow2_bounds in
       \<open>fastforce simp: largest_pow2_strictly_less_than_def split: if_splits\<close>)+

declare consistency_rec.simps [simp del]

definition consistency_proof ::
    "(bytes \<Rightarrow> hash) \<Rightarrow> 'm merkle_tree \<Rightarrow> nat \<Rightarrow> (merkle_error + hash list) option" where
  "consistency_proof sha t old_size =
     (let new_size = length (leaf_hashes t)
      in if new_size < old_size then Some (Inl (OutOfRange (of_nat old_size) new_size))
         else if old_size = 0 \<or> old_size = new_size then Some (Inr [])
         else map_option Inr (consistency_rec sha t 0 old_size new_size))"

definition root_at_size :: "(bytes \<Rightarrow> hash) \<Rightarrow> 'm merkle_tree \<Rightarrow> nat \<Rightarrow> hash option" where
  "root_at_size sha t sz =
     (if sz = 0 \<or> length (leaf_hashes t) < sz then Some zero_hash
      else subtree_root sha t 0 sz)"

definition verify_consistency ::
    "(bytes \<Rightarrow> hash) \<Rightarrow> 'm merkle_tree \<Rightarrow> hash \<Rightarrow> hash \<Rightarrow> nat \<Rightarrow> nat \<Rightarrow> hash list
      \<Rightarrow> (merkle_error + unit) option" where
  "verify_consistency sha t old_root new_root old_size new_size pf =
     (if old_size = 0 then Some (Inr ())
      else let current_size = length (leaf_hashes t)
           in if new_size \<noteq> current_size then Some (Inl (ConsistencyFailed new_root (tree_root t)))
              else if current_size < old_size
              then Some (Inl (OutOfRange (of_nat old_size) current_size))
              else map_option
                     (\<lambda>computed_old_root.
                        if computed_old_root = old_root \<and> tree_root t = new_root then Inr ()
                        else Inl (ConsistencyFailed old_root computed_old_root))
                     (root_at_size sha t old_size))"

end
