(* ===== verification/Merkle_Levels.thy ===== *)
theory Merkle_Levels
  imports Merkle
begin

text \<open>
  The levels the Merkle tree keeps: the incremental maintenance of \<open>append_level\<close> computes the
  levels of \<open>rebuild_levels\<close>, the root is the Merkle tree hash of RFC 6962, and each cached
  node is the Merkle tree hash of its slice of leaves. The predicate \<open>tree_inv\<close> collects
  this; \<open>tree_append\<close> keeps it.
\<close>

section \<open>Pairing one level\<close>

lemma pair_level_nth:
  "i < length (pair_level sha xs) \<Longrightarrow>
     pair_level sha xs ! i =
       (if 2 * i + 1 < length xs then hash_internal sha (xs ! (2 * i)) (xs ! (2 * i + 1))
        else xs ! (2 * i))"
proof (induction sha xs arbitrary: i rule: pair_level.induct)
  case (1 sha l r xs)
  then show ?case by (cases i) auto
qed auto

lemma pair_level_take: "pair_level sha (take (2 * k) xs) = take k (pair_level sha xs)"
proof (induction sha xs arbitrary: k rule: pair_level.induct)
  case (1 sha l r xs)
  then show ?case by (cases k) auto
next
  case (2 sha l) then show ?case by (cases k) auto
qed auto

lemma pair_level_append:
  "even (length xs) \<Longrightarrow> pair_level sha (xs @ ys) = pair_level sha xs @ pair_level sha ys"
  by (induction sha xs rule: pair_level.induct) auto

lemma pair_level_eq_Nil [simp]: "pair_level sha xs = [] \<longleftrightarrow> xs = []"
  by (induction sha xs rule: pair_level.induct) auto

lemma build_levels_neq_Nil [simp]: "build_levels sha xs \<noteq> []"
  by (simp add: build_levels.simps)

lemma build_levels_unfold: "1 < length xs \<Longrightarrow> build_levels sha xs = xs # build_levels sha (pair_level sha xs)"
  and build_levels_single: "length xs \<le> 1 \<Longrightarrow> build_levels sha xs = [xs]"
  by (simp_all add: build_levels.simps [of sha xs])

lemma build_levels_Cons: "build_levels sha xs = xs # tl (build_levels sha xs)"
  by (simp add: build_levels.simps [of sha xs])

lemma pair_level_tail:
  assumes n: "n = length xs" "0 < n"
  shows "pair_level sha xs =
     take ((n + 1) div 2 - 1) (pair_level sha xs)
       @ [if even n then hash_internal sha (xs ! (n - 2)) (xs ! (n - 1)) else xs ! (n - 1)]"
proof -
  let ?p = "pair_level sha xs" and ?k = "(n + 1) div 2 - 1"
  have len: "length ?p = Suc ?k" using n by (auto simp: length_pair_level)
  then have "?p = take ?k ?p @ [?p ! ?k]"
    by (metis lessI order_refl take_Suc_conv_app_nth take_all)
  moreover have "?p ! ?k =
      (if even n then hash_internal sha (xs ! (n - 2)) (xs ! (n - 1)) else xs ! (n - 1))"
  proof (cases "even n")
    case True
    then obtain m where "n = 2 * Suc m" using n by (metis evenE gr0_implies_Suc mult_0_right neq0_conv)
    then have "?k = m" "n - 2 = 2 * m" "n - 1 = 2 * m + 1" "n = 2 * m + 2" by auto
    with True n len show ?thesis by (subst pair_level_nth) auto
  next
    case False
    then obtain m where "n = 2 * m + 1" by (auto elim: oddE)
    with False n len show ?thesis by (subst pair_level_nth) auto
  qed
  ultimately show ?thesis by simp
qed

text \<open>The new level shares all but its last node with the old one.\<close>

lemma pair_level_take_cong:
  assumes "take m xs = take m ys" "2 * k \<le> m"
  shows "take k (pair_level sha xs) = take k (pair_level sha ys)"
  using assms by (metis min.absorb1 pair_level_take take_take)

lemma append_loop_build:
  assumes "lvl \<noteq> []" "m = length lvl \<or> Suc m = length lvl" "1 \<le> m"
  shows "append_loop sha (take m lvl @ [v]) (tl (build_levels sha lvl)) =
    (tl (build_levels sha (take m lvl @ [v])), last (build_levels sha (take m lvl @ [v])) ! 0)"
  using assms
proof (induction sha lvl arbitrary: m v rule: build_levels.induct)
  case (1 sha lvl m v)
  let ?l = "take m lvl @ [v]"
  let ?n = "Suc m" and ?p = "pair_level sha lvl" and ?q = "pair_level sha ?l"
  define up where "up = (if even ?n then hash_internal sha (?l ! (?n - 2)) (?l ! (?n - 1)) else ?l ! (?n - 1))"
  have len: "length ?l = ?n" using 1 by auto
  have q: "?q = take ((?n + 1) div 2 - 1) ?q @ [up]"
    unfolding up_def by (rule pair_level_tail) (use len in auto)
  have bl: "build_levels sha ?l = ?l # build_levels sha ?q"
    using 1 len by (intro build_levels_unfold) simp
  show ?case
  proof (cases "1 < length lvl")
    case False
    then have l1: "length lvl = 1" "m = 1" using 1 by (cases lvl; auto)+
    then have "build_levels sha lvl = [lvl]" by (simp add: build_levels_single)
    moreover have "?q = [up]" using q l1 by simp
    ultimately show ?thesis
      using l1 len bl by (simp add: up_def build_levels_single Let_def)
  next
    case True
    define m' where "m' = (?n + 1) div 2 - 1"
    have tk: "take m' ?q = take m' ?p"
      by (rule pair_level_take_cong [where m = m]) (use 1 in \<open>auto simp: m'_def\<close>)
    have m': "m' = length ?p \<or> Suc m' = length ?p"
      using 1 by (auto simp: m'_def length_pair_level)
    have q': "?q = take m' ?p @ [up]" using q tk by (simp add: m'_def)
    have tgt: "(?n + 1) div 2 = Suc m'" by (simp add: m'_def)
    have upper: "(if length ?p = Suc m' then butlast ?p @ [up] else ?p @ [up]) = ?q"
      using m' unfolding q' by (auto simp: butlast_conv_take)
    have lv: "tl (build_levels sha lvl) = ?p # tl (build_levels sha ?p)"
      using True build_levels_Cons [of sha ?p] by (simp add: build_levels_unfold)
    have step: "append_loop sha ?l (tl (build_levels sha lvl)) =
        (if length ?q = 1 then (?q # tl (build_levels sha ?p), ?q ! 0)
         else let (ls, r) = append_loop sha ?q (tl (build_levels sha ?p)) in (?q # ls, r))"
      unfolding lv append_loop.simps Let_def len up_def [symmetric] tgt upper by simp
    show ?thesis
    proof (cases "length ?q = 1")
      case True
      then have "m' = 0" using q' m' by auto
      then have "length ?p = 1" using m' 1 by (auto simp: length_pair_level)
      with True show ?thesis using step bl by (simp add: build_levels_single)
    next
      case False
      then have "1 \<le> m'" using q' m' by auto
      with 1(1) [OF True _ m', of up] 1(2) show ?thesis
        using step bl False build_levels_Cons [of sha ?q] by (simp add: q'[symmetric])
    qed
  qed
qed

lemma append_level_build:
  "append_level sha leaf (if xs = [] then [] else build_levels sha xs) =
     (build_levels sha (xs @ [leaf]), last (build_levels sha (xs @ [leaf])) ! 0)"
proof (cases "xs = []")
  case False
  then have "append_loop sha (xs @ [leaf]) (tl (build_levels sha xs)) =
      (tl (build_levels sha (xs @ [leaf])), last (build_levels sha (xs @ [leaf])) ! 0)"
    using append_loop_build [of xs "length xs" sha leaf] by (cases xs) auto
  with False show ?thesis
    using build_levels_Cons [of sha xs] build_levels_Cons [of sha "xs @ [leaf]"]
    by (auto simp: append_level_def Let_def split: list.split)
qed (simp add: append_level_def build_levels_single)

lemma pair_level_drop: "pair_level sha (drop (2 * k) xs) = drop k (pair_level sha xs)"
proof (induction sha xs arbitrary: k rule: pair_level.induct)
  case (1 sha l r xs)
  then show ?case by (cases k) auto
next
  case (2 sha l) then show ?case by (cases k) auto
qed auto

section \<open>The Merkle tree hash\<close>

text \<open>The Merkle tree hash of RFC 6962, section 2.1, over the list of leaf hashes.\<close>

function mth :: "(bytes \<Rightarrow> hash) \<Rightarrow> hash list \<Rightarrow> hash" where
  "mth sha xs =
     (if length xs \<le> 1 then (if xs = [] then zero_hash else xs ! 0)
      else let k = largest_pow2_strictly_less_than (length xs)
           in hash_internal sha (mth sha (take k xs)) (mth sha (drop k xs)))"
  by pat_completeness auto
termination
  by (relation "measure (\<lambda>(sha, xs). length xs)")
     (auto simp: not_le intro!: diff_less)

declare mth.simps [simp del]

lemma mth_Nil [simp]: "mth sha [] = zero_hash"
  and mth_single [simp]: "mth sha [x] = x"
  by (simp_all add: mth.simps)

lemma pow2_loop_char:
  assumes "k = 2 ^ i" "k < n"
  shows "\<exists>j. pow2_loop n k = 2 ^ j \<and> 2 ^ j < n \<and> n \<le> 2 * 2 ^ j"
  using assms
proof (induction n k arbitrary: i rule: pow2_loop.induct)
  case (1 n k)
  show ?case
  proof (cases "k * 2 < n")
    case True
    with 1(1) [of "Suc i"] 1(2,3) show ?thesis by (subst pow2_loop.simps) (simp add: mult.commute)
  next
    case False
    with 1(2,3) show ?thesis by (auto simp: pow2_loop.simps [of n "2 ^ i"])
  qed
qed

lemma pow2_unique:
  fixes n :: nat
  assumes "2 ^ i < n" "n \<le> 2 * 2 ^ i" "2 ^ j < n" "n \<le> 2 * 2 ^ j"
  shows "i = j"
proof -
  have "(2::nat) ^ i < 2 ^ Suc j" "(2::nat) ^ j < 2 ^ Suc i" using assms by simp_all
  then have "i < Suc j" "j < Suc i" by (simp_all only: power_strict_increasing_iff [of 2])
  then show ?thesis by simp
qed

lemma largest_pow2_eqI:
  assumes "2 ^ j < n" "n \<le> 2 * 2 ^ j"
  shows "largest_pow2_strictly_less_than n = 2 ^ j"
proof -
  have "1 < n" using assms(1) by (metis less_one linorder_not_less nat_less_le one_le_numeral one_le_power order_le_less_trans)
  then obtain i where "largest_pow2_strictly_less_than n = 2 ^ i" "2 ^ i < n" "n \<le> 2 * 2 ^ i"
    using pow2_loop_char [of 1 0 n] by (auto simp: largest_pow2_strictly_less_than_def)
  with pow2_unique [of i n j] assms show ?thesis by simp
qed

lemma largest_pow2_char:
  assumes "1 < n"
  obtains j where "largest_pow2_strictly_less_than n = 2 ^ j" "2 ^ j < n" "n \<le> 2 * 2 ^ j"
  using pow2_loop_char [of 1 0 n] assms by (auto simp: largest_pow2_strictly_less_than_def)

lemma mth_split:
  assumes "2 ^ j < length xs" "length xs \<le> 2 * 2 ^ j"
  shows "mth sha xs = hash_internal sha (mth sha (take (2 ^ j) xs)) (mth sha (drop (2 ^ j) xs))"
proof -
  have "\<not> length xs \<le> 1" using assms(1) by (metis less_le_trans linorder_not_less nat_less_le one_le_numeral one_le_power)
  then show ?thesis using largest_pow2_eqI [OF assms] by (simp add: mth.simps [of sha xs] Let_def)
qed

lemma largest_pow2_half:
  assumes "2 < n"
  obtains j where "largest_pow2_strictly_less_than n = 2 * 2 ^ j"
    "largest_pow2_strictly_less_than ((n + 1) div 2) = 2 ^ j"
proof -
  obtain i where i: "largest_pow2_strictly_less_than n = 2 ^ i" "2 ^ i < n" "n \<le> 2 * 2 ^ i"
    using assms by (elim largest_pow2_char [of n, rotated]) auto
  then obtain j where j: "i = Suc j" using assms by (cases i) auto
  have "largest_pow2_strictly_less_than ((n + 1) div 2) = 2 ^ j"
    by (rule largest_pow2_eqI) (use i j in auto)
  with i j that show thesis by simp
qed

text \<open>Pairing a level does not change its Merkle tree hash.\<close>

lemma mth_pair_level: "mth sha (pair_level sha xs) = mth sha xs"
proof (induction "length xs" arbitrary: xs rule: less_induct)
  case less
  consider "length xs \<le> 1" | "length xs = 2" | "2 < length xs" by linarith
  then show ?case
  proof cases
    case 1
    then show ?thesis by (cases xs) (auto simp: le_Suc_eq)
  next
    case 2
    then obtain a b where xs: "xs = [a, b]" by (auto simp: length_Suc_conv numeral_2_eq_2)
    show ?thesis using mth_split [of 0 xs sha] by (simp add: xs)
  next
    case 3
    then obtain j where k: "largest_pow2_strictly_less_than (length xs) = 2 * 2 ^ j"
        "largest_pow2_strictly_less_than ((length xs + 1) div 2) = 2 ^ j"
      by (rule largest_pow2_half)
    let ?l = "take (2 * 2 ^ j) xs" and ?r = "drop (2 * 2 ^ j) xs"
    have kb: "2 * 2 ^ j < length xs" using largest_pow2_bounds [of "length xs"] 3 k by simp
    have shorter: "length ?r < length xs" using 3 by (auto intro!: diff_less)
    have half: "\<not> Suc (length xs) div 2 \<le> Suc 0" using 3 by simp
    have "mth sha (pair_level sha xs) =
        hash_internal sha (mth sha (pair_level sha ?l)) (mth sha (pair_level sha ?r))"
      using k(2) half by (subst mth.simps) (simp add: length_pair_level Let_def pair_level_take pair_level_drop)
    also have "\<dots> = hash_internal sha (mth sha ?l) (mth sha ?r)"
      using less [of ?l] less [of ?r] kb shorter by simp
    also have "\<dots> = mth sha xs" using 3 k(1) by (simp add: mth.simps [of sha xs] Let_def)
    finally show ?thesis .
  qed
qed

lemma root_build_levels: "xs \<noteq> [] \<Longrightarrow> last (build_levels sha xs) ! 0 = mth sha xs"
proof (induction sha xs rule: build_levels.induct)
  case (1 sha xs)
  show ?case
  proof (cases "1 < length xs")
    case True
    then show ?thesis using 1 by (simp add: build_levels_unfold mth_pair_level)
  next
    case False
    then show ?thesis using 1(2) by (simp add: build_levels_single mth.simps)
  qed
qed

section \<open>The invariant of the tree\<close>

definition leaf_of :: "(bytes \<Rightarrow> hash) \<Rightarrow> 'm merkle_entry \<Rightarrow> hash" where
  "leaf_of sha e = hash_leaf sha (entry_hash sha e)"

definition tree_inv :: "(bytes \<Rightarrow> hash) \<Rightarrow> 'm merkle_tree \<Rightarrow> bool" where
  "tree_inv sha t \<longleftrightarrow>
     leaf_hashes t = map (leaf_of sha) (entries t) \<and>
     levels t = (if leaf_hashes t = [] then [] else build_levels sha (leaf_hashes t)) \<and>
     cached_root t = mth sha (leaf_hashes t)"

lemma tree_inv_new: "tree_inv sha tree_new"
  by (simp add: tree_inv_def tree_new_def)

lemma tree_append_fields:
  assumes "tree_inv sha t"
  shows "fst (tree_append sha e t) =
    (let e' = (if sequence e = 0 \<and> entries t \<noteq> [] then e\<lparr>sequence := of_nat (tree_len t)\<rparr> else e);
         xs = leaf_hashes t @ [leaf_of sha e']
     in \<lparr>entries = entries t @ [e'], leaf_hashes = xs, levels = build_levels sha xs,
         cached_root = mth sha xs\<rparr>)"
proof -
  have "append_level sha v (levels t) =
      (build_levels sha (leaf_hashes t @ [v]), mth sha (leaf_hashes t @ [v]))" for v
    using assms append_level_build [of sha v "leaf_hashes t"]
    by (simp add: tree_inv_def root_build_levels)
  then show ?thesis by (simp add: tree_append_def leaf_of_def Let_def tree_len_def)
qed

lemma tree_inv_append: "tree_inv sha t \<Longrightarrow> tree_inv sha (fst (tree_append sha e t))"
  by (subst tree_append_fields) (auto simp: tree_inv_def Let_def)

lemma rebuild_levels_id: "tree_inv sha t \<Longrightarrow> rebuild_levels sha t = t"
  by (cases t) (auto simp: tree_inv_def rebuild_levels_def Let_def root_build_levels)

lemma tree_append_entries:
  "entries (fst (tree_append sha e t)) =
     entries t @ [if sequence e = 0 \<and> entries t \<noteq> [] then e\<lparr>sequence := of_nat (tree_len t)\<rparr> else e]"
  by (simp add: tree_append_def Let_def split: prod.split add: tree_len_def)

interpretation log_tree: append_only "\<lambda>e t. fst (tree_append sha e t)" "tree_inv sha" entries
  for sha :: "bytes \<Rightarrow> hash"
  by unfold_locales (simp_all add: tree_inv_append tree_append_entries)

lemma tree_inv_log: "tree_inv sha (append_all sha es tree_new)"
  unfolding append_all_fold by (intro log_tree.run_inv tree_inv_new)

lemma append_all_append: "append_all sha (es @ fs) t = append_all sha fs (append_all sha es t)"
  by (simp add: append_all_fold)

section \<open>Cached nodes\<close>

lemma build_levels_nth:
  "j < length (build_levels sha xs) \<Longrightarrow> build_levels sha xs ! j = (pair_level sha ^^ j) xs"
proof (induction sha xs arbitrary: j rule: build_levels.induct)
  case (1 sha xs)
  show ?case
  proof (cases "1 < length xs")
    case True
    with 1 show ?thesis
      by (cases j) (auto simp: build_levels_unfold funpow_swap1)
  qed (use 1 in \<open>simp add: build_levels_single\<close>)
qed

lemma pair_levels_slice:
  "(pair_level sha ^^ j) (take (k * 2 ^ j) (drop (i * 2 ^ j) xs)) =
     take k (drop i ((pair_level sha ^^ j) xs))"
proof (induction j arbitrary: k i)
  case (Suc j)
  have "k * 2 ^ Suc j = (2 * k) * 2 ^ j" "i * 2 ^ Suc j = (2 * i) * 2 ^ j" by simp_all
  then show ?case using Suc [of "2 * k" "2 * i"]
    by (simp only: funpow.simps o_apply pair_level_take pair_level_drop)
qed simp

lemma mth_pair_levels: "mth sha ((pair_level sha ^^ j) xs) = mth sha xs"
  by (induction j) (simp_all add: mth_pair_level)

lemma level_node:
  assumes "i < length ((pair_level sha ^^ j) xs)"
  shows "(pair_level sha ^^ j) xs ! i = mth sha (take (2 ^ j) (drop (i * 2 ^ j) xs))"
proof -
  have "mth sha (take (2 ^ j) (drop (i * 2 ^ j) xs)) =
      mth sha ((pair_level sha ^^ j) (take (1 * 2 ^ j) (drop (i * 2 ^ j) xs)))"
    by (simp add: mth_pair_levels)
  also have "\<dots> = mth sha [(pair_level sha ^^ j) xs ! i]"
    using assms by (simp only: pair_levels_slice) (simp add: take_Suc hd_drop_conv_nth)
  finally show ?thesis by simp
qed

lemma chunk_level_even: "even (length xs) \<Longrightarrow> chunk_level sha xs = Some (pair_level sha xs)"
  by (induction sha xs rule: chunk_level.induct) auto

lemma rehash_mth: "length xs = 2 ^ j \<Longrightarrow> rehash sha xs = Some (mth sha xs)"
proof (induction j arbitrary: xs)
  case 0
  then show ?case by (auto simp: rehash.simps length_Suc_conv)
next
  case (Suc j)
  then have "1 < length xs" by (metis one_less_numeral_iff one_less_power semiring_norm(76) zero_less_Suc)
  with Suc show ?case
    by (simp add: rehash.simps [of sha xs] chunk_level_even length_pair_level mth_pair_level)
qed

lemma trailing_zeros_power: "trailing_zeros (2 ^ j) = j"
  by (induction j) (subst trailing_zeros.simps, simp)+

lemma perfect_subtree_root_mth:
  assumes inv: "tree_inv sha t" and sz: "sz = 2 ^ j" "sz dvd start"
    and range: "start + sz \<le> length (leaf_hashes t)"
  shows "perfect_subtree_root sha t start sz = Some (mth sha (take sz (drop start (leaf_hashes t))))"
proof (cases "j = 0")
  case True
  with sz range show ?thesis
    by (simp add: perfect_subtree_root_def take_Suc hd_drop_conv_nth)
next
  case False
  then have "sz \<noteq> 1" using sz by simp
  moreover have ne: "leaf_hashes t \<noteq> []" using range sz by auto
  moreover have "rehash sha (take sz (drop start (leaf_hashes t))) =
      Some (mth sha (take sz (drop start (leaf_hashes t))))"
    using sz range by (intro rehash_mth [of _ j]) simp
  moreover have "levels t ! j ! (start div sz) = mth sha (take sz (drop start (leaf_hashes t)))"
    if "j < length (levels t)" "start div sz < length (levels t ! j)"
    using that level_node [where sha = sha and i = "start div sz" and j = j and xs = "leaf_hashes t"] inv sz ne
    by (simp add: tree_inv_def build_levels_nth)
  ultimately show ?thesis
    using sz range by (simp add: perfect_subtree_root_def trailing_zeros_power Let_def)
qed

end
