(* ===== verification/Merkle_Proofs.thy ===== *)
theory Merkle_Proofs
  imports Merkle_Levels
begin

text \<open>
  What the proofs of the transparency log establish: every entry has an inclusion proof that
  verifies; a verifying proof puts the entry in the log, up to a collision of SHA-256;
  subtree roots, and with them old roots, are Merkle tree hashes of slices of the leaves;
  consistency verification accepts exactly the roots of the two prefixes, which pins the old
  entries up to a collision.
\<close>

section \<open>Completeness of inclusion proofs\<close>

lemma proof_steps_fold:
  "idx < length xs \<Longrightarrow>
     foldl (fold_step sha) (xs ! idx) (proof_steps (butlast (build_levels sha xs)) idx) = mth sha xs"
proof (induction sha xs arbitrary: idx rule: build_levels.induct)
  case (1 sha xs idx)
  show ?case
  proof (cases "1 < length xs")
    case False
    then obtain x where "xs = [x]" using 1(2) by (cases xs) auto
    then show ?thesis using 1(2) by (simp add: build_levels_single)
  next
    case True
    let ?p = "pair_level sha xs"
    have lt: "idx div 2 < length ?p" using 1(2) by (simp add: length_pair_level less_mult_imp_div_less)
    have bl: "butlast (build_levels sha xs) = xs # butlast (build_levels sha ?p)"
      using True by (simp add: build_levels_unfold)
    have "?p ! (idx div 2) = foldl (fold_step sha) (xs ! idx)
        (if even idx then (if idx + 1 < length xs then [\<lparr>sibling = xs ! (idx + 1), side = Right\<rparr>] else [])
         else [\<lparr>sibling = xs ! (idx - 1), side = Left\<rparr>])"
      using 1(2) lt by (auto simp: pair_level_nth elim!: evenE oddE)
    then show ?thesis
      using 1(1) [OF True lt] unfolding bl proof_steps.simps foldl_append by (simp only: mth_pair_level)
  qed
qed

lemma inclusion_proof_ok:
  assumes "tree_inv sha t" "unat sq < tree_len t"
  obtains pf where "tree_inclusion_proof t sq = Inr pf" "proof_sequence pf = sq"
    "verify_inclusion sha (entries t ! unat sq) pf (tree_root t) = Inr ()"
proof -
  let ?xs = "leaf_hashes t"
  have len: "unat sq < length ?xs" and ne: "?xs \<noteq> []"
    and leaf: "?xs ! unat sq = leaf_of sha (entries t ! unat sq)"
    using assms by (auto simp: tree_inv_def tree_len_def)
  let ?p = "\<lparr>proof_sequence = sq, steps = proof_steps (butlast (build_levels sha ?xs)) (unat sq)\<rparr>"
  have "tree_inclusion_proof t sq = Inr ?p"
    using assms len ne by (auto simp: tree_inclusion_proof_def tree_inv_def butlast_conv_take)
  moreover have "verify_inclusion sha (entries t ! unat sq) ?p (tree_root t) = Inr ()"
    using proof_steps_fold [OF len, of sha] assms(1)
    by (simp add: verify_inclusion_def tree_root_def tree_inv_def leaf leaf_of_def)
  ultimately show thesis using that by simp
qed

section \<open>The inputs of the hash function\<close>

text \<open>
  Soundness needs that SHA-256 has no collision among the byte strings that the log and the
  verifier feed to it. These are the byte strings.
\<close>

function mth_inputs :: "(bytes \<Rightarrow> hash) \<Rightarrow> hash list \<Rightarrow> bytes list" where
  "mth_inputs sha xs =
     (if length xs \<le> 1 then []
      else let k = largest_pow2_strictly_less_than (length xs)
           in (2 # mth sha (take k xs) @ mth sha (drop k xs))
                # mth_inputs sha (take k xs) @ mth_inputs sha (drop k xs))"
  by pat_completeness auto
termination
  by (relation "measure (\<lambda>(sha, xs). length xs)") (auto simp: not_le intro!: diff_less)

declare mth_inputs.simps [simp del]

definition leaf_input :: "(bytes \<Rightarrow> hash) \<Rightarrow> 'm merkle_entry \<Rightarrow> bytes" where
  "leaf_input sha e = 1 # entry_hash sha e"

definition log_inputs :: "(bytes \<Rightarrow> hash) \<Rightarrow> 'm merkle_entry list \<Rightarrow> bytes list" where
  "log_inputs sha es =
     map entry_bytes es @ map (leaf_input sha) es @ mth_inputs sha (map (leaf_of sha) es)"

fun step_input :: "hash \<Rightarrow> proof_step \<Rightarrow> bytes" where
  "step_input current st =
     (case side st of Left \<Rightarrow> 2 # sibling st @ current | Right \<Rightarrow> 2 # current @ sibling st)"

fun path_inputs :: "(bytes \<Rightarrow> hash) \<Rightarrow> hash \<Rightarrow> proof_step list \<Rightarrow> bytes list" where
  "path_inputs sha current [] = []"
| "path_inputs sha current (st # sts) =
     step_input current st # path_inputs sha (fold_step sha current st) sts"

definition verifier_inputs :: "(bytes \<Rightarrow> hash) \<Rightarrow> 'm merkle_entry \<Rightarrow> proof_step list \<Rightarrow> bytes list" where
  "verifier_inputs sha e sts =
     entry_bytes e # leaf_input sha e # path_inputs sha (leaf_of sha e) sts"

lemma fold_step_input: "fold_step sha current st = sha (step_input current st)"
  by (simp add: hash_internal_def split: side.split)

declare fold_step.simps [simp del] step_input.simps [simp del]

lemma path_inputs_snoc:
  "path_inputs sha c (sts @ [st]) = path_inputs sha c sts @ [step_input (foldl (fold_step sha) c sts) st]"
  by (induction sts arbitrary: c) auto

section \<open>Soundness of inclusion proofs\<close>

lemma mth_input_split:
  assumes "1 < length xs"
  obtains l r where "xs = l @ r" "l \<noteq> []" "r \<noteq> []" "mth sha xs = sha (2 # mth sha l @ mth sha r)"
    "set (mth_inputs sha xs) =
       insert (2 # mth sha l @ mth sha r) (set (mth_inputs sha l) \<union> set (mth_inputs sha r))"
proof -
  let ?k = "largest_pow2_strictly_less_than (length xs)"
  have "0 < ?k" "?k < length xs" using assms by simp_all
  then show thesis
    using assms that [of "take ?k xs" "drop ?k xs"]
    by (cases "xs = []") (simp_all add: mth.simps [of sha xs] mth_inputs.simps [of sha xs] Let_def hash_internal_def not_le)
qed

lemma length_mth:
  assumes "\<And>b. length (sha b) = d" "\<forall>x\<in>set xs. length x = d" "xs \<noteq> []"
  shows "length (mth sha xs) = d"
  using assms by (cases "length xs \<le> 1")
    (auto simp: mth.simps [of sha xs] hash_internal_def Let_def)

lemma inclusion_path_sound:
  assumes len: "\<And>b. length (sha b) = d" "\<forall>st\<in>set sts. length (sibling st) = d"
    and ne: "hs \<noteq> []"
    and eq: "foldl (fold_step sha) (sha (1 # h)) sts = mth sha (map (\<lambda>h. sha (1 # h)) hs)"
    and inj: "inj_on sha (set ((1 # h) # path_inputs sha (sha (1 # h)) sts
                @ map ((#) 1) hs @ mth_inputs sha (map (\<lambda>h. sha (1 # h)) hs)))"
  shows "h \<in> set hs"
  using assms
proof (induction sts arbitrary: hs rule: rev_induct)
  case Nil
  let ?xs = "map (\<lambda>h. sha (1 # h)) hs"
  show ?case
  proof (cases "1 < length ?xs")
    case False
    then obtain g where "hs = [g]" using Nil(3) by (cases hs) auto
    with Nil(4,5) show ?thesis by (auto dest!: inj_onD)
  next
    case True
    then obtain l r where "mth sha ?xs = sha (2 # mth sha l @ mth sha r)"
        "2 # mth sha l @ mth sha r \<in> set (mth_inputs sha ?xs)"
      by (elim mth_input_split [of ?xs sha]) auto
    with Nil(4,5) have "1 # h = 2 # mth sha l @ mth sha r" by (auto dest!: inj_onD)
    then show ?thesis by simp
  qed
next
  case (snoc st sts)
  let ?L = "\<lambda>h. sha (1 # h)" and ?c = "foldl (fold_step sha) (sha (1 # h)) sts"
  let ?xs = "map ?L hs"
  have c: "sha (step_input ?c st) = mth sha ?xs" using snoc.prems(4) by (simp add: fold_step_input [of sha _ st])
  have len_c: "length ?c = d" using snoc.prems(1) by (cases sts rule: rev_cases) (auto simp: fold_step_input)
  show ?case
  proof (cases "1 < length ?xs")
    case False
    then obtain g where "hs = [g]" using snoc.prems(3) by (cases hs) auto
    with c snoc.prems(5) have "step_input ?c st = 1 # g"
      by (auto simp: path_inputs_snoc dest!: inj_onD)
    then show ?thesis by (auto simp: step_input.simps split: side.splits)
  next
    case True
    then obtain l r where lr: "?xs = l @ r" "l \<noteq> []" "r \<noteq> []"
        "mth sha ?xs = sha (2 # mth sha l @ mth sha r)"
        "set (mth_inputs sha ?xs) =
           insert (2 # mth sha l @ mth sha r) (set (mth_inputs sha l) \<union> set (mth_inputs sha r))"
      by (rule mth_input_split [of ?xs sha])
    obtain hl hr where h: "hs = hl @ hr" "l = map ?L hl" "r = map ?L hr"
      using lr(1) by (auto simp: map_eq_append_conv)
    have "step_input ?c st = 2 # mth sha l @ mth sha r"
      using c lr(4,5) snoc.prems(5) by (auto simp: path_inputs_snoc dest!: inj_onD)
    moreover have "length (mth sha l) = d"
      by (rule length_mth) (use snoc.prems(1) h lr(2) in auto)
    ultimately have "?c = mth sha l \<or> ?c = mth sha r"
      using snoc.prems(2) len_c by (auto simp: step_input.simps split: side.splits)
    then show ?thesis
    proof
      assume "?c = mth sha l"
      then have "h \<in> set hl" using snoc.prems lr h
        by (intro snoc.IH) (auto simp: path_inputs_snoc elim!: inj_on_subset)
      then show ?thesis using h by simp
    next
      assume "?c = mth sha r"
      then have "h \<in> set hr" using snoc.prems lr h
        by (intro snoc.IH) (auto simp: path_inputs_snoc elim!: inj_on_subset)
      then show ?thesis using h by simp
    qed
  qed
qed

lemma verify_inclusion_sound:
  assumes len: "\<And>b. length (sha b) = d" "\<forall>st\<in>set (steps pf). length (sibling st) = d"
    and inv: "tree_inv sha t" and ne: "entries t \<noteq> []"
    and ver: "verify_inclusion sha e pf (tree_root t) = Inr ()"
    and inj: "inj_on sha (set (verifier_inputs sha e (steps pf) @ log_inputs sha (entries t)))"
  shows "\<exists>e'\<in>set (entries t). entry_bytes e' = entry_bytes e"
proof -
  let ?hs = "map (entry_hash sha) (entries t)"
  have leaves: "map (leaf_of sha) (entries t) = map (\<lambda>h. sha (1 # h)) ?hs"
    by (simp add: leaf_of_def hash_leaf_def)
  have "foldl (fold_step sha) (sha (1 # entry_hash sha e)) (steps pf) = mth sha (map (\<lambda>h. sha (1 # h)) ?hs)"
    using ver inv
    by (simp add: verify_inclusion_def tree_root_def tree_inv_def leaves hash_leaf_def split: if_splits)
  then have "entry_hash sha e \<in> set ?hs"
    by (rule inclusion_path_sound [rotated 3])
      (use len ne inj in \<open>auto simp: verifier_inputs_def log_inputs_def leaf_input_def leaves leaf_of_def hash_leaf_def
        elim!: inj_on_subset\<close>)
  then show ?thesis
    using inj by (auto simp: entry_hash_def verifier_inputs_def log_inputs_def leaf_input_def dest!: inj_onD)
qed

section \<open>Subtree roots\<close>

definition fold_frontier :: "(bytes \<Rightarrow> hash) \<Rightarrow> (nat \<times> hash) list \<Rightarrow> hash" where
  "fold_frontier sha fr = fold (\<lambda>(_, h) acc. hash_internal sha h acc) (tl (rev fr)) (snd (last fr))"

lemma fold_frontier_simps:
  "fold_frontier sha [(k, h)] = h"
  "fr \<noteq> [] \<Longrightarrow> fold_frontier sha ((k, h) # fr) = hash_internal sha h (fold_frontier sha fr)"
  by (simp_all add: fold_frontier_def)

lemma slice_split:
  "take (k + r) (drop off xs) = take k (drop off xs) @ take r (drop (off + k) xs)"
  by (simp add: take_add add.commute)

lemma frontier_loop_mth:
  assumes "tree_inv sha t" "k = 2 ^ i" "k dvd offset" "0 < remaining" "remaining < 2 * k"
    "offset + remaining \<le> length (leaf_hashes t)"
  shows "\<exists>fr. frontier_loop sha t offset remaining k = Some fr \<and> fr \<noteq> [] \<and>
     fold_frontier sha fr = mth sha (take remaining (drop offset (leaf_hashes t)))"
  using assms
proof (induction i arbitrary: k offset remaining)
  case 0
  then have [simp]: "remaining = Suc 0" "k = Suc 0" by auto
  show ?case
    using 0 perfect_subtree_root_mth [OF 0(1), of 1 0 offset]
    by (simp add: frontier_loop.simps fold_frontier_simps)
next
  case (Suc i)
  let ?xs = "leaf_hashes t"
  have half: "k div 2 = 2 ^ i" "k div 2 dvd offset" "k div 2 dvd k" "k \<noteq> 0"
    using Suc(3,4) by (auto elim: dvd_mult_right)
  show ?case
  proof (cases "k \<le> remaining")
    case False
    then have "frontier_loop sha t offset remaining k = frontier_loop sha t offset remaining (k div 2)"
      using Suc(5) half by (subst frontier_loop.simps) simp
    with Suc.IH [OF Suc(2) half(1,2)] Suc(3-) False show ?thesis by simp
  next
    case True
    define r where "r = remaining - k"
    have rem: "remaining = k + r" "r < k" using True Suc(6) by (auto simp: r_def)
    have node: "perfect_subtree_root sha t offset k = Some (mth sha (take k (drop offset ?xs)))"
      using Suc(2,3,4,7) rem by (intro perfect_subtree_root_mth [where j = "Suc i"]) auto
    have step: "frontier_loop sha t offset remaining k =
        map_option ((#) (k, mth sha (take k (drop offset ?xs))))
          (frontier_loop sha t (offset + k) r (k div 2))"
      using node rem half(4) by (subst frontier_loop.simps) simp
    show ?thesis
    proof (cases "r = 0")
      case True
      then show ?thesis using step rem by (simp add: frontier_loop.simps [of sha t _ 0] fold_frontier_simps)
    next
      case False
      have "k div 2 dvd offset + k" using half(2,3) by (rule dvd_add)
      moreover have "r < 2 * (k div 2)" using half(1) rem(2) Suc(3) by simp
      ultimately obtain fr where fr: "frontier_loop sha t (offset + k) r (k div 2) = Some fr" "fr \<noteq> []"
          "fold_frontier sha fr = mth sha (take r (drop (offset + k) ?xs))"
        using Suc.IH [OF Suc(2) half(1), of "offset + k" r] False Suc(7) rem(1) by auto
      have "take k (take remaining (drop offset ?xs)) = take k (drop offset ?xs)"
        "drop k (take remaining (drop offset ?xs)) = take r (drop (offset + k) ?xs)"
        using rem(1) by (simp_all add: drop_take add.commute)
      moreover have "k < length (take remaining (drop offset ?xs))"
        "length (take remaining (drop offset ?xs)) \<le> 2 * k"
        using rem False Suc(7) by simp_all
      ultimately have "mth sha (take remaining (drop offset ?xs)) =
          hash_internal sha (mth sha (take k (drop offset ?xs))) (mth sha (take r (drop (offset + k) ?xs)))"
        using mth_split [of "Suc i" "take remaining (drop offset ?xs)" sha, folded Suc(3)] by simp
      with step fr show ?thesis by (auto simp: fold_frontier_simps)
    qed
  qed
qed

definition aligned :: "nat \<Rightarrow> nat \<Rightarrow> bool" where
  "aligned start sz \<longleftrightarrow> (\<exists>j. 2 ^ j dvd start \<and> sz \<le> 2 ^ j)"

lemma aligned_0: "aligned 0 sz"
  by (auto simp: aligned_def intro!: exI [of _ sz] less_imp_le [OF less_exp])

lemma aligned_dvd:
  assumes "aligned start sz" "2 ^ i \<le> sz"
  shows "2 ^ i dvd start"
proof -
  obtain j where j: "2 ^ j dvd start" "sz \<le> 2 ^ j" using assms(1) by (auto simp: aligned_def)
  then have "(2::nat) ^ i \<le> 2 ^ j" using assms(2) by linarith
  then have "i \<le> j" by (simp only: power_increasing_iff [of 2])
  then have "(2::nat) ^ i dvd 2 ^ j" by (rule le_imp_power_dvd)
  with j show ?thesis by (rule_tac dvd_trans)
qed

lemma subtree_root_mth:
  assumes "tree_inv sha t" "aligned start sz" "start + sz \<le> length (leaf_hashes t)"
  shows "subtree_root sha t start sz = Some (mth sha (take sz (drop start (leaf_hashes t))))"
proof (cases "sz = 0")
  case False
  obtain i where i: "largest_pow2_at_most sz = 2 ^ i" "2 ^ i \<le> sz" "sz < 2 * 2 ^ i"
    using pow2_loop_char [of 1 0 "Suc sz"] False by (auto simp: largest_pow2_at_most_def)
  have "\<exists>fr. frontier_loop sha t start sz (2 ^ i) = Some fr \<and> fr \<noteq> [] \<and>
     fold_frontier sha fr = mth sha (take sz (drop start (leaf_hashes t)))"
    by (rule frontier_loop_mth [OF assms(1) refl]) (use assms i False in \<open>auto intro: aligned_dvd\<close>)
  with i False show ?thesis by (auto simp: subtree_root_def fold_frontier_def)
qed (simp add: subtree_root_def)

lemma root_at_size_mth:
  assumes "tree_inv sha t" "sz \<le> tree_len t"
  shows "root_at_size sha t sz = Some (mth sha (map (leaf_of sha) (take sz (entries t))))"
  using assms subtree_root_mth [OF assms(1) aligned_0, of sz]
  by (auto simp: root_at_size_def tree_inv_def tree_len_def take_map)

section \<open>Consistency proofs\<close>

text \<open>The path of the old prefix of \<open>m\<close> leaves in the tree over the leaves \<open>xs\<close>, as a
  recursion over the leaves.\<close>

function consistency_path :: "(bytes \<Rightarrow> hash) \<Rightarrow> hash list \<Rightarrow> nat \<Rightarrow> hash list" where
  "consistency_path sha xs m =
     (if length xs \<le> 1 \<or> m = length xs then []
      else let k = largest_pow2_strictly_less_than (length xs)
           in if m \<le> k then consistency_path sha (take k xs) m @ [mth sha (drop k xs)]
              else mth sha (take k xs) # consistency_path sha (drop k xs) (m - k))"
  by pat_completeness auto
termination
  by (relation "measure (\<lambda>(sha, xs, m). length xs)") (auto simp: not_le intro!: diff_less)

declare consistency_path.simps [simp del]

lemma aligned_split:
  assumes "aligned start sz" "1 < sz" "k = largest_pow2_strictly_less_than sz"
  shows "aligned start k" "aligned (start + k) (sz - k)"
proof -
  obtain j where j: "k = 2 ^ j" "2 ^ j < sz" "sz \<le> 2 * 2 ^ j"
    using largest_pow2_char [OF assms(2)] assms(3) by metis
  have "2 ^ j dvd start" using aligned_dvd [OF assms(1), of j] j by simp
  with j show "aligned start k" "aligned (start + k) (sz - k)"
    by (auto simp: aligned_def intro!: exI [of _ j])
qed

lemma consistency_rec_path:
  assumes "tree_inv sha t" "aligned start n" "0 < m" "m \<le> n" "start + n \<le> length (leaf_hashes t)"
  shows "consistency_rec sha t start m n =
     Some (consistency_path sha (take n (drop start (leaf_hashes t))) m)"
  using assms
proof (induction n arbitrary: start m rule: less_induct)
  case (less n)
  let ?xs = "leaf_hashes t"
  show ?case
  proof (cases "m = n")
    case True
    then show ?thesis using less.prems
      by (simp add: consistency_rec.simps [of sha t] consistency_path.simps [of sha])
  next
    case False
    define k where "k = largest_pow2_strictly_less_than n"
    have n: "1 < n" using less.prems False by simp
    then have k: "0 < k" "k < n" by (simp_all add: k_def)
    have al: "aligned start k" "aligned (start + k) (n - k)"
      using aligned_split [OF less.prems(2) n k_def] .
    have roots: "subtree_root sha t start k = Some (mth sha (take k (drop start ?xs)))"
      "subtree_root sha t (start + k) (n - k) = Some (mth sha (take (n - k) (drop (start + k) ?xs)))"
      using less.prems k al by (auto intro!: subtree_root_mth)
    have len: "length (take n (drop start ?xs)) = n" using less.prems(5) by simp
    have sl: "take k (take n (drop start ?xs)) = take k (drop start ?xs)"
      "drop k (take n (drop start ?xs)) = take (n - k) (drop (start + k) ?xs)"
      using k by (simp_all add: drop_take add.commute)
    note unfold = consistency_rec.simps [of sha t start m n]
      consistency_path.simps [of sha "take n (drop start ?xs)" m, unfolded len sl]
    show ?thesis
    proof (cases "m \<le> k")
      case True
      then have "consistency_rec sha t start m k = Some (consistency_path sha (take k (drop start ?xs)) m)"
        using less.prems k al by (intro less.IH) simp_all
      with True False n k roots show ?thesis
        unfolding unfold by (simp add: k_def [symmetric] sl min_absorb1)
    next
      case gt: False
      then have "consistency_rec sha t (start + k) (m - k) (n - k) =
         Some (consistency_path sha (take (n - k) (drop (start + k) ?xs)) (m - k))"
        using less.prems k al by (intro less.IH) simp_all
      with gt False n k roots show ?thesis
        unfolding unfold by (simp add: k_def [symmetric] sl min_absorb1)
    qed
  qed
qed

lemma consistency_proof_path:
  assumes "tree_inv sha t" "0 < m" "m \<le> tree_len t"
  shows "consistency_proof sha t m = Some (Inr (consistency_path sha (leaf_hashes t) m))"
proof -
  have "length (leaf_hashes t) = tree_len t" using assms(1) by (simp add: tree_inv_def tree_len_def)
  with assms consistency_rec_path [OF assms(1) aligned_0, of m "tree_len t"] show ?thesis
    by (auto simp: consistency_proof_def Let_def consistency_path.simps [of sha _ m])
qed

text \<open>For an old size that is a power of two the path rebuilds the new root from the old one.\<close>

lemma consistency_path_power:
  assumes "2 ^ i \<le> length xs"
  shows "foldl (hash_internal sha) (mth sha (take (2 ^ i) xs)) (consistency_path sha xs (2 ^ i)) = mth sha xs"
  using assms
proof (induction "length xs" arbitrary: xs rule: less_induct)
  case less
  show ?case
  proof (cases "length xs = 2 ^ i")
    case True
    then show ?thesis by (simp add: consistency_path.simps [of sha])
  next
    case False
    moreover have "(1::nat) \<le> 2 ^ i" by simp
    ultimately have n: "1 < length xs" using less(2) by linarith
    then obtain j where j: "largest_pow2_strictly_less_than (length xs) = 2 ^ j"
        "2 ^ j < length xs" "length xs \<le> 2 * 2 ^ j"
      by (rule largest_pow2_char)
    have "(2::nat) ^ i < 2 ^ Suc j" using j False less(2) by simp
    then have "i < Suc j" by (simp only: power_strict_increasing_iff [of 2])
    then have ij: "(2::nat) ^ i \<le> 2 ^ j" by simp
    have "foldl (hash_internal sha) (mth sha (take (2 ^ i) xs)) (consistency_path sha (take (2 ^ j) xs) (2 ^ i))
        = mth sha (take (2 ^ j) xs)"
      using less(1) [of "take (2 ^ j) xs"] j ij by (simp add: min_def)
    with False n j ij show ?thesis
      by (simp add: consistency_path.simps [of sha xs] Let_def mth_split)
  qed
qed

section \<open>Verification of consistency\<close>

lemma verify_consistency_iff:
  assumes "tree_inv sha t" "0 < m"
  shows "verify_consistency sha t old_root new_root m n path = Some (Inr ()) \<longleftrightarrow>
     n = tree_len t \<and> m \<le> n \<and> new_root = tree_root t \<and>
     old_root = mth sha (map (leaf_of sha) (take m (entries t)))"
proof -
  have "length (leaf_hashes t) = tree_len t" using assms(1) by (simp add: tree_inv_def tree_len_def)
  with assms root_at_size_mth [OF assms(1), of m] show ?thesis
    by (auto simp: verify_consistency_def Let_def)
qed

lemma mth_inject:
  assumes "\<And>b. length (sha b) = d" "length xs = length ys" "mth sha xs = mth sha ys"
    and "\<forall>x\<in>set xs \<union> set ys. length x = d"
    and "inj_on sha (set (mth_inputs sha xs @ mth_inputs sha ys))"
  shows "xs = ys"
  using assms
proof (induction "length xs" arbitrary: xs ys rule: less_induct)
  case less
  show ?case
  proof (cases "1 < length xs")
    case False
    then show ?thesis using less(3,4) by (cases xs; cases ys) auto
  next
    case True
    let ?k = "largest_pow2_strictly_less_than (length xs)"
    have k: "0 < ?k" "?k < length xs" using True by simp_all
    have m: "mth sha zs = sha (2 # mth sha (take ?k zs) @ mth sha (drop ?k zs))"
      "set (mth_inputs sha zs) = insert (2 # mth sha (take ?k zs) @ mth sha (drop ?k zs))
         (set (mth_inputs sha (take ?k zs)) \<union> set (mth_inputs sha (drop ?k zs)))"
      if "length zs = length xs" for zs
      using that True
      by (simp_all add: mth.simps [of sha zs] mth_inputs.simps [of sha zs] Let_def hash_internal_def)
    have l32: "length (mth sha (take ?k zs)) = d" if "zs = xs \<or> zs = ys" for zs
      by (rule length_mth) (use less(2,3,5) k that in \<open>auto dest: in_set_takeD\<close>)
    have "2 # mth sha (take ?k xs) @ mth sha (drop ?k xs) = 2 # mth sha (take ?k ys) @ mth sha (drop ?k ys)"
      using less(6)
    proof (rule inj_onD)
      show "sha (2 # mth sha (take ?k xs) @ mth sha (drop ?k xs)) =
          sha (2 # mth sha (take ?k ys) @ mth sha (drop ?k ys))"
        using less(4) m(1) [of xs] m(1) [of ys] less(3) by metis
    qed (use m(2) [of xs] m(2) [of ys] less(3) in simp_all)
    then have e: "mth sha (take ?k xs) = mth sha (take ?k ys)" "mth sha (drop ?k xs) = mth sha (drop ?k ys)"
      using l32 [of xs] l32 [of ys] by simp_all
    have sub: "inj_on sha (set (mth_inputs sha (take ?k xs) @ mth_inputs sha (take ?k ys)))"
      "inj_on sha (set (mth_inputs sha (drop ?k xs) @ mth_inputs sha (drop ?k ys)))"
      using less(6) by (rule inj_on_subset; use m(2) [of xs] m(2) [of ys] less(3) in auto)+
    have "take ?k xs = take ?k ys"
      by (rule less(1) [OF _ less(2) _ e(1) _ sub(1)])
        (use k less(3,5) in \<open>auto dest: in_set_takeD\<close>)
    moreover have "drop ?k xs = drop ?k ys"
      by (rule less(1) [OF _ less(2) _ e(2) _ sub(2)])
        (use k less(3,5) in \<open>auto dest: in_set_dropD\<close>)
    ultimately show ?thesis by (metis append_take_drop_id)
  qed
qed

lemma entries_pinned:
  assumes "\<And>b. length (sha b) = d" "length es = length fs"
    and root: "mth sha (map (leaf_of sha) es) = mth sha (map (leaf_of sha) fs)"
    and inj: "inj_on sha (set (log_inputs sha es @ log_inputs sha fs))"
  shows "map entry_bytes es = map entry_bytes fs"
proof -
  have "map (leaf_of sha) es = map (leaf_of sha) fs"
    by (rule mth_inject [where sha = sha])
      (use assms in \<open>auto simp: log_inputs_def leaf_input_def leaf_of_def hash_leaf_def elim!: inj_on_subset\<close>)
  then have leaf: "leaf_of sha (es ! i) = leaf_of sha (fs ! i)" if "i < length es" for i
    using that assms(2) by (metis nth_map)
  have h: "1 # entry_hash sha (es ! i) = 1 # entry_hash sha (fs ! i)" if "i < length es" for i
    using inj by (rule inj_onD) (use leaf [OF that] that assms(2) in \<open>auto simp: leaf_of_def hash_leaf_def log_inputs_def leaf_input_def\<close>)
  have "entry_bytes (es ! i) = entry_bytes (fs ! i)" if "i < length es" for i
    using inj by (rule inj_onD) (use that assms(2) h [OF that] in \<open>auto simp: entry_hash_def log_inputs_def leaf_input_def\<close>)
  then show ?thesis using assms(2) by (auto intro!: nth_equalityI)
qed
end
