(* ===== verification/Log_Properties.thy ===== *)
theory Log_Properties
  imports Merkle_Proofs
begin

text \<open>
  The properties of the transparency log: the incremental tree against the rebuilt one,
  inclusion proofs, consistency proofs, and the append-only log. The witnesses run a three-entry
  log with a small hash function in place of SHA-256. The digest length is the parameter \<open>d\<close>;
  it is 32 for SHA-256.
\<close>

section \<open>A small log for the witnesses\<close>

definition toy_sha :: "bytes \<Rightarrow> hash" where
  "toy_sha b = [hd b, last b]"

definition toy_entry :: "u64 \<Rightarrow> u8 \<Rightarrow> unit merkle_entry" where
  "toy_entry sq a =
     \<lparr>sequence = sq, timestamp = 0, artifact_type = QuorumPolicy, artifact_hash = [a], metadata = ()\<rparr>"

definition toy_entries :: "unit merkle_entry list" where
  "toy_entries = [toy_entry 7 11, toy_entry 8 12, toy_entry 9 13]"

definition toy_log :: "unit merkle_tree" where
  "toy_log = append_all toy_sha toy_entries tree_new"

definition toy_proof :: inclusion_proof where
  "toy_proof = \<lparr>proof_sequence = 2, steps = [\<lparr>sibling = [2, 12], side = Left\<rparr>]\<rparr>"

lemma length_toy_sha: "length (toy_sha b) = 2"
  by (simp add: toy_sha_def)

section \<open>The incremental tree\<close>

text \<open>C1: Appending entries one by one to the empty tree, with the \<open>O(log n)\<close> update of
  \<open>append_level\<close>, leaves exactly the levels and the root that \<open>rebuild_levels\<close> computes from
  the leaves.\<close>

theorem append_matches_rebuild:
  "rebuild_levels sha (append_all sha es tree_new) = append_all sha es tree_new"
  by (rule rebuild_levels_id [OF tree_inv_log])


text \<open>Appending more entries never changes an entry that can be looked up, and the tree
  before is recovered as the root at its old size.\<close>

theorem log_append_only:
  assumes "tree_entry (log_of sha es) sq = Inr e"
  shows "tree_entry (append_all sha fs (log_of sha es)) sq = Inr e \<and>
         root_at_size sha (append_all sha fs (log_of sha es)) (tree_len (log_of sha es)) = Some (tree_root (log_of sha es))"
proof -
  let ?u = "append_all sha fs (log_of sha es)"
  have inv: "tree_inv sha (log_of sha es)" "tree_inv sha ?u"
    by (simp_all add: tree_inv_log flip: append_all_append)
  have pre: "prefix (entries (log_of sha es)) (entries ?u)"
    using log_tree.run_log [OF inv(1), of fs] by (simp add: append_all_fold)
  then have "take (tree_len (log_of sha es)) (entries ?u) = entries (log_of sha es)" "tree_len (log_of sha es) \<le> tree_len ?u"
    by (auto simp: prefix_def tree_len_def)
  with root_at_size_mth [OF inv(2), of "tree_len (log_of sha es)"] inv(1)
  have "root_at_size sha ?u (tree_len (log_of sha es)) = Some (tree_root (log_of sha es))"
    by (simp add: tree_inv_def tree_root_def)
  moreover have "tree_entry ?u sq = Inr e"
    using assms(1) pre by (auto simp: tree_entry_def prefix_def nth_append split: if_splits)
  ultimately show ?thesis by simp
qed

theorem log_append_only_witness:
  "tree_entry (append_all toy_sha [toy_entry 20 21] toy_log) 1 = Inr (toy_entry 8 12) \<and>
   root_at_size toy_sha (append_all toy_sha [toy_entry 20 21] toy_log) (tree_len toy_log)
     = Some (tree_root toy_log)"
proof -
  have "tree_entry (append_all toy_sha toy_entries tree_new) 1 = Inr (toy_entry 8 12)" by code_simp
  from log_append_only [OF this, of "[toy_entry 20 21]"] show ?thesis by (simp add: toy_log_def)
qed

section \<open>Inclusion proofs\<close>

text \<open>C15: Completeness. For every position in a log, \<open>inclusion_proof\<close> succeeds and
  \<open>verify_inclusion\<close> accepts its proof for the entry at that position and the root of the log;
  for every other sequence number it reports \<open>OutOfRange\<close>.\<close>

theorem inclusion_complete:
  "if unat sq < length es
         then \<exists>pf. tree_inclusion_proof (log_of sha es) sq = Inr pf \<and>
                   verify_inclusion sha (entries (log_of sha es) ! unat sq) pf (tree_root (log_of sha es)) = Inr ()
         else tree_inclusion_proof (log_of sha es) sq = Inl (OutOfRange sq (length es))"
proof -
  have inv: "tree_inv sha (log_of sha es)" by (rule tree_inv_log)
  have "length (entries (append_all sha es u)) = length es + length (entries u)" for u
    by (induction es arbitrary: u) (simp_all add: tree_append_entries)
  then have len: "length es = tree_len (log_of sha es)" by (simp add: tree_len_def tree_new_def)
  show ?thesis
  proof (cases "unat sq < tree_len (log_of sha es)")
    case True
    from inclusion_proof_ok [OF inv True] show ?thesis using True len by metis
  next
    case False
    then show ?thesis using inv len by (simp add: tree_inclusion_proof_def tree_inv_def tree_len_def)
  qed
qed

text \<open>C14: Soundness. If an inclusion proof verifies against the root of a non-empty log, then
  the log has an entry with the same sequence number, the same timestamp in microseconds and the
  same artifact hash, unless the hash function collides on the byte strings that the log and the
  verifier hash. The proof may have any length; its siblings are digests.\<close>

theorem inclusion_sound:
  assumes "\<And>b. length (sha b) = d" and "\<forall>st\<in>set (steps pf). length (sibling st) = d"
    and "entries (log_of sha es) \<noteq> []"
    and "verify_inclusion sha e pf (tree_root (log_of sha es)) = Inr ()"
    and "inj_on sha (set (verifier_inputs sha e (steps pf) @ log_inputs sha (entries (log_of sha es))))"
    and "\<forall>e'\<in>insert e (set (entries (log_of sha es))). i64_range (timestamp_micros (timestamp e'))"
  shows "\<exists>e'\<in>set (entries (log_of sha es)). sequence e' = sequence e \<and>
           timestamp_micros (timestamp e') = timestamp_micros (timestamp e) \<and>
           artifact_hash e' = artifact_hash e"
proof -
  have "tree_inv sha (log_of sha es)" by (rule tree_inv_log)
  from verify_inclusion_sound [OF assms(1,2) this assms(3-5)]
  obtain e' where "e' \<in> set (entries (log_of sha es))" "entry_bytes e' = entry_bytes e" by blast
  with entry_bytes_inject [of e' e] assms(6) show ?thesis by blast
qed

theorem inclusion_sound_witness:
  "\<exists>e'\<in>set (entries toy_log). sequence e' = 9 \<and> timestamp_micros (timestamp e') = 0 \<and>
     artifact_hash e' = [13]"
proof -
  have "\<exists>e'\<in>set (entries (append_all toy_sha toy_entries tree_new)).
      sequence e' = sequence (toy_entry 9 13) \<and>
      timestamp_micros (timestamp e') = timestamp_micros (timestamp (toy_entry 9 13)) \<and>
      artifact_hash e' = artifact_hash (toy_entry 9 13)"
  proof (rule inclusion_sound [of toy_sha 2 toy_proof])
    show "inj_on toy_sha (set (verifier_inputs toy_sha (toy_entry 9 13) (steps toy_proof)
        @ log_inputs toy_sha (entries (append_all toy_sha toy_entries tree_new))))"
      by (rule inj_on_setI) code_simp
    show "\<forall>e'\<in>insert (toy_entry 9 13) (set (entries (append_all toy_sha toy_entries tree_new))).
        i64_range (timestamp_micros (timestamp e'))" by code_simp
    show "verify_inclusion toy_sha (toy_entry 9 13) toy_proof
        (tree_root (append_all toy_sha toy_entries tree_new)) = Inr ()" by code_simp
    show "entries (append_all toy_sha toy_entries tree_new) \<noteq> []" by code_simp
  qed (simp_all add: length_toy_sha toy_proof_def)
  then show ?thesis by (simp add: toy_log_def toy_entry_def timestamp_micros_def)
qed

section \<open>Consistency\<close>

text \<open>C16: \<open>verify_consistency\<close> always returns, and for a positive old size it accepts exactly
  when the sizes fit the tree, the new root is the root of the tree and the old root is the Merkle
  tree hash of the first \<open>m\<close> entries.\<close>

theorem verify_consistency_correct:
  assumes "0 < m"
  shows "\<exists>r. verify_consistency sha (log_of sha es) old_root new_root m n path = Some r \<and>
     (r = Inr () \<longleftrightarrow> n = tree_len (log_of sha es) \<and> m \<le> n \<and> new_root = tree_root (log_of sha es) \<and>
        old_root = mth sha (map (leaf_of sha) (take m (entries (log_of sha es)))))"
proof -
  have inv: "tree_inv sha (log_of sha es)" by (rule tree_inv_log)
  then have "length (leaf_hashes (log_of sha es)) = tree_len (log_of sha es)" by (simp add: tree_inv_def tree_len_def)
  then have "\<exists>r. verify_consistency sha (log_of sha es) old_root new_root m n path = Some r"
    using root_at_size_mth [OF inv, of m] by (simp add: verify_consistency_def Let_def)
  with verify_consistency_iff [OF inv assms(1), of old_root new_root n path] show ?thesis by auto
qed

theorem verify_consistency_correct_witness:
  "\<exists>r. verify_consistency toy_sha toy_log [2, 12] [2, 13] 2 3 [] = Some r \<and>
     (r = Inr () \<longleftrightarrow> 3 = tree_len toy_log \<and> (2::nat) \<le> 3 \<and> [2, 13] = tree_root toy_log \<and>
        [2, 12] = mth toy_sha (map (leaf_of toy_sha) (take 2 (entries toy_log))))"
  using verify_consistency_correct [of 2 toy_sha toy_entries "[2, 12]" "[2, 13]" 3 "[]"]
  by (simp add: toy_log_def)

text \<open>C17: Tamper evidence. If \<open>verify_consistency\<close> accepts the root of an old log \<open>es\<close>
  against the log \<open>fs\<close>, then the first entries of the new log have the hashed bytes of the old
  entries, in the same order, unless the hash function collides on what the two logs hash.\<close>

theorem consistency_pins_entries:
  assumes "\<And>b. length (sha b) = d" and "entries (log_of sha es) \<noteq> []"
    and "verify_consistency sha (log_of sha fs) (tree_root (log_of sha es)) new_root (tree_len (log_of sha es)) n path = Some (Inr ())"
    and "inj_on sha (set (log_inputs sha (entries (log_of sha es))
                        @ log_inputs sha (take (tree_len (log_of sha es)) (entries (log_of sha fs)))))"
  shows "map entry_bytes (take (tree_len (log_of sha es)) (entries (log_of sha fs))) = map entry_bytes (entries (log_of sha es))"
proof -
  have inv: "tree_inv sha (log_of sha es)" "tree_inv sha (log_of sha fs)" by (rule tree_inv_log)+
  have "0 < tree_len (log_of sha es)" using assms(2) by (simp add: tree_len_def)
  from verify_consistency_iff [OF inv(2) this, of "tree_root (log_of sha es)" new_root n path] assms(3)
  have "tree_len (log_of sha es) \<le> tree_len (log_of sha fs)"
    "tree_root (log_of sha es) = mth sha (map (leaf_of sha) (take (tree_len (log_of sha es)) (entries (log_of sha fs))))" by auto
  with inv(1) have "map entry_bytes (entries (log_of sha es)) = map entry_bytes (take (tree_len (log_of sha es)) (entries (log_of sha fs)))"
    by (intro entries_pinned [OF assms(1) _ _ assms(4)]) (simp_all add: tree_len_def tree_inv_def tree_root_def)
  then show ?thesis by simp
qed

theorem consistency_pins_entries_witness:
  "map entry_bytes (take 2 (entries toy_log)) = map entry_bytes [toy_entry 7 11, toy_entry 8 12]"
proof -
  let ?old = "append_all toy_sha [toy_entry 7 11, toy_entry 8 12] tree_new"
  let ?new = "append_all toy_sha toy_entries tree_new"
  have "map entry_bytes (take (tree_len ?old) (entries ?new)) = map entry_bytes (entries ?old)"
  proof (rule consistency_pins_entries [of toy_sha 2])
    show "inj_on toy_sha (set (log_inputs toy_sha (entries ?old)
        @ log_inputs toy_sha (take (tree_len ?old) (entries ?new))))"
      by (rule inj_on_setI) code_simp
    show "verify_consistency toy_sha ?new (tree_root ?old) [2, 13] (tree_len ?old) 3 [] = Some (Inr ())"
      by code_simp
    show "entries ?old \<noteq> []" by code_simp
  qed (simp add: length_toy_sha)
  moreover have "tree_len ?old = 2" "entries ?old = [toy_entry 7 11, toy_entry 8 12]" by code_simp+
  ultimately show ?thesis by (simp add: toy_log_def)
qed

text \<open>For an old size that is a power of two, \<open>consistency_proof\<close> returns a path that
  rebuilds the new root: hashing the old root with the path from left to right.\<close>

theorem consistency_proof_power:
  assumes "2 ^ i \<le> tree_len (log_of sha es)"
  shows "\<exists>path old_root. consistency_proof sha (log_of sha es) (2 ^ i) = Some (Inr path) \<and>
     root_at_size sha (log_of sha es) (2 ^ i) = Some old_root \<and>
     foldl (hash_internal sha) old_root path = tree_root (log_of sha es)"
proof -
  have inv: "tree_inv sha (log_of sha es)" by (rule tree_inv_log)
  then have "leaf_hashes (log_of sha es) = map (leaf_of sha) (entries (log_of sha es))" "tree_root (log_of sha es) = mth sha (leaf_hashes (log_of sha es))"
    by (simp_all add: tree_inv_def tree_root_def)
  with consistency_path_power [of i "leaf_hashes (log_of sha es)" sha] assms(1)
    consistency_proof_path [OF inv _ assms(1)] root_at_size_mth [OF inv assms(1)]
  show ?thesis by (simp add: take_map tree_len_def)
qed

theorem consistency_proof_power_witness:
  "\<exists>path old_root. consistency_proof toy_sha toy_log (2 ^ 1) = Some (Inr path) \<and>
     root_at_size toy_sha toy_log (2 ^ 1) = Some old_root \<and>
     foldl (hash_internal toy_sha) old_root path = tree_root toy_log"
proof -
  have "2 ^ 1 \<le> tree_len (append_all toy_sha toy_entries tree_new)" by code_simp
  from consistency_proof_power [OF this] show ?thesis by (simp add: toy_log_def)
qed

text \<open>The path from three entries to four consists of the hash of the first two leaves and
  the fourth leaf. It does not depend on the third leaf, so no verifier can rebuild the old root
  from the path alone, as the documentation of \<open>consistency_proof\<close> says it does.\<close>

theorem consistency_path_3_4:
  assumes "map (leaf_of sha) (entries (log_of sha es)) = [a, b, c, e]"
  shows "consistency_proof sha (log_of sha es) 3 = Some (Inr [hash_internal sha a b, e])"
proof -
  have inv: "tree_inv sha (log_of sha es)" by (rule tree_inv_log)
  have l4: "leaf_hashes (log_of sha es) = [a, b, c, e]" using inv assms(1) by (simp add: tree_inv_def)
  then have "tree_len (log_of sha es) = 4" using inv by (auto simp: tree_inv_def tree_len_def dest: arg_cong [of _ _ length])
  then have "consistency_proof sha (log_of sha es) 3 = Some (Inr (consistency_path sha [a, b, c, e] 3))"
    using consistency_proof_path [OF inv, of 3] l4 by simp
  moreover have "largest_pow2_strictly_less_than (Suc (Suc (Suc (Suc 0)))) = 2"
    "largest_pow2_strictly_less_than (Suc (Suc 0)) = 1"
    using largest_pow2_eqI [of 1 4] largest_pow2_eqI [of 0 2] by (simp_all add: eval_nat_numeral)
  ultimately show ?thesis
    using mth_split [of 0 "[a, b]" sha] by (simp add: consistency_path.simps Let_def)
qed

theorem consistency_path_3_4_witness:
  "consistency_proof toy_sha
     (append_all toy_sha [toy_entry 7 11, toy_entry 8 12, toy_entry 9 13, toy_entry 10 14] tree_new) 3
   = Some (Inr [[2, 12], [1, 14]])"
proof -
  have "map (leaf_of toy_sha) (entries (append_all toy_sha
      [toy_entry 7 11, toy_entry 8 12, toy_entry 9 13, toy_entry 10 14] tree_new)) =
      [[1, 11], [1, 12], [1, 13], [1, 14]]" by code_simp
  from consistency_path_3_4 [OF this] show ?thesis by (simp add: hash_internal_def toy_sha_def)
qed

end
