(* ===== verification/Log_Witness.thy ===== *)
theory Log_Witness
  imports Log_Properties
begin

text \<open>
  The witness that follows a transparency log (\<open>confium-transparency/src/witness.rs\<close>): the heads
  it knows by tree size, the check of a growing head against the tree, gossip to a peer. A chain
  of accepted growing heads pins one growing log; a head that does not grow is stored unchecked.
\<close>

section \<open>Model\<close>

record tree_head =
  tree_size :: u64
  root_hash :: hash
  head_timestamp :: instant

record witness =
  heads :: "(u64 \<times> tree_head) list"
  witness_id :: string

datatype witness_error =
    WConsistencyFailed hash hash
  | OldHeadUnknown u64

definition witness_new :: "string \<Rightarrow> witness" where
  "witness_new i = \<lparr>heads = [], witness_id = i\<rparr>"

text \<open>\<open>Iterator::max_by_key\<close> keeps the last of several greatest elements.\<close>

definition later_head :: "tree_head \<Rightarrow> tree_head \<Rightarrow> tree_head" where
  "later_head m h = (if tree_size m \<le> tree_size h then h else m)"

definition latest_head :: "witness \<Rightarrow> tree_head option" where
  "latest_head w =
     (case hm_values (heads w) of [] \<Rightarrow> None | h # hs \<Rightarrow> Some (foldl later_head h hs))"

definition known_heads :: "witness \<Rightarrow> tree_head list" where
  "known_heads w = sort_key tree_size (hm_values (heads w))"

definition head_at :: "witness \<Rightarrow> u64 \<Rightarrow> tree_head option" where
  "head_at w n = hm_get (heads w) n"

definition head_count :: "witness \<Rightarrow> nat" where
  "head_count w = length (heads w)"

definition store_head :: "tree_head \<Rightarrow> witness \<Rightarrow> witness" where
  "store_head h w = w\<lparr>heads := hm_insert (tree_size h) h (heads w)\<rparr>"

text \<open>\<open>receive_head\<close>: \<open>None\<close> where the verification of the tree would panic. The witness is
  unchanged on an error.\<close>

definition receive_head ::
    "(bytes \<Rightarrow> hash) \<Rightarrow> tree_head \<Rightarrow> 'm merkle_tree \<Rightarrow> witness \<Rightarrow> (witness_error + witness) option" where
  "receive_head sha h t w =
     (case latest_head w of
        Some old \<Rightarrow>
          (if tree_size old < tree_size h
           then (case verify_consistency sha t (root_hash old) (root_hash h)
                        (unat (tree_size old)) (unat (tree_size h)) [] of
                   None \<Rightarrow> None
                 | Some (Inl _) \<Rightarrow> Some (Inl (WConsistencyFailed (root_hash h) (tree_root t)))
                 | Some (Inr _) \<Rightarrow> Some (Inr (store_head h w)))
           else Some (Inr (store_head h w)))
      | None \<Rightarrow> Some (Inr (store_head h w)))"

definition gossip_to ::
    "(bytes \<Rightarrow> hash) \<Rightarrow> witness \<Rightarrow> witness \<Rightarrow> u64 \<Rightarrow> 'm merkle_tree \<Rightarrow> (witness_error + witness) option" where
  "gossip_to sha w peer n t =
     (case hm_get (heads w) n of
        None \<Rightarrow> Some (Inl (OldHeadUnknown n))
      | Some h \<Rightarrow> receive_head sha h t peer)"

text \<open>A witness that is shown a sequence of heads, each with the log behind it.\<close>

fun receive_all ::
    "(bytes \<Rightarrow> hash) \<Rightarrow> (tree_head \<times> 'm merkle_entry list) list \<Rightarrow> witness \<Rightarrow> witness option" where
  "receive_all sha [] w = Some w"
| "receive_all sha ((h, es) # rest) w =
     (case receive_head sha h (log_of sha es) w of
        Some (Inr w') \<Rightarrow> receive_all sha rest w'
      | _ \<Rightarrow> None)"

section \<open>Invariant\<close>

definition witness_inv :: "witness \<Rightarrow> bool" where
  "witness_inv w \<longleftrightarrow> hm_wf (heads w) \<and> (\<forall>(n, h)\<in>set (heads w). tree_size h = n)"

lemma witness_inv_new [simp]: "witness_inv (witness_new i)"
  by (simp add: witness_inv_def witness_new_def)

lemma set_hm_insert: "set (hm_insert k v m) \<subseteq> insert (k, v) (set m)"
  by (induction m) auto

lemma witness_inv_store: "witness_inv w \<Longrightarrow> witness_inv (store_head h w)"
  using set_hm_insert [of "tree_size h" h "heads w"]
  by (auto simp: witness_inv_def store_head_def hm_wf_insert)

lemma receive_head_Inr: "receive_head sha h t w = Some (Inr w') \<Longrightarrow> w' = store_head h w"
  by (auto simp: receive_head_def split: option.splits if_splits sum.splits)

lemma foldl_later_head:
  "foldl later_head h hs \<in> insert h (set hs) \<and>
   (\<forall>x\<in>insert h (set hs). tree_size x \<le> tree_size (foldl later_head h hs))"
proof (induction hs arbitrary: h)
  case (Cons a hs)
  have "h = later_head h a \<or> a = later_head h a" "tree_size h \<le> tree_size (later_head h a)"
    "tree_size a \<le> tree_size (later_head h a)" by (auto simp: later_head_def)
  with Cons [of "later_head h a"] show ?case by (auto intro: order_trans)
qed simp

lemma latest_head_Some:
  assumes "latest_head w = Some h"
  shows "h \<in> set (hm_values (heads w))" "\<forall>x\<in>set (hm_values (heads w)). tree_size x \<le> tree_size h"
proof -
  obtain g gs where "hm_values (heads w) = g # gs" "h = foldl later_head g gs"
    using assms by (cases "hm_values (heads w)") (auto simp: latest_head_def)
  with foldl_later_head [of g gs] show "h \<in> set (hm_values (heads w))"
    "\<forall>x\<in>set (hm_values (heads w)). tree_size x \<le> tree_size h" by simp_all
qed

lemma latest_head_eq_None: "latest_head w = None \<longleftrightarrow> heads w = []"
  by (auto simp: latest_head_def split: list.splits)

lemma latest_headI:
  assumes "witness_inv w" "(tree_size h, h) \<in> set (heads w)"
    "\<forall>x\<in>set (hm_values (heads w)). tree_size x \<le> tree_size h"
  shows "latest_head w = Some h"
proof -
  obtain g where g: "latest_head w = Some g" using assms(2) latest_head_eq_None [of w] by (cases "latest_head w") auto
  with latest_head_Some [OF g] assms have "tree_size g = tree_size h" "(tree_size g, g) \<in> set (heads w)"
    by (force simp: witness_inv_def intro: antisym)+
  then show ?thesis using g assms(1,2)
    by (auto simp: witness_inv_def hm_wf_def dest: eq_key_imp_eq_value)
qed

lemma latest_head_store:
  assumes "witness_inv w" "\<And>old. latest_head w = Some old \<Longrightarrow> tree_size old \<le> tree_size h"
  shows "latest_head (store_head h w) = Some h"
proof (rule latest_headI)
  show "witness_inv (store_head h w)" by (rule witness_inv_store [OF assms(1)])
  show "(tree_size h, h) \<in> set (heads (store_head h w))"
    using assms(1) by (simp add: store_head_def witness_inv_def hm_wf_insert hm_get_insert flip: hm_get_iff)
  have "\<forall>x\<in>set (hm_values (heads w)). tree_size x \<le> tree_size h"
  proof (cases "latest_head w")
    case (Some old)
    then show ?thesis using assms(2) latest_head_Some [OF Some] by (auto intro: order_trans)
  qed (simp add: latest_head_eq_None)
  then show "\<forall>x\<in>set (hm_values (heads (store_head h w))). tree_size x \<le> tree_size h"
    using set_hm_insert [of "tree_size h" h "heads w"] by (fastforce simp: store_head_def)
qed

section \<open>A chain of growing heads\<close>

text \<open>What the witness relies on: no collision among the inputs of all prefixes of the logs.\<close>

definition prefix_inputs :: "(bytes \<Rightarrow> hash) \<Rightarrow> 'm merkle_entry list \<Rightarrow> bytes list" where
  "prefix_inputs sha es = concat (map (log_inputs sha) (prefixes es))"

definition shown_entries :: "(bytes \<Rightarrow> hash) \<Rightarrow> tree_head \<times> 'm merkle_entry list \<Rightarrow> 'm merkle_entry list" where
  "shown_entries sha p = entries (log_of sha (snd p))"

definition chain_inputs :: "(bytes \<Rightarrow> hash) \<Rightarrow> (tree_head \<times> 'm merkle_entry list) list \<Rightarrow> bytes list" where
  "chain_inputs sha ps = concat (map (prefix_inputs sha) (map (shown_entries sha) ps))"

definition head_matches :: "(bytes \<Rightarrow> hash) \<Rightarrow> tree_head \<Rightarrow> 'm merkle_tree \<Rightarrow> bool" where
  "head_matches sha h t \<longleftrightarrow> unat (tree_size h) = tree_len t \<and> root_hash h = tree_root t"

definition extends :: "(bytes \<Rightarrow> hash) \<Rightarrow> tree_head \<times> 'm merkle_entry list \<Rightarrow> tree_head \<times> 'm merkle_entry list \<Rightarrow> bool" where
  "extends sha p q \<longleftrightarrow> prefix (map entry_bytes (shown_entries sha p)) (map entry_bytes (shown_entries sha q))"

lemma receive_head_growing:
  assumes "receive_head sha h (log_of sha es) w = Some (Inr w')"
    and "latest_head w = Some old" "tree_size old < tree_size h" "0 < tree_size old"
  shows "head_matches sha h (log_of sha es)"
    and "unat (tree_size old) \<le> tree_len (log_of sha es)"
    and "root_hash old = mth sha (map (leaf_of sha) (take (unat (tree_size old)) (entries (log_of sha es))))"
proof -
  have pos: "0 < unat (tree_size old)" using assms(4) by (simp add: unat_gt_0 word_neq_0_conv)
  have "verify_consistency sha (log_of sha es) (root_hash old) (root_hash h)
      (unat (tree_size old)) (unat (tree_size h)) [] = Some (Inr ())"
    using assms(1-3) by (auto simp: receive_head_def split: option.splits sum.splits)
  from this [unfolded verify_consistency_iff [OF tree_inv_log pos]]
  show "head_matches sha h (log_of sha es)"
    "unat (tree_size old) \<le> tree_len (log_of sha es)"
    "root_hash old = mth sha (map (leaf_of sha) (take (unat (tree_size old)) (entries (log_of sha es))))"
    by (auto simp: head_matches_def)
qed

lemma chain_step:
  assumes len: "\<And>b. length (sha b) = d"
    and rcv: "receive_head sha h (log_of sha es) w = Some (Inr w')"
    and old: "latest_head w = Some g" "head_matches sha g (log_of sha fs)"
    and grow: "tree_size g < tree_size h" "0 < tree_size g"
    and inj: "inj_on sha (set (chain_inputs sha [(g, fs), (h, es)]))"
  shows "extends sha (g, fs) (h, es)"
proof -
  let ?n = "unat (tree_size g)" and ?E = "entries (log_of sha es)" and ?F = "entries (log_of sha fs)"
  note gr = receive_head_growing [OF rcv old(1) grow]
  have n: "?n = length ?F" using old(2) by (simp add: head_matches_def tree_len_def)
  have root: "mth sha (map (leaf_of sha) (take ?n ?E)) = mth sha (map (leaf_of sha) ?F)"
    using gr(3) old(2) tree_inv_log [of sha fs] by (auto simp: head_matches_def tree_inv_def tree_root_def)
  have "take ?n ?E \<in> set (prefixes ?E)" "?F \<in> set (prefixes ?F)" by (simp_all add: take_is_prefix)
  then have "set (log_inputs sha (take ?n ?E) @ log_inputs sha ?F) \<subseteq> set (chain_inputs sha [(g, fs), (h, es)])"
    by (auto simp: chain_inputs_def prefix_inputs_def shown_entries_def)
  then have "map entry_bytes (take ?n ?E) = map entry_bytes ?F"
    using gr(2) n root inj by (intro entries_pinned [OF len]) (auto simp: tree_len_def elim: inj_on_subset)
  then show ?thesis
    unfolding extends_def shown_entries_def by (metis snd_conv take_is_prefix take_map)
qed

lemma extends_transp: "transp (extends sha)"
  by (auto simp: transp_def extends_def intro: prefix_order.trans)

definition smaller_head :: "tree_head \<times> 'm merkle_entry list \<Rightarrow> tree_head \<times> 'm merkle_entry list \<Rightarrow> bool" where
  "smaller_head p q \<longleftrightarrow> tree_size (fst p) < tree_size (fst q)"

lemma chain_inputs_subset: "set ps \<subseteq> set qs \<Longrightarrow> set (chain_inputs sha ps) \<subseteq> set (chain_inputs sha qs)"
  by (auto simp: chain_inputs_def)

lemma chain_extends:
  assumes "\<And>b. length (sha b) = d" "receive_all sha ps w = Some w'" "witness_inv w"
    "latest_head w = Some g" "head_matches sha g (log_of sha fs)" "0 < tree_size g"
    "successively smaller_head ((g, fs) # ps)" "inj_on sha (set (chain_inputs sha ((g, fs) # ps)))"
  shows "successively (extends sha) ((g, fs) # ps)"
  using assms
proof (induction ps arbitrary: w g fs)
  case (Cons p ps)
  obtain h es where p: "p = (h, es)" by (cases p)
  obtain v where v: "receive_head sha h (log_of sha es) w = Some (Inr v)" "receive_all sha ps v = Some w'"
    using Cons.prems(2) p by (auto split: option.splits sum.splits)
  have lt: "tree_size g < tree_size h" using Cons.prems(7) p by (simp add: smaller_head_def)
  have vw: "v = store_head h w" using receive_head_Inr [OF v(1)] .
  have "inj_on sha (set (chain_inputs sha [(g, fs), (h, es)]))"
    "inj_on sha (set (chain_inputs sha ((h, es) # ps)))"
    using Cons.prems(8) p by (auto elim!: inj_on_subset intro!: chain_inputs_subset)
  then have "extends sha (g, fs) (h, es)" "successively (extends sha) ((h, es) # ps)"
    using Cons.prems p lt vw v receive_head_growing(1) [OF v(1) Cons.prems(4) lt Cons.prems(6)]
    by (auto intro!: chain_step [OF Cons.prems(1) v(1)] Cons.IH [OF Cons.prems(1) v(2)]
          witness_inv_store latest_head_store)
  then show ?case using p by simp
qed simp

section \<open>Properties\<close>


definition toy_head :: "u64 \<Rightarrow> u8 \<Rightarrow> tree_head" where
  "toy_head n a = \<lparr>tree_size = n, root_hash = [if n = 1 then 1 else 2, a], head_timestamp = 0\<rparr>"


text \<open>A head that does not grow is accepted unchecked, whatever its root and whatever the
  tree: the witness stores it, and a head of the same size with a different root replaces the one
  the witness knew.\<close>

theorem receive_head_not_growing:
  assumes "latest_head w = Some old" and "tree_size h \<le> tree_size old"
  shows "\<exists>w'. receive_head sha h t w = Some (Inr w') \<and> head_at w' (tree_size h) = Some h"
  using assms by (auto simp: receive_head_def head_at_def store_head_def)

theorem receive_head_not_growing_witness:
  "\<exists>w'. receive_head toy_sha (toy_head 2 99) toy_log (store_head (toy_head 2 12) (witness_new [])) = Some (Inr w') \<and>
     head_at w' (tree_size (toy_head 2 99)) = Some (toy_head 2 99)"
  by (rule receive_head_not_growing [of _ "toy_head 2 12"]) code_simp+

end
