(* ===== verification/Evidence.thy ===== *)
theory Evidence
  imports Confium_Base
begin

text \<open>
  Evidence records for long-term archiving (\<open>confium-transparency/src/ers/mod.rs\<close>, RFC 4998):
  building, renewing and verifying a record. SHA-256 is the argument \<open>sha\<close>, the clock the argument
  \<open>now\<close>. The error texts of the checks are the constructors of \<open>check_error\<close>.
\<close>

section \<open>Model\<close>

datatype hash_algorithm = Sha256 | Sha384 | Sha512 | Sha3_256

record time_stamp =
  tsa_id :: string
  token :: bytes
  hashed_message :: bytes

record archive_time_stamp_sequence =
  sequence_number :: u32
  reduced_hash_tree :: "bytes list"
  time_stamp :: time_stamp
  applied_at :: instant

record evidence_record =
  version :: u32
  digest_algorithms :: "hash_algorithm list"
  archive_time_stamp_sequences :: "archive_time_stamp_sequence list"

datatype ers_error =
    HashMismatch hash_algorithm hash_algorithm
  | UntrustedTsa string
  | BrokenChain u32
  | UnsupportedAlgorithm hash_algorithm

datatype check_error =
    NoAlgorithmDeclared
  | DigestMismatch hash_algorithm
  | HashError ers_error
  | CheckUntrustedTsa string
  | TimestampWentBackwards

record sequence_check =
  check_number :: u32
  verified :: bool
  check_error :: "check_error option"

record ers_verification_result =
  valid :: bool
  sequences :: "sequence_check list"

definition hash_with :: "(bytes \<Rightarrow> bytes) \<Rightarrow> hash_algorithm \<Rightarrow> bytes \<Rightarrow> ers_error + bytes" where
  "hash_with sha alg data =
     (case alg of Sha256 \<Rightarrow> Inr (sha data) | _ \<Rightarrow> Inl (UnsupportedAlgorithm alg))"

definition digest_check ::
    "(bytes \<Rightarrow> bytes) \<Rightarrow> bytes \<Rightarrow> hash_algorithm option \<Rightarrow> archive_time_stamp_sequence \<Rightarrow> check_error option" where
  "digest_check sha artifact alg sq =
     (case alg of
        None \<Rightarrow> Some NoAlgorithmDeclared
      | Some a \<Rightarrow>
          (case hash_with sha a artifact of
             Inr digest \<Rightarrow>
               (if hashed_message (time_stamp sq) = digest then None else Some (DigestMismatch a))
           | Inl e \<Rightarrow> Some (HashError e)))"

definition sequence_error ::
    "(bytes \<Rightarrow> bytes) \<Rightarrow> bytes \<Rightarrow> string list \<Rightarrow> hash_algorithm option \<Rightarrow> instant option
      \<Rightarrow> archive_time_stamp_sequence \<Rightarrow> check_error option" where
  "sequence_error sha artifact tsas alg prev sq =
     (case digest_check sha artifact alg sq of
        Some e \<Rightarrow> Some e
      | None \<Rightarrow>
          (if tsa_id (time_stamp sq) \<notin> set tsas then Some (CheckUntrustedTsa (tsa_id (time_stamp sq)))
           else case prev of
                  None \<Rightarrow> None
                | Some p \<Rightarrow> (if applied_at sq < p then Some TimestampWentBackwards else None)))"

text \<open>The loop of \<open>verify_evidence_record\<close>; the algorithm list runs along with the sequences.\<close>

fun check_sequences ::
    "(bytes \<Rightarrow> bytes) \<Rightarrow> bytes \<Rightarrow> string list \<Rightarrow> instant option \<Rightarrow> hash_algorithm list
      \<Rightarrow> archive_time_stamp_sequence list \<Rightarrow> sequence_check list" where
  "check_sequences sha artifact tsas prev algs [] = []"
| "check_sequences sha artifact tsas prev algs (sq # sqs) =
     (let alg = (case algs of [] \<Rightarrow> None | a # _ \<Rightarrow> Some a);
          err = sequence_error sha artifact tsas alg prev sq
      in \<lparr>check_number = sequence_number sq, verified = (err = None), check_error = err\<rparr>
         # check_sequences sha artifact tsas (Some (applied_at sq)) (tl algs) sqs)"

definition verify_evidence_record ::
    "(bytes \<Rightarrow> bytes) \<Rightarrow> evidence_record \<Rightarrow> bytes \<Rightarrow> string list \<Rightarrow> ers_error + ers_verification_result" where
  "verify_evidence_record sha rec artifact tsas =
     (let checks = check_sequences sha artifact tsas None (digest_algorithms rec)
                     (archive_time_stamp_sequences rec)
      in Inr \<lparr>valid = (length (digest_algorithms rec) = length (archive_time_stamp_sequences rec)
                        \<and> list_all verified checks),
              sequences = checks\<rparr>)"

definition new_sequence ::
    "instant \<Rightarrow> u32 \<Rightarrow> bytes \<Rightarrow> string \<Rightarrow> bytes \<Rightarrow> archive_time_stamp_sequence" where
  "new_sequence now n h tsa tok =
     \<lparr>sequence_number = n, reduced_hash_tree = [h],
      time_stamp = \<lparr>tsa_id = tsa, token = tok, hashed_message = h\<rparr>, applied_at = now\<rparr>"

definition build_initial_evidence_record ::
    "instant \<Rightarrow> bytes \<Rightarrow> hash_algorithm \<Rightarrow> string \<Rightarrow> bytes \<Rightarrow> evidence_record" where
  "build_initial_evidence_record now h alg tsa tok =
     \<lparr>version = 1, digest_algorithms = [alg],
      archive_time_stamp_sequences = [new_sequence now 0 h tsa tok]\<rparr>"

definition renew_evidence_record ::
    "instant \<Rightarrow> hash_algorithm \<Rightarrow> bytes \<Rightarrow> string \<Rightarrow> bytes \<Rightarrow> evidence_record \<Rightarrow> evidence_record" where
  "renew_evidence_record now alg h tsa tok rec =
     rec\<lparr>digest_algorithms := digest_algorithms rec @ [alg],
         archive_time_stamp_sequences := archive_time_stamp_sequences rec
           @ [new_sequence now (of_nat (length (archive_time_stamp_sequences rec))) h tsa tok]\<rparr>"

definition renewal_count :: "evidence_record \<Rightarrow> u32" where
  "renewal_count rec = of_nat (length (archive_time_stamp_sequences rec))"

section \<open>What verification accepts\<close>

text \<open>The condition on one sequence, and on the whole record.\<close>

definition sequence_ok ::
    "(bytes \<Rightarrow> bytes) \<Rightarrow> bytes \<Rightarrow> string list \<Rightarrow> hash_algorithm \<Rightarrow> archive_time_stamp_sequence \<Rightarrow> bool" where
  "sequence_ok sha artifact tsas alg sq \<longleftrightarrow>
     alg = Sha256 \<and> hashed_message (time_stamp sq) = sha artifact \<and> tsa_id (time_stamp sq) \<in> set tsas"

definition record_ok :: "(bytes \<Rightarrow> bytes) \<Rightarrow> bytes \<Rightarrow> string list \<Rightarrow> evidence_record \<Rightarrow> bool" where
  "record_ok sha artifact tsas rec \<longleftrightarrow>
     list_all2 (sequence_ok sha artifact tsas) (digest_algorithms rec) (archive_time_stamp_sequences rec) \<and>
     sorted (map applied_at (archive_time_stamp_sequences rec))"

lemma sequence_error_None:
  "sequence_error sha artifact tsas (Some alg) prev sq = None \<longleftrightarrow>
     sequence_ok sha artifact tsas alg sq \<and> (\<forall>p. prev = Some p \<longrightarrow> p \<le> applied_at sq)"
  by (auto simp: sequence_error_def digest_check_def hash_with_def sequence_ok_def
      split: option.splits hash_algorithm.splits)

lemma check_sequences_verified:
  "length algs = length sqs \<Longrightarrow>
     list_all verified (check_sequences sha artifact tsas prev algs sqs) \<longleftrightarrow>
       list_all2 (sequence_ok sha artifact tsas) algs sqs \<and> sorted (map applied_at sqs) \<and>
       (\<forall>p. prev = Some p \<longrightarrow> (\<forall>s\<in>set sqs. p \<le> applied_at s))"
proof (induction sqs arbitrary: prev algs)
  case (Cons sq sqs)
  then obtain a as where "algs = a # as" "length as = length sqs" by (cases algs) auto
  with Cons.IH [of as "Some (applied_at sq)"] show ?case
    by (auto simp: sequence_error_None intro: order_trans)
qed simp

lemma verify_evidence_record_valid:
  "verify_evidence_record sha rec artifact tsas = Inr r \<Longrightarrow> valid r \<longleftrightarrow> record_ok sha artifact tsas rec"
  using check_sequences_verified [of "digest_algorithms rec" "archive_time_stamp_sequences rec" sha artifact tsas None]
    list_all2_lengthD [of "sequence_ok sha artifact tsas" "digest_algorithms rec" "archive_time_stamp_sequences rec"]
  by (fastforce simp: verify_evidence_record_def Let_def record_ok_def)

section \<open>Properties\<close>

text \<open>C31: Verification always returns a result with one check per sequence, and the result is
  valid exactly when every sequence uses SHA-256, timestamps the digest of the artifact, comes from
  a trusted authority, one algorithm is declared per sequence and the times never go backwards.\<close>

theorem evidence_valid_iff:
  "\<exists>r. verify_evidence_record sha rec artifact tsas = Inr r \<and>
     (valid r \<longleftrightarrow> record_ok sha artifact tsas rec) \<and>
     length (sequences r) = length (archive_time_stamp_sequences rec)"
proof -
  have "length (check_sequences sha artifact tsas prev algs sqs) = length sqs" for prev algs sqs
    by (induction sqs arbitrary: prev algs) (auto simp: Let_def)
  then show ?thesis
    using verify_evidence_record_valid [of sha rec artifact tsas] by (auto simp: verify_evidence_record_def Let_def)
qed

text \<open>Renewing a valid record with the digest of the same artifact under SHA-256, by a
  trusted authority and not before the last timestamp, gives a valid record; renewing it with any
  other algorithm gives an invalid one, for any digest.\<close>

theorem renew_keeps_valid:
  assumes "record_ok sha artifact tsas rec"
    and "\<forall>s\<in>set (archive_time_stamp_sequences rec). applied_at s \<le> now" and "tsa \<in> set tsas"
  shows "record_ok sha artifact tsas (renew_evidence_record now Sha256 (sha artifact) tsa tok rec) \<and>
         (alg \<noteq> Sha256 \<longrightarrow> \<not> record_ok sha artifact tsas (renew_evidence_record now alg h tsa tok rec))"
proof -
  have l: "length (digest_algorithms rec) = length (archive_time_stamp_sequences rec)"
    using assms(1) by (auto simp: record_ok_def dest: list_all2_lengthD)
  show ?thesis
    using assms unfolding record_ok_def renew_evidence_record_def new_sequence_def
    by (simp add: list_all2_append [OF l] sequence_ok_def sorted_append)
qed

theorem renew_keeps_valid_witness:
  "record_ok (take 2) [5, 6, 7] [''tsa'']
     (renew_evidence_record 20 Sha256 (take 2 [5, 6, 7]) ''tsa'' []
        (build_initial_evidence_record 10 [5, 6] Sha256 ''tsa'' [])) \<and>
   \<not> record_ok (take 2) [5, 6, 7] [''tsa'']
     (renew_evidence_record 20 Sha512 [5] ''tsa'' []
        (build_initial_evidence_record 10 [5, 6] Sha256 ''tsa'' []))"
  using renew_keeps_valid [of "take 2" "[5, 6, 7]" "[''tsa'']"
      "build_initial_evidence_record 10 [5, 6] Sha256 ''tsa'' []" 20 "''tsa''" "[]" Sha512 "[5]"]
  by (simp add: record_ok_def build_initial_evidence_record_def new_sequence_def sequence_ok_def)

end
