(* ===== verification/Audit_Log.thy ===== *)
theory Audit_Log
  imports Confium_Base
begin

text \<open>
  The session types (\<open>confium-coordinator/src/coordinator/session.rs\<close>) and the audit log of the
  coordinator (\<open>audit.rs\<close>): the append-only log, its queries and its JSONL export. The JSON
  serializer is an argument.
\<close>

section \<open>Session types\<close>

type_synonym session_id = string
type_synonym signer_id = string

datatype session_state = Pending | CommitmentsCollected | Completed | Expired | Aborted

record session_request =
  quorum_id :: string
  scheme :: string
  message :: bytes
  req_threshold :: u32
  num_parties :: u32
  unlock_window_minutes :: u32
  requested_by :: signer_id

record commitment =
  c_signer_id :: signer_id
  c_bytes :: bytes
  c_signer_signature :: bytes
  c_submitted_at :: instant

record share =
  s_signer_id :: signer_id
  s_bytes :: bytes
  s_signer_signature :: bytes
  s_submitted_at :: instant

record aggregated_signature =
  sig_bytes :: bytes
  algorithm :: string
  sig_completed_at :: instant
  contributing_signers :: "signer_id list"

datatype session_error =
    NotFound session_id
  | InvalidState session_id session_state string
  | ThresholdNotMet nat u32
  | DuplicateSubmission signer_id session_id
  | SessionExpired session_id
  | UnauthorizedSigner signer_id
  | SigningFailed string

section \<open>The audit log\<close>

datatype audit_event =
    SessionCreated signer_id string
  | CommitmentReceived signer_id
  | ShareReceived signer_id
  | AggregatedEvent
  | ExpiredEvent
  | AbortedEvent string

record audit_entry =
  entry_time :: instant
  event :: audit_event
  entry_session :: session_id

record audit_log =
  log_entries :: "audit_entry list"

definition audit_new :: audit_log where
  "audit_new = \<lparr>log_entries = []\<rparr>"

definition audit_append :: "instant \<Rightarrow> session_id \<Rightarrow> audit_event \<Rightarrow> audit_log \<Rightarrow> audit_log" where
  "audit_append now sid ev l =
     l\<lparr>log_entries := log_entries l @ [\<lparr>entry_time = now, event = ev, entry_session = sid\<rparr>]\<rparr>"

definition entries_for :: "session_id \<Rightarrow> audit_log \<Rightarrow> audit_entry list" where
  "entries_for sid l = filter (\<lambda>e. entry_session e = sid) (log_entries l)"

definition audit_all :: "audit_log \<Rightarrow> audit_entry list" where
  "audit_all l = log_entries l"

definition audit_count :: "audit_log \<Rightarrow> nat" where
  "audit_count l = length (log_entries l)"

fun jsonl_lines :: "(audit_entry \<Rightarrow> 'e + string) \<Rightarrow> audit_entry list \<Rightarrow> string \<Rightarrow> 'e + string" where
  "jsonl_lines to_string [] out = Inr out"
| "jsonl_lines to_string (e # es) out =
     try_bind (to_string e) (\<lambda>s. jsonl_lines to_string es (out @ s @ [CHR 0x0A]))"

definition to_jsonl :: "(audit_entry \<Rightarrow> 'e + string) \<Rightarrow> audit_log \<Rightarrow> 'e + string" where
  "to_jsonl to_string l = jsonl_lines to_string (log_entries l) []"

section \<open>Queries\<close>

record audit_query =
  q_session_id :: "string option"
  q_signer_id :: "string option"
  q_event_type :: "string option"
  q_time_start :: "instant option"
  q_time_end :: "instant option"

definition query_new :: audit_query where
  "query_new = \<lparr>q_session_id = None, q_signer_id = None, q_event_type = None,
                q_time_start = None, q_time_end = None\<rparr>"

definition involves_signer :: "audit_entry \<Rightarrow> string \<Rightarrow> bool" where
  "involves_signer e who =
     (case event e of
        SessionCreated by _ \<Rightarrow> by = who
      | CommitmentReceived s \<Rightarrow> s = who
      | ShareReceived s \<Rightarrow> s = who
      | _ \<Rightarrow> False)"

definition event_type_name :: "audit_entry \<Rightarrow> string" where
  "event_type_name e =
     (case event e of
        SessionCreated _ _ \<Rightarrow> ''session_created''
      | CommitmentReceived _ \<Rightarrow> ''commitment_received''
      | ShareReceived _ \<Rightarrow> ''share_received''
      | AggregatedEvent \<Rightarrow> ''aggregated''
      | ExpiredEvent \<Rightarrow> ''expired''
      | AbortedEvent _ \<Rightarrow> ''aborted'')"

definition query_matches :: "audit_query \<Rightarrow> audit_entry \<Rightarrow> bool" where
  "query_matches q e =
     (if (case q_session_id q of Some sid \<Rightarrow> entry_session e \<noteq> sid | None \<Rightarrow> False) then False
      else if (case q_signer_id q of Some s \<Rightarrow> \<not> involves_signer e s | None \<Rightarrow> False) then False
      else if (case q_event_type q of Some t \<Rightarrow> event_type_name e \<noteq> t | None \<Rightarrow> False) then False
      else if (case q_time_start q of Some t \<Rightarrow> entry_time e < t | None \<Rightarrow> False) then False
      else if (case q_time_end q of Some t \<Rightarrow> t < entry_time e | None \<Rightarrow> False) then False
      else True)"

definition audit_query_run :: "audit_query \<Rightarrow> audit_log \<Rightarrow> audit_entry list" where
  "audit_query_run q l = filter (query_matches q) (log_entries l)"

definition query_by_signer :: "string \<Rightarrow> audit_log \<Rightarrow> audit_entry list" where
  "query_by_signer who = audit_query_run (query_new\<lparr>q_signer_id := Some who\<rparr>)"

definition query_by_time_range :: "instant \<Rightarrow> instant \<Rightarrow> audit_log \<Rightarrow> audit_entry list" where
  "query_by_time_range t\<^sub>0 t\<^sub>1 = audit_query_run (query_new\<lparr>q_time_start := Some t\<^sub>0, q_time_end := Some t\<^sub>1\<rparr>)"

section \<open>Lemmas\<close>

lemma entries_for_append [simp]:
  "entries_for s (audit_append now sid ev l) =
     entries_for s l @ (if sid = s then [\<lparr>entry_time = now, event = ev, entry_session = sid\<rparr>] else [])"
  by (simp add: entries_for_def audit_append_def)

lemma log_entries_append:
  "log_entries (audit_append now sid ev l) =
     log_entries l @ [\<lparr>entry_time = now, event = ev, entry_session = sid\<rparr>]"
  by (simp add: audit_append_def)

lemma entries_for_new [simp]: "entries_for s audit_new = []"
  by (simp add: entries_for_def audit_new_def)

interpretation audit: append_only "\<lambda>(now, sid, ev). audit_append now sid ev" "\<lambda>_. True" log_entries
  by unfold_locales (auto simp: audit_append_def)

lemma jsonl_lines_spec:
  "(\<And>e. e \<in> set es \<Longrightarrow> to_string e = Inr (f e)) \<Longrightarrow>
     jsonl_lines to_string es out = Inr (out @ concat (map (\<lambda>e. f e @ [CHR 0x0A]) es))"
  by (induction es arbitrary: out) auto

text \<open>A query returns, in log order, exactly the entries that satisfy each filter that is
  set; the empty query returns the whole log.\<close>

theorem audit_query_correct:
  "set (audit_query_run q l) =
     {e \<in> set (log_entries l).
        (case q_session_id q of None \<Rightarrow> True | Some sid \<Rightarrow> entry_session e = sid) \<and>
        (case q_signer_id q of None \<Rightarrow> True | Some s \<Rightarrow> involves_signer e s) \<and>
        (case q_event_type q of None \<Rightarrow> True | Some t \<Rightarrow> event_type_name e = t) \<and>
        (case q_time_start q of None \<Rightarrow> True | Some t \<Rightarrow> t \<le> entry_time e) \<and>
        (case q_time_end q of None \<Rightarrow> True | Some t \<Rightarrow> entry_time e \<le> t)}
   \<and> subseq (audit_query_run q l) (log_entries l) \<and> audit_query_run query_new l = audit_all l"
proof -
  have "query_matches q e \<longleftrightarrow>
        (case q_session_id q of None \<Rightarrow> True | Some sid \<Rightarrow> entry_session e = sid) \<and>
        (case q_signer_id q of None \<Rightarrow> True | Some s \<Rightarrow> involves_signer e s) \<and>
        (case q_event_type q of None \<Rightarrow> True | Some t \<Rightarrow> event_type_name e = t) \<and>
        (case q_time_start q of None \<Rightarrow> True | Some t \<Rightarrow> t \<le> entry_time e) \<and>
        (case q_time_end q of None \<Rightarrow> True | Some t \<Rightarrow> entry_time e \<le> t)" for e
    by (auto simp: query_matches_def not_less split: option.splits)
  then show ?thesis
    by (auto simp: audit_query_run_def query_new_def query_matches_def audit_all_def)
qed

end
