(* ===== verification/Coordinator.thy ===== *)
theory Coordinator
  imports Audit_Log "HOL-Library.Multiset"
begin

text \<open>
  The signing coordinator (\<open>confium-coordinator/src/coordinator/coordinator.rs\<close>) and the session
  reaper (\<open>reaper.rs\<close>). Every operation takes the current time and returns its result with the new
  coordinator. The injected \<open>ThresholdSigner\<close> is an argument of \<open>aggregate\<close>; \<open>mock_sign\<close> is
  the default one. The logging macros have no effect on the state and are left out.
\<close>

section \<open>Model\<close>

type_synonym threshold_signer = "string \<Rightarrow> bytes list \<Rightarrow> u32 \<Rightarrow> bytes \<Rightarrow> string + bytes"

text \<open>\<open>MockSigner\<close>: the xor of the first 64 bytes of all shares.\<close>

fun xor_into :: "bytes \<Rightarrow> bytes \<Rightarrow> bytes" where
  "xor_into (a # as) (b # bs) = xor a b # xor_into as bs"
| "xor_into as [] = as"
| "xor_into [] bs = []"

definition mock_sign :: threshold_signer where
  "mock_sign sch shs thr msg =
     Inr (foldl (\<lambda>acc sh. xor_into acc (take 64 sh)) (replicate 64 0) shs)"

record coordinator_session =
  cs_id :: session_id
  cs_request :: session_request
  cs_state :: session_state
  cs_commitments :: "commitment list"
  cs_shares :: "share list"
  cs_created_at :: instant
  cs_completed_at :: "instant option"

definition expires_at :: "coordinator_session \<Rightarrow> instant" where
  "expires_at s = cs_created_at s + minutes (int (unat (unlock_window_minutes (cs_request s))))"

definition is_unlocked :: "coordinator_session \<Rightarrow> instant \<Rightarrow> bool" where
  "is_unlocked s now \<longleftrightarrow> now \<le> expires_at s"

definition cs_threshold :: "coordinator_session \<Rightarrow> u32" where
  "cs_threshold s = req_threshold (cs_request s)"

record coordinator =
  sessions :: "(session_id \<times> coordinator_session) list"
  audit :: audit_log
  next_id :: u64

definition coordinator_new :: coordinator where
  "coordinator_new = \<lparr>sessions = [], audit = audit_new, next_id = 0\<rparr>"

definition session_name :: "nat \<Rightarrow> session_id" where
  "session_name n = ''session-'' @ decimal n"

definition create_session ::
    "instant \<Rightarrow> session_request \<Rightarrow> coordinator \<Rightarrow> (session_error + session_id) \<times> coordinator" where
  "create_session now req c =
     (let sid = session_name (unat (next_id c));
          session = \<lparr>cs_id = sid, cs_request = req, cs_state = Pending, cs_commitments = [],
                     cs_shares = [], cs_created_at = now, cs_completed_at = None\<rparr>
      in (Inr sid,
          c\<lparr>next_id := next_id c + 1,
            audit := audit_append now sid (SessionCreated (requested_by req) (quorum_id req)) (audit c),
            sessions := hm_insert sid session (sessions c)\<rparr>))"

definition put_session :: "session_id \<Rightarrow> coordinator_session \<Rightarrow> coordinator \<Rightarrow> coordinator" where
  "put_session sid s c = c\<lparr>sessions := hm_insert sid s (sessions c)\<rparr>"

definition log_event :: "instant \<Rightarrow> session_id \<Rightarrow> audit_event \<Rightarrow> coordinator \<Rightarrow> coordinator" where
  "log_event now sid ev c = c\<lparr>audit := audit_append now sid ev (audit c)\<rparr>"

definition submit_commitment ::
    "instant \<Rightarrow> session_id \<Rightarrow> commitment \<Rightarrow> coordinator \<Rightarrow> (session_error + unit) \<times> coordinator" where
  "submit_commitment now sid com c =
     (case hm_get (sessions c) sid of
        None \<Rightarrow> (Inl (NotFound sid), c)
      | Some s \<Rightarrow>
          if \<not> is_unlocked s now
          then (Inl (SessionExpired sid),
                log_event now sid ExpiredEvent (put_session sid (s\<lparr>cs_state := Expired\<rparr>) c))
          else if cs_state s \<noteq> Pending
          then (Inl (InvalidState sid (cs_state s) ''pending''), c)
          else if c_signer_id com \<in> set (map c_signer_id (cs_commitments s))
          then (Inl (DuplicateSubmission (c_signer_id com) sid), c)
          else let s' = s\<lparr>cs_commitments := cs_commitments s @ [com]\<rparr>;
                   s'' = (if unat (cs_threshold s') \<le> length (cs_commitments s')
                          then s'\<lparr>cs_state := CommitmentsCollected\<rparr> else s')
               in (Inr (), put_session sid s''
                             (log_event now sid (CommitmentReceived (c_signer_id com)) c)))"

definition submit_share ::
    "instant \<Rightarrow> session_id \<Rightarrow> share \<Rightarrow> coordinator \<Rightarrow> (session_error + unit) \<times> coordinator" where
  "submit_share now sid sh c =
     (case hm_get (sessions c) sid of
        None \<Rightarrow> (Inl (NotFound sid), c)
      | Some s \<Rightarrow>
          if \<not> is_unlocked s now
          then (Inl (SessionExpired sid),
                log_event now sid ExpiredEvent (put_session sid (s\<lparr>cs_state := Expired\<rparr>) c))
          else if cs_state s \<noteq> CommitmentsCollected \<and> cs_state s \<noteq> Pending
          then (Inl (InvalidState sid (cs_state s) ''commitments_collected or pending''), c)
          else if s_signer_id sh \<in> set (map s_signer_id (cs_shares s))
          then (Inl (DuplicateSubmission (s_signer_id sh) sid), c)
          else (Inr (), put_session sid (s\<lparr>cs_shares := cs_shares s @ [sh]\<rparr>)
                          (log_event now sid (ShareReceived (s_signer_id sh)) c)))"

definition aggregate ::
    "threshold_signer \<Rightarrow> instant \<Rightarrow> session_id \<Rightarrow> coordinator
      \<Rightarrow> (session_error + aggregated_signature) \<times> coordinator" where
  "aggregate sign now sid c =
     (case hm_get (sessions c) sid of
        None \<Rightarrow> (Inl (NotFound sid), c)
      | Some s \<Rightarrow>
          if length (cs_shares s) < unat (cs_threshold s)
          then (Inl (ThresholdNotMet (length (cs_shares s)) (cs_threshold s)), c)
          else (case sign (scheme (cs_request s)) (map s_bytes (cs_shares s)) (cs_threshold s)
                       (message (cs_request s)) of
                  Inl e \<Rightarrow> (Inl (SigningFailed e), c)
                | Inr sg \<Rightarrow>
                    (Inr \<lparr>sig_bytes = sg, algorithm = scheme (cs_request s), sig_completed_at = now,
                          contributing_signers = map s_signer_id (cs_shares s)\<rparr>,
                     log_event now sid AggregatedEvent
                       (put_session sid (s\<lparr>cs_state := Completed, cs_completed_at := Some now\<rparr>) c))))"

section \<open>Queries and administration\<close>

definition get_session_state :: "session_id \<Rightarrow> coordinator \<Rightarrow> session_state option" where
  "get_session_state sid c = map_option cs_state (hm_get (sessions c) sid)"

definition session_ids :: "coordinator \<Rightarrow> session_id list" where
  "session_ids c = hm_keys (sessions c)"

definition set_session_state :: "session_id \<Rightarrow> session_state \<Rightarrow> coordinator \<Rightarrow> coordinator" where
  "set_session_state sid st c =
     (case hm_get (sessions c) sid of
        None \<Rightarrow> c
      | Some s \<Rightarrow> put_session sid (s\<lparr>cs_state := st\<rparr>) c)"

definition session_count :: "coordinator \<Rightarrow> nat" where
  "session_count c = length (sessions c)"

definition session_threshold :: "session_id \<Rightarrow> coordinator \<Rightarrow> u32 option" where
  "session_threshold sid c = map_option cs_threshold (hm_get (sessions c) sid)"

definition session_share_count :: "session_id \<Rightarrow> coordinator \<Rightarrow> nat option" where
  "session_share_count sid c = map_option (\<lambda>s. length (cs_shares s)) (hm_get (sessions c) sid)"

definition session_commitment_count :: "session_id \<Rightarrow> coordinator \<Rightarrow> nat option" where
  "session_commitment_count sid c = map_option (\<lambda>s. length (cs_commitments s)) (hm_get (sessions c) sid)"

definition session_message :: "session_id \<Rightarrow> coordinator \<Rightarrow> bytes option" where
  "session_message sid c = map_option (\<lambda>s. message (cs_request s)) (hm_get (sessions c) sid)"

section \<open>The reaper\<close>

definition reap_one :: "instant \<Rightarrow> session_id \<Rightarrow> coordinator \<times> nat \<Rightarrow> coordinator \<times> nat" where
  "reap_one now sid cn =
     (case cn of (c, n) \<Rightarrow>
        (if (case hm_get (sessions c) sid of Some s \<Rightarrow> \<not> is_unlocked s now | None \<Rightarrow> False)
         then (log_event now sid ExpiredEvent (set_session_state sid Expired c), n + 1)
         else (c, n)))"

definition reap_expired_sessions :: "instant \<Rightarrow> coordinator \<Rightarrow> coordinator \<times> nat" where
  "reap_expired_sessions now c =
     fold (reap_one now)
       (filter (\<lambda>sid. get_session_state sid c = Some Pending) (session_ids c)) (c, 0)"

section \<open>The operations of the service\<close>

datatype coord_op =
    Create instant session_request
  | SubmitCommitment instant session_id commitment
  | SubmitShare instant session_id share
  | Aggregate instant session_id
  | Reap instant
  | SetState session_id session_state

fun exec :: "threshold_signer \<Rightarrow> coord_op \<Rightarrow> coordinator \<Rightarrow> coordinator" where
  "exec sign (Create now req) c = snd (create_session now req c)"
| "exec sign (SubmitCommitment now sid com) c = snd (submit_commitment now sid com c)"
| "exec sign (SubmitShare now sid sh) c = snd (submit_share now sid sh c)"
| "exec sign (Aggregate now sid) c = snd (aggregate sign now sid c)"
| "exec sign (Reap now) c = fst (reap_expired_sessions now c)"
| "exec sign (SetState sid st) c = set_session_state sid st c"

text \<open>
  The states that the operations reach from a new coordinator. The session counter is 64 bits
  wide; the step is guarded by the counter not being at its last value.
\<close>

inductive coord_reachable :: "threshold_signer \<Rightarrow> (coord_op \<Rightarrow> bool) \<Rightarrow> coordinator \<Rightarrow> bool"
  for sign allowed where
  coord_init: "coord_reachable sign allowed coordinator_new"
| coord_step: "coord_reachable sign allowed c \<Longrightarrow> allowed op \<Longrightarrow> next_id c \<noteq> - 1 \<Longrightarrow>
    coord_reachable sign allowed (exec sign op c)"

fun is_service_op :: "coord_op \<Rightarrow> bool" where
  "is_service_op (SetState _ _) = False"
| "is_service_op _ = True"

section \<open>Elementary facts\<close>

lemmas coord_ops = create_session_def submit_commitment_def submit_share_def aggregate_def
  set_session_state_def

lemma put_session_simps [simp]:
  "sessions (put_session sid s c) = hm_insert sid s (sessions c)"
  "audit (put_session sid s c) = audit c" "next_id (put_session sid s c) = next_id c"
  by (simp_all add: put_session_def)

lemma log_event_simps [simp]:
  "sessions (log_event now sid ev c) = sessions c"
  "audit (log_event now sid ev c) = audit_append now sid ev (audit c)"
  "next_id (log_event now sid ev c) = next_id c"
  by (simp_all add: log_event_def)

lemma log_put_commute: "log_event now sid ev (put_session sid' s c) = put_session sid' s (log_event now sid ev c)"
  by (simp add: log_event_def put_session_def)

lemma session_name_inject [simp]: "session_name m = session_name n \<longleftrightarrow> m = n"
  by (simp add: session_name_def)

section \<open>The invariant\<close>

definition committed_signer :: "audit_entry \<Rightarrow> signer_id option" where
  "committed_signer e = (case event e of CommitmentReceived s \<Rightarrow> Some s | _ \<Rightarrow> None)"

definition shared_signer :: "audit_entry \<Rightarrow> signer_id option" where
  "shared_signer e = (case event e of ShareReceived s \<Rightarrow> Some s | _ \<Rightarrow> None)"

definition committed_signers :: "session_id \<Rightarrow> audit_log \<Rightarrow> signer_id list" where
  "committed_signers sid l = List.map_filter committed_signer (entries_for sid l)"

definition shared_signers :: "session_id \<Rightarrow> audit_log \<Rightarrow> signer_id list" where
  "shared_signers sid l = List.map_filter shared_signer (entries_for sid l)"

text \<open>A session is recorded under its own name, no signer is counted twice, and the audit log
  tells exactly whose commitments and shares the session holds.\<close>

definition session_ok :: "audit_log \<Rightarrow> session_id \<Rightarrow> coordinator_session \<Rightarrow> bool" where
  "session_ok l sid s \<longleftrightarrow>
     cs_id s = sid \<and>
     distinct (map c_signer_id (cs_commitments s)) \<and> distinct (map s_signer_id (cs_shares s)) \<and>
     committed_signers sid l = map c_signer_id (cs_commitments s) \<and>
     shared_signers sid l = map s_signer_id (cs_shares s)"

definition issued :: "coordinator \<Rightarrow> session_id \<Rightarrow> bool" where
  "issued c sid \<longleftrightarrow> (\<exists>n<unat (next_id c). sid = session_name n)"

definition coord_inv :: "coordinator \<Rightarrow> bool" where
  "coord_inv c \<longleftrightarrow>
     hm_wf (sessions c) \<and>
     (\<forall>sid s. hm_get (sessions c) sid = Some s \<longrightarrow> session_ok (audit c) sid s \<and> issued c sid) \<and>
     (\<forall>e\<in>set (log_entries (audit c)). issued c (entry_session e))"

lemma map_filter_append: "List.map_filter f (xs @ ys) = List.map_filter f xs @ List.map_filter f ys"
  by (simp add: List.map_filter_def)

lemma signers_append:
  "committed_signers sid (audit_append now sid' ev l) =
     committed_signers sid l
       @ (case ev of CommitmentReceived s \<Rightarrow> if sid' = sid then [s] else [] | _ \<Rightarrow> [])"
  "shared_signers sid (audit_append now sid' ev l) =
     shared_signers sid l
       @ (case ev of ShareReceived s \<Rightarrow> if sid' = sid then [s] else [] | _ \<Rightarrow> [])"
  by (auto simp: committed_signers_def shared_signers_def map_filter_append committed_signer_def
      shared_signer_def List.map_filter_simps split: audit_event.splits)

lemma session_ok_other: "sid \<noteq> sid' \<Longrightarrow> session_ok (audit_append now sid' ev l) sid s = session_ok l sid s"
  by (auto simp: session_ok_def signers_append split: audit_event.splits)

lemma coord_inv_new: "coord_inv coordinator_new"
  by (simp add: coord_inv_def coordinator_new_def audit_new_def)

lemma coord_inv_put:
  assumes "coord_inv c" "hm_get (sessions c) sid = Some s" "session_ok (audit c) sid s'"
  shows "coord_inv (put_session sid s' c)"
  using assms by (auto simp: coord_inv_def issued_def)

lemma coord_inv_touch:
  assumes "coord_inv c" "hm_get (sessions c) sid = Some s"
    "session_ok (audit_append now sid ev (audit c)) sid s'"
  shows "coord_inv (put_session sid s' (log_event now sid ev c))"
  using assms unfolding coord_inv_def
  by (auto simp: issued_def log_entries_append session_ok_other)

lemma coord_invD:
  assumes "coord_inv c" "hm_get (sessions c) sid = Some s"
  shows "session_ok (audit c) sid s" "issued c sid"
  using assms by (auto simp: coord_inv_def)

lemma issued_next: "next_id c \<noteq> - 1 \<Longrightarrow> unat (next_id c + 1) = Suc (unat (next_id c))"
  by (rule unat_plus_1)

section \<open>Every operation keeps the invariant\<close>

lemma create_inv [inv_intros]:
  assumes "coord_inv c" "next_id c \<noteq> - 1"
  shows "coord_inv (snd (create_session now req c))"
proof -
  let ?sid = "session_name (unat (next_id c))"
  have fresh: "\<not> issued c ?sid" by (simp add: issued_def)
  then have none: "entries_for ?sid (audit c) = []"
    using assms(1) by (auto simp: entries_for_def coord_inv_def filter_empty_conv)
  have mono: "issued c sid \<Longrightarrow> issued (snd (create_session now req c)) sid" for sid
    using issued_next [OF assms(2)] by (auto simp: issued_def create_session_def Let_def less_Suc_eq)
  have new: "issued (snd (create_session now req c)) ?sid"
    using issued_next [OF assms(2)] by (auto simp: issued_def create_session_def Let_def)
  show ?thesis
    using assms(1) mono new none fresh unfolding coord_inv_def
    by (auto simp: create_session_def Let_def log_entries_append session_ok_other session_ok_def
        committed_signers_def shared_signers_def List.map_filter_simps committed_signer_def
        shared_signer_def)
qed

lemma expire_inv:
  assumes "coord_inv c" "hm_get (sessions c) sid = Some s"
  shows "coord_inv (log_event now sid ExpiredEvent (put_session sid (s\<lparr>cs_state := st\<rparr>) c))"
  unfolding log_put_commute using assms coord_invD [OF assms]
  by (intro coord_inv_touch) (auto simp: session_ok_def signers_append)

lemma submit_commitment_inv [inv_intros]:
  assumes "coord_inv c" shows "coord_inv (snd (submit_commitment now sid com c))"
proof (cases "hm_get (sessions c) sid")
  case (Some s)
  note ok = coord_invD [OF assms Some]
  show ?thesis using Some assms ok
    by (auto simp: submit_commitment_def Let_def expire_inv session_ok_def signers_append
        intro!: coord_inv_touch [where s = s])
qed (simp add: submit_commitment_def assms)

lemma submit_share_inv [inv_intros]:
  assumes "coord_inv c" shows "coord_inv (snd (submit_share now sid sh c))"
proof (cases "hm_get (sessions c) sid")
  case (Some s)
  note ok = coord_invD [OF assms Some]
  show ?thesis using Some assms ok
    by (auto simp: submit_share_def expire_inv session_ok_def signers_append
        intro!: coord_inv_touch [where s = s])
qed (simp add: submit_share_def assms)

lemma aggregate_inv [inv_intros]:
  assumes "coord_inv c" shows "coord_inv (snd (aggregate sign now sid c))"
proof (cases "hm_get (sessions c) sid")
  case (Some s)
  note ok = coord_invD [OF assms Some]
  show ?thesis using Some assms ok
    by (auto simp: aggregate_def session_ok_def signers_append log_put_commute
        intro!: coord_inv_touch [where s = s] split: sum.splits)
qed (simp add: aggregate_def assms)

lemma set_session_state_inv [inv_intros]: "coord_inv c \<Longrightarrow> coord_inv (set_session_state sid st c)"
  using coord_invD [of c sid]
  by (auto simp: set_session_state_def session_ok_def intro!: coord_inv_put split: option.split)

lemma reap_one_inv: "coord_inv (fst cn) \<Longrightarrow> coord_inv (fst (reap_one now sid cn))"
  by (auto simp: reap_one_def set_session_state_def expire_inv split: prod.splits option.splits)

lemma reap_inv [inv_intros]: "coord_inv c \<Longrightarrow> coord_inv (fst (reap_expired_sessions now c))"
proof -
  have "coord_inv (fst cn) \<Longrightarrow> coord_inv (fst (fold (reap_one now) sids cn))" for sids cn
    by (induction sids arbitrary: cn) (simp_all add: reap_one_inv)
  then show "coord_inv c \<Longrightarrow> ?thesis" by (simp add: reap_expired_sessions_def)
qed

lemma exec_inv: "coord_inv c \<Longrightarrow> next_id c \<noteq> - 1 \<Longrightarrow> coord_inv (exec sign op c)"
  by (cases op) (auto intro: inv_intros)

lemma reachable_inv: "coord_reachable sign allowed c \<Longrightarrow> coord_inv c"
  by (induction rule: coord_reachable.induct) (simp_all add: coord_inv_new exec_inv)

section \<open>The audit log only grows\<close>

lemma reap_one_log: "prefix (log_entries (audit (fst cn))) (log_entries (audit (fst (reap_one now sid cn))))"
  by (auto simp: reap_one_def set_session_state_def log_entries_append split: prod.splits option.splits)

lemma reap_log: "prefix (log_entries (audit c)) (log_entries (audit (fst (reap_expired_sessions now c))))"
proof -
  have "prefix (log_entries (audit (fst cn))) (log_entries (audit (fst (fold (reap_one now) sids cn))))" for sids cn
  proof (induction sids arbitrary: cn)
    case (Cons sid sids)
    show ?case using reap_one_log [of cn now sid] Cons [of "reap_one now sid cn"]
      by (auto intro: prefix_order.trans)
  qed simp
  from this [of "(c, 0)"] show ?thesis by (simp add: reap_expired_sessions_def)
qed

lemma exec_log: "prefix (log_entries (audit c)) (log_entries (audit (exec sign op c)))"
  by (cases op)
    (auto simp: coord_ops Let_def log_entries_append reap_log split: option.splits sum.splits)

interpretation coord_log: append_only "exec sign" "\<lambda>_. True" "\<lambda>c. log_entries (audit c)"
  for sign
  by unfold_locales (simp_all add: exec_log)

section \<open>States and thresholds\<close>

text \<open>Without administrative changes of the state, the state of a session follows the counts.\<close>

definition state_ok :: "coordinator_session \<Rightarrow> bool" where
  "state_ok s \<longleftrightarrow>
     (cs_state s = Pending \<longrightarrow> length (cs_commitments s) < max 1 (unat (cs_threshold s))) \<and>
     (cs_state s = CommitmentsCollected \<longrightarrow> unat (cs_threshold s) \<le> length (cs_commitments s)) \<and>
     (cs_state s = Completed \<longrightarrow> unat (cs_threshold s) \<le> length (cs_shares s)) \<and>
     length (cs_commitments s) \<le> max 1 (unat (cs_threshold s)) \<and>
     cs_state s \<noteq> Aborted"

definition states_ok :: "coordinator \<Rightarrow> bool" where
  "states_ok c \<longleftrightarrow> (\<forall>sid s. hm_get (sessions c) sid = Some s \<longrightarrow> state_ok s)"

lemma states_ok_insert:
  assumes "states_ok c" "sessions c' = hm_insert sid s (sessions c)" "state_ok s"
  shows "states_ok c'"
  using assms by (auto simp: states_ok_def)

lemma expired_ok: "state_ok s \<Longrightarrow> state_ok (s\<lparr>cs_state := Expired\<rparr>)"
  by (auto simp: state_ok_def cs_threshold_def)

lemma submit_commitment_states:
  assumes "states_ok c" shows "states_ok (snd (submit_commitment now sid com c))"
proof (cases "hm_get (sessions c) sid")
  case (Some s)
  then have "state_ok s" using assms by (auto simp: states_ok_def)
  then show ?thesis using Some assms
    by (auto simp: submit_commitment_def Let_def states_ok_insert [OF assms] expired_ok)
      (auto simp: state_ok_def cs_threshold_def intro!: states_ok_insert [OF assms])
qed (simp add: submit_commitment_def assms)

lemma submit_share_states:
  assumes "states_ok c" shows "states_ok (snd (submit_share now sid sh c))"
proof (cases "hm_get (sessions c) sid")
  case (Some s)
  then have "state_ok s" using assms by (auto simp: states_ok_def)
  then show ?thesis using Some assms
    by (auto simp: submit_share_def states_ok_insert [OF assms] expired_ok)
      (auto simp: state_ok_def cs_threshold_def intro!: states_ok_insert [OF assms])
qed (simp add: submit_share_def assms)

lemma aggregate_states:
  assumes "states_ok c" shows "states_ok (snd (aggregate sign now sid c))"
proof (cases "hm_get (sessions c) sid")
  case (Some s)
  then have "state_ok s" using assms by (auto simp: states_ok_def)
  then have "state_ok (s\<lparr>cs_state := Completed, cs_completed_at := Some now\<rparr>)"
    if "unat (cs_threshold s) \<le> length (cs_shares s)"
    using that by (simp add: state_ok_def cs_threshold_def)
  then show ?thesis using Some assms
    by (auto simp: aggregate_def intro!: states_ok_insert [OF assms] split: sum.splits)
qed (simp add: aggregate_def assms)

lemma create_states: "states_ok c \<Longrightarrow> states_ok (snd (create_session now req c))"
  by (rule states_ok_insert) (simp_all add: create_session_def Let_def, simp add: state_ok_def)

lemma reap_states: "states_ok c \<Longrightarrow> states_ok (fst (reap_expired_sessions now c))"
proof -
  have one: "states_ok (fst cn) \<Longrightarrow> states_ok (fst (reap_one now sid cn))" for sid cn
    by (auto simp: reap_one_def set_session_state_def states_ok_def expired_ok split: prod.splits option.splits)
  have "states_ok (fst cn) \<Longrightarrow> states_ok (fst (fold (reap_one now) sids cn))" for sids cn
    by (induction sids arbitrary: cn) (simp_all add: one)
  then show "states_ok c \<Longrightarrow> ?thesis" by (simp add: reap_expired_sessions_def)
qed

lemma reachable_states: "coord_reachable sign is_service_op c \<Longrightarrow> states_ok c"
proof (induction rule: coord_reachable.induct)
  case coord_init
  show ?case by (simp add: states_ok_def coordinator_new_def)
next
  case (coord_step c op)
  then show ?case
    by (cases op) (simp_all add: create_states submit_commitment_states submit_share_states
        aggregate_states reap_states)
qed
section \<open>What a reaping pass does\<close>

definition due :: "instant \<Rightarrow> coordinator_session \<Rightarrow> bool" where
  "due now s \<longleftrightarrow> cs_state s = Pending \<and> \<not> is_unlocked s now"

lemma reap_fold:
  assumes "distinct sids" "fold (reap_one now) sids (c, n) = (c', n')"
    and "\<forall>sid\<in>set sids. get_session_state sid c = Some Pending"
  shows "(\<forall>sid. hm_get (sessions c') sid =
           (if sid \<in> set sids
            then map_option (\<lambda>s. if due now s then s\<lparr>cs_state := Expired\<rparr> else s) (hm_get (sessions c) sid)
            else hm_get (sessions c) sid)) \<and>
         n' = n + length (filter (\<lambda>sid. \<exists>s. hm_get (sessions c) sid = Some s \<and> due now s) sids)"
  using assms
proof (induction sids arbitrary: c n)
  case (Cons x xs)
  obtain s where s: "hm_get (sessions c) x = Some s" "cs_state s = Pending"
    using Cons.prems(3) by (auto simp: get_session_state_def)
  obtain c1 n1 where one: "reap_one now x (c, n) = (c1, n1)" by (cases "reap_one now x (c, n)")
  have n1: "n1 = (if due now s then n + 1 else n)"
    and get: "hm_get (sessions c1) y =
      (if y = x \<and> due now s then Some (s\<lparr>cs_state := Expired\<rparr>) else hm_get (sessions c) y)" for y
    using one s by (auto simp: reap_one_def due_def set_session_state_def split: if_splits)
  have pend: "\<forall>sid\<in>set xs. get_session_state sid c1 = Some Pending"
    using Cons.prems get by (auto simp: get_session_state_def)
  have "fold (reap_one now) xs (c1, n1) = (c', n')" using Cons.prems(2) one by simp
  note ih = Cons.IH [OF _ this pend]
  have "filter (\<lambda>sid. \<exists>s. hm_get (sessions c1) sid = Some s \<and> due now s) xs =
      filter (\<lambda>sid. \<exists>s. hm_get (sessions c) sid = Some s \<and> due now s) xs"
    using Cons.prems(1) by (intro filter_cong) (auto simp: get)
  with ih Cons.prems(1) s n1 show ?case by (auto simp: get)
qed auto

lemma reap_sessions:
  assumes "hm_wf (sessions c)"
  shows "hm_get (sessions (fst (reap_expired_sessions now c))) sid =
     map_option (\<lambda>s. if due now s then s\<lparr>cs_state := Expired\<rparr> else s) (hm_get (sessions c) sid)"
proof -
  let ?p = "filter (\<lambda>sid. get_session_state sid c = Some Pending) (session_ids c)"
  obtain c' n' where r: "fold (reap_one now) ?p (c, 0) = (c', n')" by (cases "fold (reap_one now) ?p (c, 0)")
  have d: "distinct ?p" using assms by (simp add: session_ids_def hm_wf_def)
  have "\<forall>sid\<in>set ?p. get_session_state sid c = Some Pending" by simp
  from reap_fold [OF d r this] have get: "hm_get (sessions c') sid =
      (if sid \<in> set ?p then map_option (\<lambda>s. if due now s then s\<lparr>cs_state := Expired\<rparr> else s) (hm_get (sessions c) sid)
       else hm_get (sessions c) sid)" by blast
  have mem: "sid \<in> set ?p \<longleftrightarrow> get_session_state sid c = Some Pending"
    using hm_keys_iff [of sid "sessions c"] by (auto simp: session_ids_def get_session_state_def simp del: set_map)
  have res: "fst (reap_expired_sessions now c) = c'" by (simp add: reap_expired_sessions_def r)
  show ?thesis using get unfolding mem res
    by (cases "hm_get (sessions c) sid") (auto simp: get_session_state_def due_def)
qed

section \<open>Signers that ignore the order of the shares\<close>

text \<open>The contract of a signer whose result depends on the shares only as a collection, and what
  it gives the coordinator: the order in which the shares came in does not matter.\<close>

locale order_insensitive_signer =
  fixes sign :: threshold_signer
  assumes sign_mset: "mset shs = mset shs' \<Longrightarrow> sign sch shs t m = sign sch shs' t m"
begin

lemma aggregate_order:
  assumes "hm_get (sessions c) sid = Some s" "hm_get (sessions c') sid = Some s'"
    and "cs_request s = cs_request s'" "mset (map s_bytes (cs_shares s)) = mset (map s_bytes (cs_shares s'))"
  shows "map_sum id sig_bytes (fst (aggregate sign now sid c)) =
         map_sum id sig_bytes (fst (aggregate sign now' sid c'))"
proof -
  have "length (cs_shares s) = length (cs_shares s')" using mset_eq_length [OF assms(4)] by simp
  with assms sign_mset [OF assms(4)] show ?thesis
    by (simp add: aggregate_def cs_threshold_def split: sum.split)
qed

end

lemma length_xor_into [simp]: "length (xor_into as bs) = length as"
  by (induction as bs rule: xor_into.induct) auto

lemma xor_into_nth:
  "i < length as \<Longrightarrow> xor_into as bs ! i = (if i < length bs then xor (as ! i) (bs ! i) else as ! i)"
  by (induction as bs arbitrary: i rule: xor_into.induct) (auto simp: nth_Cons split: nat.split)

lemma xor_into_commute: "xor_into (xor_into as bs) cs = xor_into (xor_into as cs) bs"
  by (rule nth_equalityI) (simp_all add: xor_into_nth xor.assoc xor.commute xor.left_commute)

lemma mock_sign_mset:
  assumes "mset shs = mset shs'"
  shows "mock_sign sch shs t m = mock_sign sch shs' t m"
proof -
  let ?f = "\<lambda>sh acc. xor_into acc (take 64 sh)"
  have "fold ?f shs = fold ?f shs'"
    by (rule fold_multiset_equiv [OF _ assms]) (auto simp: fun_eq_iff xor_into_commute)
  then show ?thesis by (simp add: mock_sign_def foldl_conv_fold)
qed

interpretation mock_signer: order_insensitive_signer mock_sign
  by unfold_locales (rule mock_sign_mset)
end
