(* ===== verification/Coordinator_Properties.thy ===== *)
theory Coordinator_Properties
  imports Coordinator
begin

text \<open>
  The properties of the signing coordinator: what holds in every reachable state, what each
  operation returns, the audit log, the reaper and the default signer. The witnesses run a
  two-of-two session.
\<close>

section \<open>A session for the witnesses\<close>

definition demo_request :: session_request where
  "demo_request = \<lparr>quorum_id = ''q'', scheme = ''mock'', message = [1], req_threshold = 2,
     num_parties = 2, unlock_window_minutes = 1, requested_by = ''app''\<rparr>"

definition demo_commitment :: "signer_id \<Rightarrow> commitment" where
  "demo_commitment s = \<lparr>c_signer_id = s, c_bytes = [], c_signer_signature = [], c_submitted_at = 0\<rparr>"

definition demo_share :: "signer_id \<Rightarrow> u8 \<Rightarrow> share" where
  "demo_share s b = \<lparr>s_signer_id = s, s_bytes = [b], s_signer_signature = [], s_submitted_at = 0\<rparr>"

fun run_ops :: "threshold_signer \<Rightarrow> coord_op list \<Rightarrow> coordinator \<Rightarrow> coordinator" where
  "run_ops sign [] c = c"
| "run_ops sign (op # ops) c = run_ops sign ops (exec sign op c)"

fun no_overflow :: "threshold_signer \<Rightarrow> coord_op list \<Rightarrow> coordinator \<Rightarrow> bool" where
  "no_overflow sign [] c = True"
| "no_overflow sign (op # ops) c \<longleftrightarrow> next_id c \<noteq> - 1 \<and> no_overflow sign ops (exec sign op c)"

lemma run_ops_reachable:
  "coord_reachable sign P c \<Longrightarrow> list_all P ops \<Longrightarrow> no_overflow sign ops c \<Longrightarrow>
     coord_reachable sign P (run_ops sign ops c)"
  by (induction ops arbitrary: c) (auto intro: coord_step)

definition first_byte_signer :: threshold_signer where
  "first_byte_signer sch shs t m = Inr (map hd shs)"

definition demo_ops :: "coord_op list" where
  "demo_ops = [Create 0 demo_request, SubmitCommitment 1 ''session-0'' (demo_commitment ''a''),
     SubmitCommitment 2 ''session-0'' (demo_commitment ''b''), SubmitShare 3 ''session-0'' (demo_share ''a'' 5),
     SubmitShare 4 ''session-0'' (demo_share ''b'' 6)]"

definition demo_coord :: coordinator where
  "demo_coord = run_ops first_byte_signer demo_ops coordinator_new"

definition demo_session :: coordinator_session where
  "demo_session = \<lparr>cs_id = ''session-0'', cs_request = demo_request, cs_state = CommitmentsCollected,
     cs_commitments = [demo_commitment ''a'', demo_commitment ''b''],
     cs_shares = [demo_share ''a'' 5, demo_share ''b'' 6], cs_created_at = 0, cs_completed_at = None\<rparr>"

lemma demo_reachable:
  "coord_reachable first_byte_signer (\<lambda>_. True) demo_coord"
  "coord_reachable first_byte_signer is_service_op demo_coord"
proof -
  have "list_all is_service_op demo_ops" "no_overflow first_byte_signer demo_ops coordinator_new"
    by code_simp+
  then show "coord_reachable first_byte_signer (\<lambda>_. True) demo_coord"
    "coord_reachable first_byte_signer is_service_op demo_coord"
    unfolding demo_coord_def by (auto intro!: run_ops_reachable coord_init simp: list_all_iff)
qed

lemma demo_get: "hm_get (sessions demo_coord) ''session-0'' = Some demo_session"
  by code_simp

section \<open>Reachable states\<close>

text \<open>C4: In every reachable state, whatever the operations and their order and including
  administrative changes of the state, a session is filed under its own identifier, which the
  counter has issued; no signer appears twice among its commitments or its shares; and the audit
  log names exactly the signers whose commitments and shares the session holds, in the order of
  submission.\<close>

theorem coordinator_invariant:
  assumes "coord_reachable sign (\<lambda>_. True) c" and "hm_get (sessions c) sid = Some s"
  shows "cs_id s = sid \<and> (\<exists>n<unat (next_id c). sid = session_name n) \<and>
     distinct (map c_signer_id (cs_commitments s)) \<and> distinct (map s_signer_id (cs_shares s)) \<and>
     committed_signers sid (audit c) = map c_signer_id (cs_commitments s) \<and>
     shared_signers sid (audit c) = map s_signer_id (cs_shares s)"
  using coord_invD [OF reachable_inv [OF assms(1)] assms(2)] by (simp add: session_ok_def issued_def)

theorem coordinator_invariant_witness:
  "cs_id demo_session = ''session-0'' \<and> (\<exists>n<unat (next_id demo_coord). ''session-0'' = session_name n) \<and>
     distinct (map c_signer_id (cs_commitments demo_session)) \<and> distinct (map s_signer_id (cs_shares demo_session)) \<and>
     committed_signers ''session-0'' (audit demo_coord) = map c_signer_id (cs_commitments demo_session) \<and>
     shared_signers ''session-0'' (audit demo_coord) = map s_signer_id (cs_shares demo_session)"
  by (rule coordinator_invariant [OF demo_reachable(1) demo_get])

text \<open>A new session never reuses an identifier: the identifier that \<open>create_session\<close>
  returns belongs to no session and to no audit entry before, and all other sessions stay as
  they are.\<close>

theorem create_session_fresh:
  assumes "coord_reachable sign (\<lambda>_. True) c"
  shows "\<exists>sid c'. create_session now req c = (Inr sid, c') \<and>
     hm_get (sessions c) sid = None \<and> entries_for sid (audit c) = [] \<and>
     get_session_state sid c' = Some Pending \<and>
     (\<forall>other. other \<noteq> sid \<longrightarrow> hm_get (sessions c') other = hm_get (sessions c) other)"
proof -
  let ?sid = "session_name (unat (next_id c))"
  have inv: "coord_inv c" by (rule reachable_inv [OF assms])
  have fresh: "\<not> issued c ?sid" by (simp add: issued_def)
  have "hm_get (sessions c) ?sid = None"
    using coord_invD(2) [OF inv, of ?sid] fresh by (cases "hm_get (sessions c) ?sid") auto
  moreover have "entries_for ?sid (audit c) = []"
    using inv fresh by (auto simp: entries_for_def coord_inv_def filter_empty_conv)
  ultimately show ?thesis by (simp add: create_session_def Let_def get_session_state_def)
qed

theorem create_session_fresh_witness:
  "\<exists>sid c'. create_session 9 demo_request demo_coord = (Inr sid, c') \<and>
     hm_get (sessions demo_coord) sid = None \<and> entries_for sid (audit demo_coord) = [] \<and>
     get_session_state sid c' = Some Pending"
  using create_session_fresh [OF demo_reachable(1), of 9 demo_request] by blast

text \<open>Without administrative changes of the state, a session is \<open>Completed\<close> only with at
  least the threshold of shares, each from a different signer; it has collected its commitments
  only with at least the threshold of commitments; and it never holds more commitments than the
  threshold asks for (one if the threshold is zero).\<close>

theorem completed_has_threshold:
  assumes "coord_reachable sign is_service_op c" and "hm_get (sessions c) sid = Some s"
  shows "(cs_state s = Completed \<longrightarrow> unat (cs_threshold s) \<le> card (set (map s_signer_id (cs_shares s)))) \<and>
     (cs_state s = CommitmentsCollected \<longrightarrow>
        unat (cs_threshold s) \<le> card (set (map c_signer_id (cs_commitments s)))) \<and>
     length (cs_commitments s) \<le> max 1 (unat (cs_threshold s))"
proof -
  have "session_ok (audit c) sid s" by (rule coord_invD(1) [OF reachable_inv [OF assms(1)] assms(2)])
  moreover have "state_ok s" using reachable_states [OF assms(1)] assms(2) by (auto simp: states_ok_def)
  ultimately show ?thesis
    using distinct_card [of "map s_signer_id (cs_shares s)"] distinct_card [of "map c_signer_id (cs_commitments s)"]
    by (simp add: session_ok_def state_ok_def del: set_map)
qed

theorem completed_has_threshold_witness:
  "cs_state demo_session = CommitmentsCollected \<and>
   unat (cs_threshold demo_session) \<le> card (set (map c_signer_id (cs_commitments demo_session))) \<and>
   length (cs_commitments demo_session) \<le> max 1 (unat (cs_threshold demo_session))"
proof -
  have "cs_state demo_session = CommitmentsCollected" by (simp add: demo_session_def)
  then show ?thesis using completed_has_threshold [OF demo_reachable(2) demo_get] by blast
qed

section \<open>Aggregation\<close>

text \<open>When \<open>aggregate\<close> succeeds in a reachable state, the signature is what the signer
  makes of the shares held, the listed contributors are at least the threshold many, pairwise
  different and exactly those whose shares the audit log records, and the session is
  \<open>Completed\<close>. When it fails, the coordinator is unchanged.\<close>

theorem aggregate_correct:
  assumes "coord_reachable sign (\<lambda>_. True) c" and "aggregate sign now sid c = (r, c')"
  shows "case r of
     Inl e \<Rightarrow> c' = c
   | Inr sg \<Rightarrow> \<exists>s. hm_get (sessions c) sid = Some s \<and>
       sign (scheme (cs_request s)) (map s_bytes (cs_shares s)) (cs_threshold s) (message (cs_request s))
         = Inr (sig_bytes sg) \<and>
       unat (cs_threshold s) \<le> length (contributing_signers sg) \<and> distinct (contributing_signers sg) \<and>
       contributing_signers sg = shared_signers sid (audit c) \<and>
       get_session_state sid c' = Some Completed"
proof (cases "hm_get (sessions c) sid")
  case (Some s)
  have "session_ok (audit c) sid s" by (rule coord_invD(1) [OF reachable_inv [OF assms(1)] Some])
  with Some assms(2) show ?thesis
    by (auto simp: aggregate_def session_ok_def get_session_state_def split: if_splits sum.splits)
qed (use assms(2) in \<open>auto simp: aggregate_def\<close>)

theorem aggregate_correct_witness:
  "case fst (aggregate first_byte_signer 9 ''session-0'' demo_coord) of
     Inl e \<Rightarrow> snd (aggregate first_byte_signer 9 ''session-0'' demo_coord) = demo_coord
   | Inr sg \<Rightarrow> \<exists>s. hm_get (sessions demo_coord) ''session-0'' = Some s \<and>
       first_byte_signer (scheme (cs_request s)) (map s_bytes (cs_shares s)) (cs_threshold s)
         (message (cs_request s)) = Inr (sig_bytes sg) \<and>
       unat (cs_threshold s) \<le> length (contributing_signers sg) \<and> distinct (contributing_signers sg) \<and>
       contributing_signers sg = shared_signers ''session-0'' (audit demo_coord) \<and>
       get_session_state ''session-0'' (snd (aggregate first_byte_signer 9 ''session-0'' demo_coord)) = Some Completed"
  by (rule aggregate_correct [OF demo_reachable(1)]) simp

text \<open>With the default signer the signature does not depend on the order in which the shares
  were submitted: two coordinators whose sessions have the same request and the same shares up to
  order return the same signature bytes or the same error.\<close>

theorem mock_aggregate_order:
  assumes "hm_get (sessions c) sid = Some s" and "hm_get (sessions c') sid = Some s'"
    and "cs_request s = cs_request s'" and "mset (map s_bytes (cs_shares s)) = mset (map s_bytes (cs_shares s'))"
  shows "map_sum id sig_bytes (fst (aggregate mock_sign now sid c)) =
         map_sum id sig_bytes (fst (aggregate mock_sign now' sid c'))"
  using assms by (rule mock_signer.aggregate_order)

theorem mock_aggregate_order_witness:
  "map_sum id sig_bytes (fst (aggregate mock_sign 9 ''session-0'' demo_coord)) =
   map_sum id sig_bytes (fst (aggregate mock_sign 10 ''session-0''
     (put_session ''session-0'' (demo_session\<lparr>cs_shares := rev (cs_shares demo_session)\<rparr>) demo_coord)))"
  by (rule mock_aggregate_order [OF demo_get, where s' = "demo_session\<lparr>cs_shares := rev (cs_shares demo_session)\<rparr>"])
    (simp_all add: demo_session_def add_mset_commute)

section \<open>Expiry\<close>

text \<open>\<open>aggregate\<close> looks neither at the state nor at the unlock window: for a session in any
  state, also \<open>Expired\<close> and \<open>Aborted\<close>, with enough shares and a signer that succeeds, the session
  becomes \<open>Completed\<close>.\<close>

theorem aggregate_ignores_state:
  assumes "hm_get (sessions c) sid = Some s" and "unat (cs_threshold s) \<le> length (cs_shares s)"
    and "sign (scheme (cs_request s)) (map s_bytes (cs_shares s)) (cs_threshold s)
           (message (cs_request s)) = Inr sg"
  shows "get_session_state sid (snd (aggregate sign now sid c)) = Some Completed"
  using assms by (simp add: aggregate_def get_session_state_def)

theorem aggregate_ignores_state_witness:
  "get_session_state ''session-0'' (snd (aggregate first_byte_signer 9 ''session-0''
     (set_session_state ''session-0'' Expired demo_coord))) = Some Completed"
  by (rule aggregate_ignores_state [where s = "demo_session\<lparr>cs_state := Expired\<rparr>" and sg = "[5, 6]"])
    (simp_all add: set_session_state_def demo_get demo_session_def cs_threshold_def demo_request_def
      first_byte_signer_def demo_share_def)

text \<open>A commitment or share that arrives after the unlock window is refused and turns the
  session to \<open>Expired\<close> whatever state it is in, also \<open>Completed\<close>, with one more expiry entry in the
  audit log each time.\<close>

theorem late_submission_expires:
  assumes "hm_get (sessions c) sid = Some s" and "\<not> is_unlocked s now"
  shows "fst (submit_share now sid sh c) = Inl (SessionExpired sid) \<and>
     get_session_state sid (snd (submit_share now sid sh c)) = Some Expired \<and>
     audit_count (audit (snd (submit_share now sid sh c))) = audit_count (audit c) + 1 \<and>
     fst (submit_commitment now sid com c) = Inl (SessionExpired sid) \<and>
     get_session_state sid (snd (submit_commitment now sid com c)) = Some Expired"
  using assms
  by (simp add: submit_share_def submit_commitment_def get_session_state_def audit_count_def log_entries_append)

theorem late_submission_expires_witness:
  "fst (submit_share 60000000001 ''session-0'' (demo_share ''c'' 1)
      (set_session_state ''session-0'' Completed demo_coord)) = Inl (SessionExpired ''session-0'') \<and>
   get_session_state ''session-0'' (snd (submit_share 60000000001 ''session-0'' (demo_share ''c'' 1)
      (set_session_state ''session-0'' Completed demo_coord))) = Some Expired \<and>
   audit_count (audit (snd (submit_share 60000000001 ''session-0'' (demo_share ''c'' 1)
      (set_session_state ''session-0'' Completed demo_coord)))) =
     audit_count (audit (set_session_state ''session-0'' Completed demo_coord)) + 1 \<and>
   fst (submit_commitment 60000000001 ''session-0'' (demo_commitment ''c'')
      (set_session_state ''session-0'' Completed demo_coord)) = Inl (SessionExpired ''session-0'') \<and>
   get_session_state ''session-0'' (snd (submit_commitment 60000000001 ''session-0'' (demo_commitment ''c'')
      (set_session_state ''session-0'' Completed demo_coord))) = Some Expired"
  by (rule late_submission_expires [where s = "demo_session\<lparr>cs_state := Completed\<rparr>"])
    (simp_all add: set_session_state_def demo_get is_unlocked_def expires_at_def demo_session_def
      demo_request_def minutes_def)

text \<open>A reaping pass turns to \<open>Expired\<close> exactly the sessions that are \<open>Pending\<close> with their
  unlock window elapsed and leaves every other session as it is; in particular a session that has
  collected its commitments stays, however old it is.\<close>

theorem reap_exactly_due:
  assumes "coord_reachable sign (\<lambda>_. True) c"
  shows "hm_get (sessions (fst (reap_expired_sessions now c))) sid =
     map_option (\<lambda>s. if cs_state s = Pending \<and> \<not> is_unlocked s now then s\<lparr>cs_state := Expired\<rparr> else s)
       (hm_get (sessions c) sid)"
  using reap_sessions [of c now sid] reachable_inv [OF assms] by (simp add: coord_inv_def due_def)

theorem reap_exactly_due_witness:
  "hm_get (sessions (fst (reap_expired_sessions 60000000001 demo_coord))) ''session-0'' =
     map_option (\<lambda>s. if cs_state s = Pending \<and> \<not> is_unlocked s 60000000001 then s\<lparr>cs_state := Expired\<rparr> else s)
       (hm_get (sessions demo_coord) ''session-0'')"
  by (rule reap_exactly_due [OF demo_reachable(1)])

section \<open>The audit log\<close>

text \<open>No sequence of operations removes, changes or reorders an audit entry: the log before
  is a prefix of the log after.\<close>

theorem coordinator_audit_append_only:
  "prefix (log_entries (audit c)) (log_entries (audit (run_ops sign ops c)))"
proof -
  have "run_ops sign ops c = fold (exec sign) ops c" by (induction ops arbitrary: c) auto
  then show ?thesis using coord_log.run_log [of c sign ops] by simp
qed

end
