(* ===== verification/Session_Services.thy ===== *)
theory Session_Services
  imports Coordinator_Properties
begin

text \<open>
  Services around the coordinator (\<open>confium-coordinator/src/coordinator/\<close>): the policy engine
  (\<open>policy.rs\<close>) and idempotent session creation (\<open>idempotency.rs\<close>). A rule of the policy engine
  is a function; the trait \<open>IdempotencyStore\<close> is a locale, interpreted on the in-memory store.
\<close>

section \<open>Policy engine\<close>

record policy_context =
  ctx_now :: instant
  quorum_active_sessions :: nat

datatype policy_denial =
    OutsideTimeWindow u32 u32 u32
  | TooManySessions nat nat
  | MessageTooLarge nat nat
  | ThresholdTooHigh u32 u32

type_synonym rule = "session_request \<Rightarrow> policy_context \<Rightarrow> policy_denial + unit"

text \<open>\<open>Timelike::hour\<close> of a UTC time.\<close>

definition hour_of :: "instant \<Rightarrow> u32" where
  "hour_of t = word_of_int (t div 3600000000000 mod 24)"

definition time_window_rule :: "u32 \<Rightarrow> u32 \<Rightarrow> rule" where
  "time_window_rule start_hour end_hour req ctx =
     (let hour = hour_of (ctx_now ctx)
      in if start_hour \<le> hour \<and> hour < end_hour then Inr ()
         else Inl (OutsideTimeWindow hour start_hour end_hour))"

definition max_concurrent_sessions_rule :: "nat \<Rightarrow> rule" where
  "max_concurrent_sessions_rule mx req ctx =
     (if mx \<le> quorum_active_sessions ctx then Inl (TooManySessions (quorum_active_sessions ctx) mx)
      else Inr ())"

definition message_size_rule :: "nat \<Rightarrow> rule" where
  "message_size_rule max_bytes req ctx =
     (if max_bytes < length (message req) then Inl (MessageTooLarge (length (message req)) max_bytes)
      else Inr ())"

definition max_threshold_rule :: "u32 \<Rightarrow> rule" where
  "max_threshold_rule mx req ctx =
     (if mx < req_threshold req then Inl (ThresholdTooHigh (req_threshold req) mx) else Inr ())"

record policy_engine =
  rules :: "rule list"

definition policy_engine_new :: policy_engine where
  "policy_engine_new = \<lparr>rules = []\<rparr>"

definition add_rule :: "rule \<Rightarrow> policy_engine \<Rightarrow> policy_engine" where
  "add_rule r e = e\<lparr>rules := rules e @ [r]\<rparr>"

fun evaluate_rules :: "rule list \<Rightarrow> session_request \<Rightarrow> policy_context \<Rightarrow> policy_denial + unit" where
  "evaluate_rules [] req ctx = Inr ()"
| "evaluate_rules (r # rs) req ctx = try_bind (r req ctx) (\<lambda>_. evaluate_rules rs req ctx)"

definition policy_evaluate :: "policy_engine \<Rightarrow> session_request \<Rightarrow> policy_context \<Rightarrow> policy_denial + unit" where
  "policy_evaluate e = evaluate_rules (rules e)"

lemma evaluate_rules_Inr: "evaluate_rules rs req ctx = Inr () \<longleftrightarrow> (\<forall>r\<in>set rs. r req ctx = Inr ())"
  by (induction rs) (auto simp: try_bind_Inr_iff)

lemma evaluate_rules_Inl:
  "evaluate_rules rs req ctx = Inl d \<longleftrightarrow>
     (\<exists>i<length rs. (rs ! i) req ctx = Inl d \<and> (\<forall>j<i. (rs ! j) req ctx = Inr ()))"
proof (induction rs)
  case (Cons r rs)
  show ?case
  proof (cases "r req ctx")
    case (Inl e)
    then show ?thesis by (simp add: Ex_less_Suc2 All_less_Suc2)
  next
    case (Inr u)
    then show ?thesis using Cons by (simp add: Ex_less_Suc2 All_less_Suc2)
  qed
qed simp

text \<open>The policy engine allows a request exactly when every rule allows it, and otherwise
  reports the denial of the first rule, in the order of registration, that denies it.\<close>

theorem policy_first_denial:
  "(policy_evaluate e req ctx = Inr () \<longleftrightarrow> list_all (\<lambda>r. r req ctx = Inr ()) (rules e)) \<and>
   (policy_evaluate e req ctx = Inl d \<longleftrightarrow>
      (\<exists>i<length (rules e). (rules e ! i) req ctx = Inl d \<and>
         list_all (\<lambda>r. r req ctx = Inr ()) (take i (rules e))))"
  unfolding policy_evaluate_def evaluate_rules_Inr evaluate_rules_Inl
  by (intro conjI) (simp add: list_all_iff, simp add: list_all_take cong: conj_cong)

section \<open>Idempotent session creation\<close>

type_synonym idempotency_map = "(string \<times> session_id) list"

definition idem_lookup :: "string \<Rightarrow> idempotency_map \<Rightarrow> session_id option" where
  "idem_lookup key st = hm_get st key"

definition idem_record :: "string \<Rightarrow> session_id \<Rightarrow> idempotency_map \<Rightarrow> idempotency_map" where
  "idem_record key sid st = hm_insert key sid st"

text \<open>\<open>create_session_with_idempotacy\<close> over any store, given by its two operations.\<close>

definition create_session_with_idempotacy ::
    "(string \<Rightarrow> 's \<Rightarrow> session_id option) \<Rightarrow> (string \<Rightarrow> session_id \<Rightarrow> 's \<Rightarrow> 's)
      \<Rightarrow> instant \<Rightarrow> session_request \<Rightarrow> string \<Rightarrow> coordinator \<times> 's
      \<Rightarrow> (session_error + session_id) \<times> coordinator \<times> 's" where
  "create_session_with_idempotacy lookup rec now req key cs =
     (case cs of (c, st) \<Rightarrow>
        (case lookup key st of
           Some existing \<Rightarrow> (Inr existing, c, st)
         | None \<Rightarrow>
             (case create_session now req c of
                (Inl e, c') \<Rightarrow> (Inl e, c', st)
              | (Inr sid, c') \<Rightarrow> (Inr sid, c', rec key sid st))))"

fun idem_calls ::
    "(string \<Rightarrow> 's \<Rightarrow> session_id option) \<Rightarrow> (string \<Rightarrow> session_id \<Rightarrow> 's \<Rightarrow> 's)
      \<Rightarrow> (instant \<times> session_request \<times> string) list \<Rightarrow> coordinator \<times> 's \<Rightarrow> coordinator \<times> 's" where
  "idem_calls lookup rec [] cs = cs"
| "idem_calls lookup rec ((now, req, key) # calls) cs =
     idem_calls lookup rec calls (snd (create_session_with_idempotacy lookup rec now req key cs))"

text \<open>The contract of an idempotency store, and what it gives: a key is answered with one session
  for good, and the sessions created are counted by the new keys.\<close>

locale idempotency_store =
  fixes lookup :: "string \<Rightarrow> 's \<Rightarrow> session_id option"
    and rec :: "string \<Rightarrow> session_id \<Rightarrow> 's \<Rightarrow> 's"
  assumes lookup_rec: "lookup k (rec k' sid st) = (if k = k' then Some sid else lookup k st)"
begin

abbreviation create where
  "create \<equiv> create_session_with_idempotacy lookup rec"

lemma create_lookup:
  assumes "create now req key (c, st) = (r, c', st')"
  shows "\<exists>sid. r = Inr sid \<and> lookup key st' = Some sid"
    and "lookup k st = Some sid \<Longrightarrow> lookup k st' = Some sid"
    and "next_id c' = next_id c + (if lookup key st = None then 1 else 0)"
    and "k \<noteq> key \<Longrightarrow> lookup k st' = lookup k st"
  using assms
  by (auto simp: create_session_with_idempotacy_def create_session_def Let_def lookup_rec
      split: option.splits)

lemma calls_lookup:
  "lookup k st = Some sid \<Longrightarrow> idem_calls lookup rec calls (c, st) = (c', st') \<Longrightarrow> lookup k st' = Some sid"
proof (induction calls arbitrary: c st)
  case (Cons call calls)
  obtain now req key where call: "call = (now, req, key)" by (cases call) auto
  obtain r d s where step: "create now req key (c, st) = (r, d, s)" by (cases "create now req key (c, st)") auto
  show ?case using Cons.IH [of s d] create_lookup(2) [OF step Cons.prems(1)] Cons.prems(2) step call by simp
qed simp

lemma retry_same:
  assumes "create now req key (c, st) = (r, c1, st1)" "idem_calls lookup rec calls (c1, st1) = (c2, st2)"
  shows "create now' req' key (c2, st2) = (r, c2, st2)"
proof -
  obtain sid where "r = Inr sid" "lookup key st1 = Some sid" using create_lookup(1) [OF assms(1)] by auto
  with calls_lookup [OF _ assms(2)] show ?thesis by (simp add: create_session_with_idempotacy_def)
qed

lemma calls_count:
  assumes "idem_calls lookup rec calls (c, st) = (c', st')"
  shows "next_id c' = next_id c + of_nat (card ({k. lookup k st = None} \<inter> snd ` snd ` set calls))"
  using assms
proof (induction calls arbitrary: c st)
  case (Cons call calls)
  obtain now req key where call: "call = (now, req, key)" by (cases call) auto
  obtain r d s where step: "create now req key (c, st) = (r, d, s)" by (cases "create now req key (c, st)") auto
  let ?K = "snd ` snd ` set calls"
  have ih: "next_id c' = next_id d + of_nat (card ({k. lookup k s = None} \<inter> ?K))"
    using Cons step call by simp
  have "lookup k s = None \<longleftrightarrow> lookup k st = None \<and> k \<noteq> key" for k
    using create_lookup(1,4) [OF step] by (cases "k = key") auto
  then have eq: "{k. lookup k s = None} \<inter> ?K = ({k. lookup k st = None} \<inter> insert key ?K) - {key}" by auto
  have "card ({k. lookup k st = None} \<inter> insert key ?K) =
      card ({k. lookup k s = None} \<inter> ?K) + (if lookup key st = None then 1 else 0)"
    unfolding eq by (auto simp: card_Diff_singleton_if card_gt_0_iff)
  then show ?case using ih create_lookup(3) [OF step] call by auto
qed simp

end

interpretation mem_idem: idempotency_store idem_lookup idem_record
  by unfold_locales (simp add: idem_lookup_def idem_record_def)

text \<open>A retried request with the same idempotency key, however many calls with whatever keys
  came in between, returns the session of the first call and changes neither the coordinator nor
  the store. From an empty store the coordinator creates one session per distinct key.\<close>

theorem idempotent_creation:
  assumes "create_session_with_idempotacy idem_lookup idem_record now req key (c, st) = (r, c1, st1)"
    and "idem_calls idem_lookup idem_record calls (c1, st1) = (c2, st2)"
  shows "create_session_with_idempotacy idem_lookup idem_record now' req' key (c2, st2) = (r, c2, st2) \<and>
     next_id (fst (idem_calls idem_lookup idem_record calls' (c, []))) =
       next_id c + of_nat (card (snd ` snd ` set calls'))"
proof -
  obtain c' st' where r: "idem_calls idem_lookup idem_record calls' (c, []) = (c', st')"
    by (cases "idem_calls idem_lookup idem_record calls' (c, [])")
  show ?thesis using mem_idem.retry_same [OF assms] mem_idem.calls_count [OF r] r
    by (simp add: idem_lookup_def)
qed

theorem idempotent_creation_witness:
  "create_session_with_idempotacy idem_lookup idem_record 5 demo_request ''k''
     (fst (snd (create_session_with_idempotacy idem_lookup idem_record 1 demo_request ''k'' (demo_coord, []))),
      snd (snd (create_session_with_idempotacy idem_lookup idem_record 1 demo_request ''k'' (demo_coord, []))))
   = create_session_with_idempotacy idem_lookup idem_record 1 demo_request ''k'' (demo_coord, []) \<and>
   next_id (fst (idem_calls idem_lookup idem_record [(1, demo_request, ''k''), (2, demo_request, ''k'')] (demo_coord, [])))
     = next_id demo_coord + of_nat (card (snd ` snd ` set [(1, demo_request, ''k''), (2::int, demo_request, ''k'')]))"
proof -
  obtain r c1 st1 where s: "create_session_with_idempotacy idem_lookup idem_record 1 demo_request ''k'' (demo_coord, []) = (r, c1, st1)"
    by (cases "create_session_with_idempotacy idem_lookup idem_record 1 demo_request ''k'' (demo_coord, [])") auto
  show ?thesis
    using idempotent_creation [OF s, of "[]" c1 st1 5 demo_request "[(1, demo_request, ''k''), (2, demo_request, ''k'')]"] s
    by simp
qed

end
