(* ===== verification/Session_Store.thy ===== *)
theory Session_Store
  imports Confium_Base
begin

text \<open>
  The session stores (\<open>confium-coordinator/src/coordinator/store.rs\<close>), session deadlines
  (\<open>session_timeout.rs\<close>) and checkpoints (\<open>checkpoint.rs\<close>). The trait \<open>SessionStore\<close> is the
  locale \<open>session_store\<close>, interpreted on the in-memory store. For the file store the JSON codec and
  the failures of the file system are arguments; the directory is a map from file names to
  contents.
\<close>

section \<open>Stores\<close>

record session_snapshot =
  snap_id :: string
  state_json :: string
  snapshot_at :: instant

datatype store_error = Io string | Serialization string

type_synonym mem_store = "(string \<times> session_snapshot) list"

definition mem_save :: "session_snapshot \<Rightarrow> mem_store \<Rightarrow> (store_error + unit) \<times> mem_store" where
  "mem_save snap st = (Inr (), hm_insert (snap_id snap) snap st)"

definition mem_load :: "string \<Rightarrow> mem_store \<Rightarrow> store_error + session_snapshot option" where
  "mem_load sid st = Inr (hm_get st sid)"

definition mem_delete :: "string \<Rightarrow> mem_store \<Rightarrow> (store_error + unit) \<times> mem_store" where
  "mem_delete sid st = (Inr (), hm_remove sid st)"

definition mem_list :: "mem_store \<Rightarrow> store_error + string list" where
  "mem_list st = Inr (hm_keys st)"

text \<open>The contract of a session store.\<close>

locale session_store =
  fixes save :: "session_snapshot \<Rightarrow> 's \<Rightarrow> (store_error + unit) \<times> 's"
    and load :: "string \<Rightarrow> 's \<Rightarrow> store_error + session_snapshot option"
    and delete :: "string \<Rightarrow> 's \<Rightarrow> (store_error + unit) \<times> 's"
    and ids :: "'s \<Rightarrow> store_error + string list"
  assumes load_save: "save snap st = (Inr (), st') \<Longrightarrow>
      load sid st' = (if sid = snap_id snap then Inr (Some snap) else load sid st)"
    and load_delete: "delete sid' st = (Inr (), st') \<Longrightarrow>
      load sid st' = (if sid = sid' then Inr None else load sid st)"
    and ids_load: "ids st = Inr xs \<Longrightarrow> sid \<in> set xs \<longleftrightarrow> load sid st \<noteq> Inr None"
begin

lemma save_restore:
  assumes "save snap st = (Inr (), st')" "ids st' = Inr xs"
  shows "snap_id snap \<in> set xs" "load (snap_id snap) st' = Inr (Some snap)"
  using load_save [OF assms(1)] ids_load [OF assms(2)] by simp_all

lemma last_save_wins:
  assumes "save a st = (Inr (), st1)" "save b st1 = (Inr (), st2)" "snap_id a = snap_id b"
  shows "load (snap_id a) st2 = Inr (Some b)"
  using load_save [OF assms(2), of "snap_id a"] assms(3) by simp

lemma delete_forgets:
  assumes "save a st = (Inr (), st1)" "delete (snap_id a) st1 = (Inr (), st2)" "ids st2 = Inr xs"
  shows "snap_id a \<notin> set xs" "sid \<noteq> snap_id a \<Longrightarrow> load sid st2 = load sid st"
  using load_delete [OF assms(2)] ids_load [OF assms(3)] load_save [OF assms(1)] by simp_all

end

interpretation mem_sessions: session_store mem_save mem_load mem_delete mem_list
proof unfold_locales
  fix st xs sid assume "mem_list st = Inr xs"
  then show "sid \<in> set xs \<longleftrightarrow> mem_load sid st \<noteq> Inr None"
    using hm_keys_iff [of sid st] by (simp add: mem_list_def mem_load_def del: set_map)
qed (auto simp: mem_save_def mem_load_def mem_delete_def)

section \<open>The file store\<close>

type_synonym dir = "(string \<times> string) list"

definition replace_slash :: "string \<Rightarrow> string" where
  "replace_slash = map (\<lambda>c. if c = CHR ''/'' then CHR ''_'' else c)"

definition session_path :: "string \<Rightarrow> string" where
  "session_path sid = replace_slash sid @ ''.json''"

definition file_save ::
    "(session_snapshot \<Rightarrow> string + string) \<Rightarrow> (string \<Rightarrow> string option) \<Rightarrow> session_snapshot \<Rightarrow> dir
      \<Rightarrow> (store_error + unit) \<times> dir" where
  "file_save to_json fails snap d =
     (case to_json snap of
        Inl e \<Rightarrow> (Inl (Serialization e), d)
      | Inr json \<Rightarrow>
          (case fails (session_path (snap_id snap)) of
             Some e \<Rightarrow> (Inl (Io e), d)
           | None \<Rightarrow> (Inr (), hm_insert (session_path (snap_id snap)) json d)))"

definition file_load ::
    "(string \<Rightarrow> string + session_snapshot) \<Rightarrow> (string \<Rightarrow> string option) \<Rightarrow> string \<Rightarrow> dir
      \<Rightarrow> store_error + session_snapshot option" where
  "file_load from_json fails sid d =
     (case hm_get d (session_path sid) of
        None \<Rightarrow> Inr None
      | Some contents \<Rightarrow>
          (case fails (session_path sid) of
             Some e \<Rightarrow> Inl (Io e)
           | None \<Rightarrow>
               (case from_json contents of
                  Inl e \<Rightarrow> Inl (Serialization e)
                | Inr snap \<Rightarrow> Inr (Some snap))))"

definition file_delete ::
    "(string \<Rightarrow> string option) \<Rightarrow> string \<Rightarrow> dir \<Rightarrow> (store_error + unit) \<times> dir" where
  "file_delete fails sid d =
     (if hm_get d (session_path sid) = None then (Inr (), d)
      else case fails (session_path sid) of
             Some e \<Rightarrow> (Inl (Io e), d)
           | None \<Rightarrow> (Inr (), hm_remove (session_path sid) d))"

definition strip_json :: "string \<Rightarrow> string option" where
  "strip_json name =
     (if suffix ''.json'' name then Some (take (length name - 5) name) else None)"

definition file_list :: "dir \<Rightarrow> store_error + string list" where
  "file_list d = Inr (List.map_filter strip_json (hm_keys d))"

lemma session_path_inject:
  assumes "CHR ''/'' \<notin> set a" "CHR ''/'' \<notin> set b" "session_path a = session_path b"
  shows "a = b"
proof -
  have "replace_slash c = c" if "CHR ''/'' \<notin> set c" for c
    using that by (auto simp: replace_slash_def intro: map_idI)
  then show ?thesis using assms by (simp add: session_path_def)
qed

text \<open>With a JSON codec that reads back what it writes and no I/O failure, a snapshot that
  was saved under an identifier without a slash is loaded back unchanged, also after another
  snapshot with a different slash-free identifier was saved.\<close>

theorem file_store_roundtrip:
  assumes "\<And>s. \<exists>j. to_json s = Inr j \<and> from_json j = Inr s" and "\<And>p. fails p = None"
    and "CHR ''/'' \<notin> set (snap_id a)" and "CHR ''/'' \<notin> set (snap_id b)" and "snap_id a \<noteq> snap_id b"
  shows "file_load from_json fails (snap_id a)
     (snd (file_save to_json fails b (snd (file_save to_json fails a d)))) = Inr (Some a)"
proof -
  obtain ja jb where "to_json a = Inr ja" "from_json ja = Inr a" "to_json b = Inr jb"
    using assms(1) by metis
  moreover have "session_path (snap_id a) \<noteq> session_path (snap_id b)"
    using session_path_inject assms(3-5) by blast
  ultimately show ?thesis using assms(2) by (simp add: file_save_def file_load_def)
qed

definition demo_snap :: "string \<Rightarrow> session_snapshot" where
  "demo_snap sid = \<lparr>snap_id = sid, state_json = [], snapshot_at = 0\<rparr>"

text \<open>A codec for the witness: the number of characters of the parts in unary, then the parts.\<close>

definition demo_enc :: "session_snapshot \<Rightarrow> string + string" where
  "demo_enc s = Inr (replicate (length (snap_id s)) CHR ''i'' @ ''.'' @ snap_id s
     @ replicate (length (state_json s)) CHR ''j'' @ ''.'' @ state_json s
     @ (if snapshot_at s < 0 then ''-'' else ''+'') @ replicate (nat \<bar>snapshot_at s\<bar>) CHR ''n'')"

definition take_part :: "char \<Rightarrow> string \<Rightarrow> string \<times> string" where
  "take_part c s = (let n = length (takeWhile ((=) c) s) in (take n (drop (Suc n) s), drop (Suc (2 * n)) s))"

definition demo_dec :: "string \<Rightarrow> string + session_snapshot" where
  "demo_dec s = (case take_part CHR ''i'' s of (i, r) \<Rightarrow> case take_part CHR ''j'' r of (j, q) \<Rightarrow>
     Inr \<lparr>snap_id = i, state_json = j,
          snapshot_at = (if hd q = CHR ''-'' then - int (length (tl q)) else int (length (tl q)))\<rparr>)"

lemma take_part_enc: "c \<noteq> CHR ''.'' \<Longrightarrow> take_part c (replicate (length xs) c @ ''.'' @ xs @ r) = (xs, r)"
proof -
  assume "c \<noteq> CHR ''.''"
  then have "takeWhile ((=) c) (replicate (length xs) c @ ''.'' @ xs @ r) = replicate (length xs) c"
    by (subst takeWhile_append2) auto
  then show ?thesis by (simp add: take_part_def Let_def)
qed

lemma demo_codec: "\<exists>j. demo_enc s = Inr j \<and> demo_dec j = Inr s"
proof -
  have "take_part CHR ''i'' (replicate (length (snap_id s)) CHR ''i'' @ ''.'' @ snap_id s @ r) = (snap_id s, r)"
    "take_part CHR ''j'' (replicate (length (state_json s)) CHR ''j'' @ ''.'' @ state_json s @ r) = (state_json s, r)" for r
    by (simp_all add: take_part_enc del: append.simps)
  then show ?thesis by (simp add: demo_enc_def demo_dec_def del: append_Cons)
qed

theorem file_store_roundtrip_witness:
  "file_load demo_dec (\<lambda>_. None) (snap_id (demo_snap ''a''))
     (snd (file_save demo_enc (\<lambda>_. None) (demo_snap ''b'') (snd (file_save demo_enc (\<lambda>_. None) (demo_snap ''a'') []))))
   = Inr (Some (demo_snap ''a''))"
  by (rule file_store_roundtrip [OF demo_codec]) (simp_all add: demo_snap_def)

text \<open>Two sessions whose identifiers differ only by a slash and an underscore share one file:
  saving the second makes the store return the second snapshot for the identifier of the first.\<close>

theorem file_store_collision:
  assumes "\<And>s. \<exists>j. to_json s = Inr j \<and> from_json j = Inr s" and "\<And>p. fails p = None"
    and "snap_id a = ''a/b''" and "snap_id b = ''a_b''"
  shows "file_load from_json fails (snap_id a)
     (snd (file_save to_json fails b (snd (file_save to_json fails a d)))) = Inr (Some b)"
proof -
  obtain ja jb where "to_json a = Inr ja" "to_json b = Inr jb" "from_json jb = Inr b"
    using assms(1) by metis
  moreover have "session_path ''a/b'' = session_path ''a_b''"
    by (simp add: session_path_def replace_slash_def)
  ultimately show ?thesis using assms(2-4) by (simp add: file_save_def file_load_def)
qed

theorem file_store_collision_witness:
  "file_load demo_dec (\<lambda>_. None) (snap_id (demo_snap ''a/b''))
     (snd (file_save demo_enc (\<lambda>_. None) (demo_snap ''a_b'') (snd (file_save demo_enc (\<lambda>_. None) (demo_snap ''a/b'') []))))
   = Inr (Some (demo_snap ''a_b''))"
  by (rule file_store_collision [OF demo_codec]) (simp_all add: demo_snap_def)

section \<open>Session deadlines\<close>

record session_deadline =
  dl_session_id :: string
  dl_deadline :: instant

type_synonym timeout_manager = "(string \<times> instant) list"

definition set_deadline :: "instant \<Rightarrow> string \<Rightarrow> duration \<Rightarrow> timeout_manager \<Rightarrow> timeout_manager" where
  "set_deadline now sid timeout m = hm_insert sid (now + timeout) m"

definition clear_deadline :: "string \<Rightarrow> timeout_manager \<Rightarrow> timeout_manager" where
  "clear_deadline sid m = hm_remove sid m"

definition expired_sessions :: "instant \<Rightarrow> timeout_manager \<Rightarrow> session_deadline list" where
  "expired_sessions now m =
     map (\<lambda>(sid, d). \<lparr>dl_session_id = sid, dl_deadline = d\<rparr>) (filter (\<lambda>(sid, d). d < now) m)"

definition timeout_count :: "timeout_manager \<Rightarrow> nat" where
  "timeout_count m = length m"

definition is_expired :: "instant \<Rightarrow> string \<Rightarrow> timeout_manager \<Rightarrow> bool" where
  "is_expired now sid m = (case hm_get m sid of None \<Rightarrow> False | Some d \<Rightarrow> d < now)"

lemma expired_sessions_iff:
  "hm_wf m \<Longrightarrow> sid \<in> dl_session_id ` set (expired_sessions now m) \<longleftrightarrow> is_expired now sid m"
proof -
  assume wf: "hm_wf m"
  have "is_expired now sid m \<longleftrightarrow> (\<exists>d. hm_get m sid = Some d \<and> d < now)"
    by (auto simp: is_expired_def split: option.split)
  also have "\<dots> \<longleftrightarrow> (\<exists>d. (sid, d) \<in> set m \<and> d < now)" unfolding hm_get_iff [OF wf] ..
  also have "\<dots> \<longleftrightarrow> sid \<in> dl_session_id ` set (expired_sessions now m)"
    by (force simp: expired_sessions_def image_iff)
  finally show ?thesis by simp
qed

section \<open>Checkpoints\<close>

record checkpoint_config =
  interval :: duration
  max_entries_before_checkpoint :: nat

record checkpoint_manager =
  cp_config :: checkpoint_config
  last_checkpoint :: instant
  entries_since_checkpoint :: nat
  total_checkpoints :: u64

definition checkpoint_config_default :: checkpoint_config where
  "checkpoint_config_default = \<lparr>interval = seconds 300, max_entries_before_checkpoint = 1000\<rparr>"

definition checkpoint_new :: "instant \<Rightarrow> checkpoint_config \<Rightarrow> checkpoint_manager" where
  "checkpoint_new now cfg =
     \<lparr>cp_config = cfg, last_checkpoint = now, entries_since_checkpoint = 0, total_checkpoints = 0\<rparr>"

definition record_entry :: "checkpoint_manager \<Rightarrow> checkpoint_manager" where
  "record_entry m = m\<lparr>entries_since_checkpoint := entries_since_checkpoint m + 1\<rparr>"

definition should_checkpoint :: "instant \<Rightarrow> checkpoint_manager \<Rightarrow> bool" where
  "should_checkpoint now m \<longleftrightarrow>
     interval (cp_config m) \<le> now - last_checkpoint m \<or>
     max_entries_before_checkpoint (cp_config m) \<le> entries_since_checkpoint m"

definition checkpoint_taken :: "instant \<Rightarrow> checkpoint_manager \<Rightarrow> checkpoint_manager" where
  "checkpoint_taken now m =
     m\<lparr>last_checkpoint := now, entries_since_checkpoint := 0, total_checkpoints := total_checkpoints m + 1\<rparr>"

lemma should_checkpoint_records:
  assumes "entries_since_checkpoint m = 0"
  shows "max_entries_before_checkpoint (cp_config m) \<le> n \<Longrightarrow> should_checkpoint now ((record_entry ^^ n) m)"
proof -
  have "entries_since_checkpoint ((record_entry ^^ n) m) = n \<and> cp_config ((record_entry ^^ n) m) = cp_config m"
    using assms by (induction n) (simp_all add: record_entry_def)
  then show "max_entries_before_checkpoint (cp_config m) \<le> n \<Longrightarrow> ?thesis" by (simp add: should_checkpoint_def)
qed

end
