(* ===== verification/Batch_Signing.thy ===== *)
theory Batch_Signing
  imports Coordinator_Properties
begin

text \<open>
  Batch signing (\<open>confium-coordinator/src/coordinator/batch.rs\<close>) over the coordinator, and the
  attribution of blame for a failed aggregation (\<open>abort.rs\<close>). The batch error for a failed session
  carries the session error itself in place of its debug text; the dash in the text of a blame
  report is written as a hyphen.
\<close>

section \<open>Batches\<close>

record batch_session_request =
  b_quorum_id :: string
  b_scheme :: string
  b_messages :: "bytes list"
  b_threshold :: u32
  b_num_parties :: u32
  b_unlock_window_minutes :: u32
  b_requested_by :: string

record batch_session =
  batch_id :: string
  batch_sids :: "session_id list"
  batch_request :: batch_session_request

datatype batch_error =
    SessionFailed session_id session_error
  | BatchNotFound string
  | BatchEmpty
  | SessionCreation session_error

record batch_signer =
  bs_coordinator :: coordinator
  batches :: "(string \<times> batch_session) list"
  next_batch_id :: u64

definition batch_signer_new :: "coordinator \<Rightarrow> batch_signer" where
  "batch_signer_new c = \<lparr>bs_coordinator = c, batches = [], next_batch_id = 0\<rparr>"

definition request_for :: "batch_session_request \<Rightarrow> bytes \<Rightarrow> session_request" where
  "request_for br msg =
     \<lparr>quorum_id = b_quorum_id br, scheme = b_scheme br, message = msg, req_threshold = b_threshold br,
      num_parties = b_num_parties br, unlock_window_minutes = b_unlock_window_minutes br,
      requested_by = b_requested_by br\<rparr>"

fun create_sessions ::
    "instant \<Rightarrow> batch_session_request \<Rightarrow> bytes list \<Rightarrow> session_id list \<Rightarrow> coordinator
      \<Rightarrow> (session_error + session_id list) \<times> coordinator" where
  "create_sessions now br [] sids c = (Inr sids, c)"
| "create_sessions now br (m # ms) sids c =
     (case create_session now (request_for br m) c of
        (Inl e, c') \<Rightarrow> (Inl e, c')
      | (Inr sid, c') \<Rightarrow> create_sessions now br ms (sids @ [sid]) c')"

definition create_batch ::
    "instant \<Rightarrow> batch_session_request \<Rightarrow> batch_signer \<Rightarrow> (batch_error + string) \<times> batch_signer" where
  "create_batch now br bs =
     (if b_messages br = [] then (Inl BatchEmpty, bs)
      else let bid = ''batch-'' @ decimal (unat (next_batch_id bs))
           in (case create_sessions now br (b_messages br) [] (bs_coordinator bs) of
                 (Inl e, c') \<Rightarrow>
                   (Inl (SessionCreation e),
                    bs\<lparr>next_batch_id := next_batch_id bs + 1, bs_coordinator := c'\<rparr>)
               | (Inr sids, c') \<Rightarrow>
                   (Inr bid,
                    bs\<lparr>next_batch_id := next_batch_id bs + 1, bs_coordinator := c',
                       batches := hm_insert bid
                         \<lparr>batch_id = bid, batch_sids = sids, batch_request = br\<rparr> (batches bs)\<rparr>)))"

fun aggregate_sessions ::
    "threshold_signer \<Rightarrow> instant \<Rightarrow> session_id list \<Rightarrow> aggregated_signature list \<Rightarrow> coordinator
      \<Rightarrow> (batch_error + aggregated_signature list) \<times> coordinator" where
  "aggregate_sessions sign now [] results c = (Inr results, c)"
| "aggregate_sessions sign now (sid # sids) results c =
     (case aggregate sign now sid c of
        (Inr sg, c') \<Rightarrow> aggregate_sessions sign now sids (results @ [sg]) c'
      | (Inl e, c') \<Rightarrow> (Inl (SessionFailed sid e), c'))"

definition aggregate_batch ::
    "threshold_signer \<Rightarrow> instant \<Rightarrow> string \<Rightarrow> batch_signer
      \<Rightarrow> (batch_error + aggregated_signature list) \<times> batch_signer" where
  "aggregate_batch sign now bid bs =
     (case hm_get (batches bs) bid of
        None \<Rightarrow> (Inl (BatchNotFound bid), bs)
      | Some b \<Rightarrow>
          (case aggregate_sessions sign now (batch_sids b) [] (bs_coordinator bs) of
             (r, c') \<Rightarrow> (r, bs\<lparr>bs_coordinator := c'\<rparr>)))"

definition batch_session_ids :: "string \<Rightarrow> batch_signer \<Rightarrow> session_id list option" where
  "batch_session_ids bid bs = map_option batch_sids (hm_get (batches bs) bid)"

definition batch_count :: "batch_signer \<Rightarrow> nat" where
  "batch_count bs = length (batches bs)"

definition session_ready :: "coordinator \<Rightarrow> session_id \<Rightarrow> bool" where
  "session_ready c sid =
     (case (session_threshold sid c, session_share_count sid c) of
        (Some threshold, Some n) \<Rightarrow> unat threshold \<le> n
      | _ \<Rightarrow> False)"

definition is_batch_ready :: "string \<Rightarrow> batch_signer \<Rightarrow> bool" where
  "is_batch_ready bid bs =
     (case hm_get (batches bs) bid of
        None \<Rightarrow> False
      | Some b \<Rightarrow> list_all (session_ready (bs_coordinator bs)) (batch_sids b))"

definition batch_states :: "string \<Rightarrow> batch_signer \<Rightarrow> session_state list option" where
  "batch_states bid bs =
     map_option (\<lambda>b. List.map_filter (\<lambda>sid. get_session_state sid (bs_coordinator bs)) (batch_sids b))
       (hm_get (batches bs) bid)"

section \<open>Creating a batch\<close>

lemma create_session_eq:
  "create_session now req c =
     (Inr (session_name (unat (next_id c))),
      c\<lparr>next_id := next_id c + 1,
        audit := audit_append now (session_name (unat (next_id c)))
          (SessionCreated (requested_by req) (quorum_id req)) (audit c),
        sessions := hm_insert (session_name (unat (next_id c)))
          \<lparr>cs_id = session_name (unat (next_id c)), cs_request = req, cs_state = Pending,
           cs_commitments = [], cs_shares = [], cs_created_at = now, cs_completed_at = None\<rparr> (sessions c)\<rparr>)"
  by (simp add: create_session_def Let_def)

lemma create_sessions_spec:
  assumes "create_sessions now br ms sids c = (r, c')" "unat (next_id c) + length ms < 2 ^ 64"
  shows "r = Inr (sids @ map session_name [unat (next_id c)..<unat (next_id c) + length ms]) \<and>
     unat (next_id c') = unat (next_id c) + length ms \<and>
     (\<forall>i<length ms. \<exists>s. hm_get (sessions c') (session_name (unat (next_id c) + i)) = Some s \<and>
        cs_request s = request_for br (ms ! i) \<and> cs_state s = Pending) \<and>
     (\<forall>n<unat (next_id c). hm_get (sessions c') (session_name n) = hm_get (sessions c) (session_name n))"
  using assms
proof (induction ms arbitrary: sids c)
  case (Cons m ms)
  let ?n = "unat (next_id c)"
  obtain c1 where c1: "create_session now (request_for br m) c = (Inr (session_name ?n), c1)"
    by (simp add: create_session_eq)
  have "next_id c \<noteq> - 1" using Cons.prems(2) by (auto simp: unsigned_minus_1_eq_mask mask_eq_exp_minus_1)
  then have n1: "unat (next_id c1) = Suc ?n" using issued_next [of c] c1 by (auto simp: create_session_eq)
  have get1: "hm_get (sessions c1) (session_name ?n) = Some \<lparr>cs_id = session_name ?n,
      cs_request = request_for br m, cs_state = Pending, cs_commitments = [], cs_shares = [],
      cs_created_at = now, cs_completed_at = None\<rparr>"
    "\<And>k. k \<noteq> ?n \<Longrightarrow> hm_get (sessions c1) (session_name k) = hm_get (sessions c) (session_name k)"
    using c1 by (auto simp: create_session_eq)
  have ih: "r = Inr (sids @ [session_name ?n] @ map session_name [Suc ?n..<Suc ?n + length ms])"
    "unat (next_id c') = Suc ?n + length ms"
    "\<And>i. i < length ms \<Longrightarrow> \<exists>s. hm_get (sessions c') (session_name (Suc ?n + i)) = Some s \<and>
        cs_request s = request_for br (ms ! i) \<and> cs_state s = Pending"
    "\<And>k. k < Suc ?n \<Longrightarrow> hm_get (sessions c') (session_name k) = hm_get (sessions c1) (session_name k)"
    using Cons.IH [of "sids @ [session_name ?n]" c1] Cons.prems c1 n1 by auto
  have "\<exists>s. hm_get (sessions c') (session_name (?n + i)) = Some s \<and>
      cs_request s = request_for br ((m # ms) ! i) \<and> cs_state s = Pending" if "i < length (m # ms)" for i
  proof (cases i)
    case 0
    then show ?thesis using ih(4) [of ?n] get1(1) by simp
  next
    case (Suc j)
    then show ?thesis using ih(3) [of j] that by simp
  qed
  moreover have "[?n..<?n + length (m # ms)] = ?n # [Suc ?n..<Suc ?n + length ms]"
    using upt_rec [of ?n "?n + length (m # ms)"] by simp
  ultimately show ?case using ih get1(2) by auto
qed simp

text \<open>Creating a batch of a non-empty list of messages gives one new session per message:
  the identifiers are pairwise different, none was in use, session \<open>i\<close> is pending and carries
  message \<open>i\<close> with the quorum, scheme and threshold of the batch.\<close>

theorem create_batch_correct:
  assumes "coord_reachable sign (\<lambda>_. True) (bs_coordinator bs)" and "b_messages br \<noteq> []"
    and "unat (next_id (bs_coordinator bs)) + length (b_messages br) < 2 ^ 64"
  shows "\<exists>bid bs' sids. create_batch now br bs = (Inr bid, bs') \<and> batch_session_ids bid bs' = Some sids \<and>
     length sids = length (b_messages br) \<and> distinct sids \<and>
     (\<forall>sid\<in>set sids. hm_get (sessions (bs_coordinator bs)) sid = None) \<and>
     (\<forall>i<length sids. \<exists>s. hm_get (sessions (bs_coordinator bs')) (sids ! i) = Some s \<and>
        cs_request s = request_for br (b_messages br ! i) \<and> cs_state s = Pending)"
proof -
  let ?c = "bs_coordinator bs"
  let ?sids = "map session_name [unat (next_id ?c)..<unat (next_id ?c) + length (b_messages br)]"
  obtain r c' where cr: "create_sessions now br (b_messages br) [] ?c = (r, c')" by force
  note sp = create_sessions_spec [OF cr assms(3)]
  have "hm_get (sessions ?c) sid = None" if "sid \<in> set ?sids" for sid
    using that coord_invD(2) [OF reachable_inv [OF assms(1)], of sid]
    by (cases "hm_get (sessions ?c) sid") (auto simp: issued_def)
  moreover have "distinct ?sids" by (simp add: distinct_map inj_on_def)
  moreover have "\<exists>bid bs'. create_batch now br bs = (Inr bid, bs') \<and>
      batch_session_ids bid bs' = Some ?sids \<and> bs_coordinator bs' = c'"
    using assms(2) cr sp by (simp add: create_batch_def Let_def batch_session_ids_def)
  moreover have "\<forall>i<length ?sids. \<exists>s. hm_get (sessions c') (?sids ! i) = Some s \<and>
        cs_request s = request_for br (b_messages br ! i) \<and> cs_state s = Pending"
    using sp by simp
  ultimately show ?thesis by (metis length_map length_upt add_diff_cancel_left')
qed

definition demo_batch :: batch_session_request where
  "demo_batch = \<lparr>b_quorum_id = ''q'', b_scheme = ''mock'', b_messages = [[1], [2]], b_threshold = 1,
     b_num_parties = 2, b_unlock_window_minutes = 5, b_requested_by = ''app''\<rparr>"

theorem create_batch_correct_witness:
  "\<exists>bid bs' sids. create_batch 0 demo_batch (batch_signer_new demo_coord) = (Inr bid, bs') \<and>
     batch_session_ids bid bs' = Some sids \<and>
     length sids = length (b_messages demo_batch) \<and> distinct sids"
proof -
  have "coord_reachable first_byte_signer (\<lambda>_. True) (bs_coordinator (batch_signer_new demo_coord))"
    using demo_reachable(1) by (simp add: batch_signer_new_def)
  moreover have "b_messages demo_batch \<noteq> []" by (simp add: demo_batch_def)
  moreover have "unat (next_id demo_coord) = 1" by code_simp
  then have "unat (next_id (bs_coordinator (batch_signer_new demo_coord))) + length (b_messages demo_batch) < 2 ^ 64"
    by (simp add: batch_signer_new_def demo_batch_def)
  ultimately show ?thesis using create_batch_correct [of first_byte_signer _ demo_batch 0] by blast
qed

section \<open>Aggregating a batch\<close>

lemma session_ready_iff:
  "session_ready c sid \<longleftrightarrow>
     (\<exists>s. hm_get (sessions c) sid = Some s \<and> unat (cs_threshold s) \<le> length (cs_shares s))"
  by (auto simp: session_ready_def session_threshold_def session_share_count_def split: option.split)

definition total_signer :: "threshold_signer \<Rightarrow> bool" where
  "total_signer sign \<longleftrightarrow> (\<forall>sch shs t m. \<exists>sg. sign sch shs t m = Inr sg)"

lemma aggregate_ready:
  assumes "session_ready c sid" "total_signer sign"
  obtains sg c' where "aggregate sign now sid c = (Inr sg, c')" "\<And>x. session_ready c x \<Longrightarrow> session_ready c' x"
    "get_session_state sid c' = Some Completed"
    "\<And>x. get_session_state x c = Some Completed \<Longrightarrow> get_session_state x c' = Some Completed"
proof -
  obtain s where s: "hm_get (sessions c) sid = Some s" "unat (cs_threshold s) \<le> length (cs_shares s)"
    using assms(1) by (auto simp: session_ready_iff)
  obtain sg where "sign (scheme (cs_request s)) (map s_bytes (cs_shares s)) (cs_threshold s) (message (cs_request s)) = Inr sg"
    using assms(2) unfolding total_signer_def by blast
  with s that show thesis
    by (fastforce simp: aggregate_def session_ready_iff get_session_state_def cs_threshold_def)
qed

lemma aggregate_sessions_ready:
  assumes "total_signer sign" "list_all (session_ready c) sids"
  shows "\<exists>sgs c'. aggregate_sessions sign now sids res c = (Inr (res @ sgs), c') \<and> length sgs = length sids \<and>
     (\<forall>sid\<in>set sids. get_session_state sid c' = Some Completed) \<and>
     (\<forall>x. get_session_state x c = Some Completed \<longrightarrow> get_session_state x c' = Some Completed)"
  using assms(2)
proof (induction sids arbitrary: res c)
  case (Cons sid sids)
  have "session_ready c sid" using Cons.prems by simp
  then obtain sg c1 where a: "aggregate sign now sid c = (Inr sg, c1)" "\<And>x. session_ready c x \<Longrightarrow> session_ready c1 x"
    "get_session_state sid c1 = Some Completed"
    "\<And>x. get_session_state x c = Some Completed \<Longrightarrow> get_session_state x c1 = Some Completed"
    by (rule aggregate_ready [OF _ assms(1), where now = now]) blast
  have "list_all (session_ready c1) sids" using Cons.prems a(2) by (auto simp: list_all_iff)
  from Cons.IH [OF this, of "res @ [sg]"] obtain sgs c' where
    ih: "aggregate_sessions sign now sids (res @ [sg]) c1 = (Inr ((res @ [sg]) @ sgs), c')"
      "length sgs = length sids" "\<forall>sid\<in>set sids. get_session_state sid c' = Some Completed"
      "\<forall>x. get_session_state x c1 = Some Completed \<longrightarrow> get_session_state x c' = Some Completed"
    by blast
  then have "aggregate_sessions sign now (sid # sids) res c = (Inr (res @ (sg # sgs)), c')"
    using a(1) by simp
  moreover have "length (sg # sgs) = length (sid # sids)" using ih(2) by simp
  ultimately show ?case using ih(3,4) a(3,4) by (metis set_ConsD)
qed simp

text \<open>A batch that \<open>is_batch_ready\<close> reports ready is aggregated completely, provided the signer
  succeeds: one signature per session, and every session of the batch is \<open>Completed\<close>.\<close>

theorem ready_batch_aggregates:
  assumes "is_batch_ready bid bs" and "total_signer sign"
  shows "\<exists>sgs bs' sids. aggregate_batch sign now bid bs = (Inr sgs, bs') \<and> batch_session_ids bid bs = Some sids \<and>
     length sgs = length sids \<and>
     (\<forall>sid\<in>set sids. get_session_state sid (bs_coordinator bs') = Some Completed)"
proof -
  obtain b where b: "hm_get (batches bs) bid = Some b" "list_all (session_ready (bs_coordinator bs)) (batch_sids b)"
    using assms(1) by (auto simp: is_batch_ready_def split: option.splits)
  from aggregate_sessions_ready [OF assms(2) b(2), of now "[]"] b(1) show ?thesis
    by (auto simp: aggregate_batch_def batch_session_ids_def)
qed

definition demo_bs :: batch_signer where
  "demo_bs = \<lparr>bs_coordinator = demo_coord,
     batches = [(''batch-0'', \<lparr>batch_id = ''batch-0'', batch_sids = [''session-0''], batch_request = demo_batch\<rparr>)],
     next_batch_id = 1\<rparr>"

theorem ready_batch_aggregates_witness:
  "\<exists>sgs bs' sids. aggregate_batch first_byte_signer 9 ''batch-0'' demo_bs = (Inr sgs, bs') \<and>
     batch_session_ids ''batch-0'' demo_bs = Some sids \<and> length sgs = length sids \<and>
     list_all (\<lambda>sid. get_session_state sid (bs_coordinator bs') = Some Completed) sids"
proof -
  have "is_batch_ready ''batch-0'' demo_bs" by code_simp
  moreover have "total_signer first_byte_signer" by (simp add: first_byte_signer_def total_signer_def)
  ultimately show ?thesis unfolding list_all_iff by (rule ready_batch_aggregates)
qed

section \<open>Blame\<close>

record labeled_share =
  ls_signer_id :: signer_id
  ls_bytes :: bytes

record blame_report =
  br_session_id :: string
  bad_signers :: "signer_id list"
  all_individual_valid :: bool
  br_error :: string

definition leave_out :: "nat \<Rightarrow> labeled_share list \<Rightarrow> bytes list" where
  "leave_out i shs = map (\<lambda>j. ls_bytes (shs ! j)) (filter (\<lambda>j. j \<noteq> i) [0..<length shs])"

lemma length_leave_out: "i < length shs \<Longrightarrow> Suc (length (leave_out i shs)) = length shs"
proof -
  assume i: "i < length shs"
  have "length (filter (\<lambda>j. j \<noteq> i) [0..<n]) = (if i < n then n - 1 else n)" for n
    by (induction n) auto
  with i show ?thesis by (simp add: leave_out_def)
qed

lemma filter_eq_upt: "k < n \<Longrightarrow> filter (\<lambda>i. i = k) [0..<n] = [k]"
  by (induction n) (auto simp: less_Suc_eq filter_empty_conv)

definition succeeds_without ::
    "threshold_signer \<Rightarrow> string \<Rightarrow> labeled_share list \<Rightarrow> u32 \<Rightarrow> bytes \<Rightarrow> nat \<Rightarrow> bool" where
  "succeeds_without sign sch shs t m i \<longleftrightarrow>
     unat t \<le> length (leave_out i shs) \<and> is_ok (sign sch (leave_out i shs) t m)"

definition identify_bad_signer ::
    "string \<Rightarrow> labeled_share list \<Rightarrow> u32 \<Rightarrow> bytes \<Rightarrow> string \<Rightarrow> threshold_signer \<Rightarrow> blame_report" where
  "identify_bad_signer sid shs t m sch sign =
     (if shs = []
      then \<lparr>br_session_id = sid, bad_signers = [], all_individual_valid = False,
            br_error = ''no shares provided''\<rparr>
      else case sign sch (map ls_bytes shs) t m of
             Inr _ \<Rightarrow> \<lparr>br_session_id = sid, bad_signers = [], all_individual_valid = True,
                       br_error = ''aggregation succeeded - no bad signer''\<rparr>
           | Inl e \<Rightarrow>
               \<lparr>br_session_id = sid,
                bad_signers = map (\<lambda>i. ls_signer_id (shs ! i))
                  (filter (succeeds_without sign sch shs t m) [0..<length shs]),
                all_individual_valid = False, br_error = e\<rparr>)"

text \<open>With more shares than the threshold, exactly one of them bad, and a signer that succeeds
  exactly on good shares, the report names exactly the signer of the bad share.\<close>

theorem blame_exact:
  assumes "\<And>shs'. is_ok (sign sch shs' t m) \<longleftrightarrow> list_all good shs'"
    and "unat t < length shs" and "k < length shs"
    and "\<forall>i<length shs. good (ls_bytes (shs ! i)) \<longleftrightarrow> i \<noteq> k"
  shows "bad_signers (identify_bad_signer sid shs t m sch sign) = [ls_signer_id (shs ! k)]"
proof -
  have full: "\<not> is_ok (sign sch (map ls_bytes shs) t m)"
    using assms(3,4) unfolding assms(1) by (auto simp: list_all_length)
  have "succeeds_without sign sch shs t m i \<longleftrightarrow> i = k" if "i < length shs" for i
    using that length_leave_out [OF that] assms(2-4)
    by (auto simp: succeeds_without_def assms(1) leave_out_def list_all_iff)
  then have "filter (succeeds_without sign sch shs t m) [0..<length shs] = filter (\<lambda>i. i = k) [0..<length shs]"
    by (intro filter_cong) auto
  also have "\<dots> = [k]" by (rule filter_eq_upt [OF assms(3)])
  finally show ?thesis using full assms(3)
    by (auto simp: identify_bad_signer_def is_ok_iff split: sum.split)
qed

definition even_signer :: threshold_signer where
  "even_signer sch shs t m = (if list_all (\<lambda>s. s = [2]) shs then Inr [] else Inl ''bad share'')"

definition demo_labeled :: "string \<Rightarrow> u8 \<Rightarrow> labeled_share" where
  "demo_labeled s b = \<lparr>ls_signer_id = s, ls_bytes = [b]\<rparr>"

theorem blame_exact_witness:
  "bad_signers (identify_bad_signer [] [demo_labeled ''a'' 2, demo_labeled ''b'' 3, demo_labeled ''c'' 2] 2 [] [] even_signer)
     = [ls_signer_id ([demo_labeled ''a'' 2, demo_labeled ''b'' 3, demo_labeled ''c'' 2] ! 1)]"
  by (rule blame_exact [where good = "\<lambda>s. s = [2]"])
    (auto simp: even_signer_def demo_labeled_def less_Suc_eq)

text \<open>With exactly the threshold of shares no signer is ever blamed, whatever the signer
  function and whichever share is bad: every smaller subset is skipped.\<close>

theorem no_blame_at_threshold:
  assumes "length shs = unat t" and "0 < unat t"
  shows "bad_signers (identify_bad_signer sid shs t m sch sign) = []"
proof -
  have "\<not> succeeds_without sign sch shs t m i" if "i < length shs" for i
    using length_leave_out [OF that] assms(1) by (auto simp: succeeds_without_def)
  then show ?thesis by (auto simp: identify_bad_signer_def filter_empty_conv split: sum.split)
qed

theorem no_blame_at_threshold_witness:
  "bad_signers (identify_bad_signer [] [demo_labeled ''a'' 2, demo_labeled ''b'' 3] 2 [] [] even_signer) = []"
  by (rule no_blame_at_threshold) simp_all

end
