(* ===== verification/Leader_Election.thy ===== *)
theory Leader_Election
  imports Confium_Base
begin

text \<open>
  Leader election between coordinators (\<open>confium-coordinator/src/coordinator/leader_election.rs\<close>).
  The first part is the state of one node and its operations. The second part runs a cluster of
  such nodes over a network that may lose, delay, reorder and duplicate messages, and proves that a
  term has one leader when grants of earlier terms are not delivered. A run in which such a grant
  is delivered elects two leaders in one term.
\<close>

section \<open>One node\<close>

datatype node_role = Follower | Candidate | Leader

record vote_request =
  req_term :: u64
  candidate_id :: string
  last_log_index :: u64
  last_log_term :: u64

record vote_response =
  resp_term :: u64
  vote_granted :: bool

record election_state =
  node_id :: string
  role :: node_role
  current_term :: u64
  voted_for :: "string option"
  leader_id :: "string option"
  last_heartbeat :: instant
  cluster_size :: nat
  votes_received :: "(string \<times> bool) list"

definition election_new :: "instant \<Rightarrow> string \<Rightarrow> nat \<Rightarrow> election_state" where
  "election_new now nid sz =
     \<lparr>node_id = nid, role = Follower, current_term = 0, voted_for = None, leader_id = None,
      last_heartbeat = now, cluster_size = sz, votes_received = []\<rparr>"

definition become_follower :: "instant \<Rightarrow> u64 \<Rightarrow> string option \<Rightarrow> election_state \<Rightarrow> election_state" where
  "become_follower now t lid st =
     st\<lparr>role := Follower, current_term := t, leader_id := lid, voted_for := None,
        last_heartbeat := now, votes_received := []\<rparr>"

definition become_leader :: "instant \<Rightarrow> election_state \<Rightarrow> election_state" where
  "become_leader now st =
     st\<lparr>role := Leader, leader_id := Some (node_id st), last_heartbeat := now\<rparr>"

definition votes :: "election_state \<Rightarrow> nat" where
  "votes st = length (filter id (hm_values (votes_received st)))"

definition majority :: "election_state \<Rightarrow> nat" where
  "majority st = cluster_size st div 2 + 1"

definition become_candidate :: "instant \<Rightarrow> election_state \<Rightarrow> election_state" where
  "become_candidate now st =
     (let st' = st\<lparr>current_term := current_term st + 1, role := Candidate,
                   voted_for := Some (node_id st), leader_id := None,
                   votes_received := [(node_id st, True)]\<rparr>
      in if majority st' \<le> votes st'
         then st'\<lparr>role := Leader, leader_id := Some (node_id st'), last_heartbeat := now\<rparr>
         else st')"

definition record_vote :: "instant \<Rightarrow> string \<Rightarrow> bool \<Rightarrow> election_state \<Rightarrow> bool \<times> election_state" where
  "record_vote now voter granted st =
     (let st' = st\<lparr>votes_received := hm_insert voter granted (votes_received st)\<rparr>
      in if majority st' \<le> votes st' \<and> role st' = Candidate
         then (True, become_leader now st') else (False, st'))"

definition handle_vote_request ::
    "instant \<Rightarrow> vote_request \<Rightarrow> election_state \<Rightarrow> vote_response \<times> election_state" where
  "handle_vote_request now req st =
     (let st' = (if current_term st < req_term req then become_follower now (req_term req) None st else st);
          grant = (current_term st' \<le> req_term req
                   \<and> (voted_for st' = None \<or> voted_for st' = Some (candidate_id req)))
      in (\<lparr>resp_term = current_term st', vote_granted = grant\<rparr>,
          if grant then st'\<lparr>voted_for := Some (candidate_id req)\<rparr> else st'))"

definition handle_vote_response ::
    "instant \<Rightarrow> string \<Rightarrow> vote_response \<Rightarrow> election_state \<Rightarrow> bool \<times> election_state" where
  "handle_vote_response now voter resp st =
     (if current_term st < resp_term resp
      then (False, become_follower now (resp_term resp) None st)
      else record_vote now voter (vote_granted resp) st)"

section \<open>A cluster\<close>

text \<open>
  The nodes, every vote request and response ever sent, and as a record for the proofs the
  ballots: who voted in which term for whom. Messages stay in their lists, so that a message
  can be delivered any number of times, at any time, in any order, or never.
\<close>

record cluster =
  nodes :: "(string \<times> election_state) list"
  requests :: "vote_request list"
  responses :: "(string \<times> string \<times> vote_response) list"
  ballots :: "(string \<times> u64 \<times> string) list"

datatype cluster_event =
    Timeout instant string
  | DeliverRequest instant nat string
  | DeliverResponse instant nat

definition cluster_new :: "instant \<Rightarrow> string list \<Rightarrow> cluster" where
  "cluster_new now ids =
     \<lparr>nodes = map (\<lambda>i. (i, election_new now i (length ids))) ids,
      requests = [], responses = [], ballots = []\<rparr>"

fun deliver :: "cluster_event \<Rightarrow> cluster \<Rightarrow> cluster" where
  "deliver (Timeout now i) s =
     (case hm_get (nodes s) i of
        None \<Rightarrow> s
      | Some st \<Rightarrow>
          let st' = become_candidate now st
          in s\<lparr>nodes := hm_insert i st' (nodes s),
               requests := requests s @ [\<lparr>req_term = current_term st', candidate_id = i,
                                          last_log_index = 0, last_log_term = 0\<rparr>],
               ballots := ballots s @ [(i, current_term st', i)]\<rparr>)"
| "deliver (DeliverRequest now k j) s =
     (case hm_get (nodes s) j of
        None \<Rightarrow> s
      | Some st \<Rightarrow>
          if k < length (requests s)
          then let req = requests s ! k; (resp, st') = handle_vote_request now req st
               in s\<lparr>nodes := hm_insert j st' (nodes s),
                    responses := responses s @ [(j, candidate_id req, resp)],
                    ballots := ballots s
                      @ (if vote_granted resp then [(j, resp_term resp, candidate_id req)] else [])\<rparr>
          else s)"
| "deliver (DeliverResponse now k) s =
     (if k < length (responses s)
      then let (voter, i, resp) = responses s ! k
           in (case hm_get (nodes s) i of
                 None \<Rightarrow> s
               | Some st \<Rightarrow> s\<lparr>nodes := hm_insert i (snd (handle_vote_response now voter resp st)) (nodes s)\<rparr>)
      else s)"

text \<open>The guard of an event: terms do not overflow, and, with \<open>fresh\<close>, a grant is delivered only
  if it is not from an earlier term than the receiver's.\<close>

fun enabled :: "bool \<Rightarrow> cluster_event \<Rightarrow> cluster \<Rightarrow> bool" where
  "enabled fresh (Timeout now i) s =
     (case hm_get (nodes s) i of None \<Rightarrow> True | Some st \<Rightarrow> current_term st \<noteq> - 1)"
| "enabled fresh (DeliverRequest now k j) s = True"
| "enabled fresh (DeliverResponse now k) s =
     (fresh \<longrightarrow> k < length (responses s) \<longrightarrow>
        (case responses s ! k of (voter, i, resp) \<Rightarrow>
           (case hm_get (nodes s) i of
              None \<Rightarrow> True
            | Some st \<Rightarrow> \<not> vote_granted resp \<or> current_term st \<le> resp_term resp)))"

inductive cluster_reachable :: "string list \<Rightarrow> bool \<Rightarrow> cluster \<Rightarrow> bool" for ids fresh where
  cluster_init: "cluster_reachable ids fresh (cluster_new now ids)"
| cluster_step: "cluster_reachable ids fresh s \<Longrightarrow> enabled fresh ev s \<Longrightarrow>
    cluster_reachable ids fresh (deliver ev s)"

section \<open>Votes and ballots\<close>

definition ballot :: "cluster \<Rightarrow> string \<Rightarrow> u64 \<Rightarrow> string \<Rightarrow> bool" where
  "ballot s v t c \<longleftrightarrow> (v, t, c) \<in> set (ballots s)"

definition has_quorum :: "string list \<Rightarrow> cluster \<Rightarrow> u64 \<Rightarrow> string \<Rightarrow> bool" where
  "has_quorum ids s t c \<longleftrightarrow> length ids div 2 + 1 \<le> card {v \<in> set ids. ballot s v t c}"

definition node_ok :: "string list \<Rightarrow> cluster \<Rightarrow> string \<Rightarrow> election_state \<Rightarrow> bool" where
  "node_ok ids s i st \<longleftrightarrow>
     i \<in> set ids \<and> node_id st = i \<and> cluster_size st = length ids \<and> hm_wf (votes_received st) \<and>
     (\<forall>t c. ballot s i t c \<longrightarrow> t \<le> current_term st) \<and>
     (\<forall>c. ballot s i (current_term st) c \<longrightarrow> voted_for st = Some c) \<and>
     (\<forall>v b. hm_get (votes_received st) v = Some b \<longrightarrow> v \<in> set ids) \<and>
     (\<forall>v. hm_get (votes_received st) v = Some True \<longrightarrow> ballot s v (current_term st) i) \<and>
     (role st = Leader \<longrightarrow> has_quorum ids s (current_term st) i)"

definition cluster_inv :: "string list \<Rightarrow> cluster \<Rightarrow> bool" where
  "cluster_inv ids s \<longleftrightarrow>
     (\<forall>i st. hm_get (nodes s) i = Some st \<longrightarrow> node_ok ids s i st) \<and>
     (\<forall>v t c c'. ballot s v t c \<longrightarrow> ballot s v t c' \<longrightarrow> c = c') \<and>
     (\<forall>v t c. ballot s v t c \<longrightarrow> v \<in> set ids \<and> hm_get (nodes s) v \<noteq> None) \<and>
     (\<forall>(v, i, resp)\<in>set (responses s). v \<in> set ids \<and> (vote_granted resp \<longrightarrow> ballot s v (resp_term resp) i))"

lemma votes_card:
  assumes "hm_wf (votes_received st)"
  shows "votes st = card {v. hm_get (votes_received st) v = Some True}"
proof -
  let ?m = "votes_received st"
  let ?f = "filter (\<lambda>(v, b). b) ?m"
  have "length (filter id (hm_values m)) = length (map fst (filter (\<lambda>(v, b). b) m))" for m :: "(string \<times> bool) list"
    by (induction m) auto
  moreover have "distinct (map fst ?f)" using assms by (auto simp: hm_wf_def distinct_map_filter)
  moreover have "set (map fst ?f) = {v. hm_get ?m v = Some True}"
    using hm_get_iff [OF assms] by force
  ultimately show ?thesis unfolding votes_def by (metis distinct_card)
qed

lemma quorum_of_votes:
  assumes "node_ok ids s i st" "majority st \<le> votes st"
  shows "has_quorum ids s (current_term st) i"
proof -
  have "{v. hm_get (votes_received st) v = Some True} \<subseteq> {v \<in> set ids. ballot s v (current_term st) i}"
    using assms(1) by (auto simp: node_ok_def)
  then have "card {v. hm_get (votes_received st) v = Some True} \<le> card {v \<in> set ids. ballot s v (current_term st) i}"
    by (rule card_mono [rotated]) simp
  with assms votes_card [of st] show ?thesis by (simp add: node_ok_def has_quorum_def majority_def)
qed

lemma has_quorum_mono: "has_quorum ids s t c \<Longrightarrow> set (ballots s) \<subseteq> set (ballots s') \<Longrightarrow> has_quorum ids s' t c"
  unfolding has_quorum_def ballot_def
  by (erule order_trans) (rule card_mono, auto)

lemma quorums_meet:
  assumes "cluster_inv ids s" "distinct ids" "has_quorum ids s t c" "has_quorum ids s t c'"
  shows "c = c'"
proof -
  let ?A = "{v \<in> set ids. ballot s v t c}" and ?B = "{v \<in> set ids. ballot s v t c'}"
  have "card (?A \<union> ?B) \<le> length ids"
    using assms(2) by (metis (no_types, lifting) card_mono distinct_card finite_set le_sup_iff mem_Collect_eq subsetI)
  moreover have "card (?A \<union> ?B) + card (?A \<inter> ?B) = card ?A + card ?B"
    by (rule card_Un_Int [symmetric]) auto
  moreover have "length ids < card ?A + card ?B" using assms(3,4) by (simp add: has_quorum_def)
  ultimately have "card (?A \<inter> ?B) \<noteq> 0" by linarith
  then obtain v where "ballot s v t c" "ballot s v t c'" by (metis (no_types, lifting) IntE card.empty ex_in_conv mem_Collect_eq)
  then show ?thesis using assms(1) by (auto simp: cluster_inv_def)
qed

section \<open>Every event keeps the invariant\<close>

lemma node_ok_mono:
  assumes "node_ok ids s j st" "set (ballots s) \<subseteq> set (ballots s')"
    and "\<And>t c. ballot s' j t c \<Longrightarrow> ballot s j t c"
  shows "node_ok ids s' j st"
  using assms has_quorum_mono [OF _ assms(2)] unfolding node_ok_def ballot_def by blast

lemma cluster_inv_update:
  assumes inv: "cluster_inv ids s" and old: "hm_get (nodes s) i = Some st"
    and nodes: "nodes s' = hm_insert i st' (nodes s)"
    and sub: "set (ballots s) \<subseteq> set (ballots s')"
    and new: "\<And>v t c. ballot s' v t c \<Longrightarrow> \<not> ballot s v t c \<Longrightarrow> v = i \<and> t = current_term st'"
    and ok: "node_ok ids s' i st'"
    and resp: "\<And>v j r. (v, j, r) \<in> set (responses s') \<Longrightarrow>
        v \<in> set ids \<and> (vote_granted r \<longrightarrow> ballot s' v (resp_term r) j)"
  shows "cluster_inv ids s'"
proof -
  have "node_ok ids s' j st\<^sub>j" if "hm_get (nodes s') j = Some st\<^sub>j" for j st\<^sub>j
  proof (cases "j = i")
    case False
    then have "node_ok ids s j st\<^sub>j" using that inv nodes by (simp add: cluster_inv_def)
    then show ?thesis using sub new False by (blast intro: node_ok_mono)
  qed (use ok that nodes in simp)
  moreover have "c = c'" if "ballot s' v t c" "ballot s' v t c'" for v t c c'
  proof (cases "ballot s v t c \<and> ballot s v t c'")
    case True
    then show ?thesis using inv by (auto simp: cluster_inv_def)
  next
    case False
    then have "v = i" "t = current_term st'" using new that by blast+
    then have "voted_for st' = Some c" "voted_for st' = Some c'" using ok that unfolding node_ok_def by blast+
    then show ?thesis by simp
  qed
  moreover have "v \<in> set ids \<and> hm_get (nodes s') v \<noteq> None" if "ballot s' v t c" for v t c
  proof (cases "ballot s v t c")
    case True
    then have "v \<in> set ids \<and> hm_get (nodes s) v \<noteq> None" using inv unfolding cluster_inv_def by blast
    then show ?thesis using nodes by simp
  next
    case False
    then have "v = i" using new that by blast
    then show ?thesis using ok nodes by (simp add: node_ok_def)
  qed
  ultimately show ?thesis using resp unfolding cluster_inv_def by blast
qed

lemma cluster_invD:
  assumes "cluster_inv ids s"
  shows "hm_get (nodes s) i = Some st \<Longrightarrow> node_ok ids s i st"
    and "(v, j, r) \<in> set (responses s) \<Longrightarrow> v \<in> set ids \<and> (vote_granted r \<longrightarrow> ballot s v (resp_term r) j)"
  using assms by (auto simp: cluster_inv_def)

lemma node_ok_candidate:
  assumes "node_ok ids s i st" "current_term st \<noteq> - 1"
    and "set (ballots s') = insert (i, current_term st + 1, i) (set (ballots s))"
  shows "node_ok ids s' i (become_candidate now st)"
proof -
  let ?c = "st\<lparr>current_term := current_term st + 1, role := Candidate, voted_for := Some (node_id st),
      leader_id := None, votes_received := [(node_id st, True)]\<rparr>"
  have lt: "t < current_term st + 1" if "ballot s i t c" for t c
    using that assms(1) less_plus_1 [OF _ assms(2)] by (auto simp: node_ok_def)
  have cand: "node_ok ids s' i ?c"
    using assms(1) lt unfolding node_ok_def ballot_def assms(3)
    by (auto simp: hm_wf_def dest: less_imp_le)
  show ?thesis
  proof (cases "majority ?c \<le> votes ?c")
    case True
    then show ?thesis using cand quorum_of_votes [OF cand True]
      by (auto simp: become_candidate_def Let_def node_ok_def)
  next
    case False
    then show ?thesis using cand by (simp add: become_candidate_def Let_def)
  qed
qed

lemma timeout_inv:
  assumes "cluster_inv ids s" "enabled fresh (Timeout now i) s"
  shows "cluster_inv ids (deliver (Timeout now i) s)"
proof (cases "hm_get (nodes s) i")
  case (Some st)
  let ?s = "deliver (Timeout now i) s"
  have t: "current_term st \<noteq> - 1" using assms(2) Some by simp
  have trm: "current_term (become_candidate now st) = current_term st + 1"
    by (simp add: become_candidate_def Let_def)
  have b: "set (ballots ?s) = insert (i, current_term st + 1, i) (set (ballots s))"
    using Some by (simp add: Let_def trm)
  show ?thesis
  proof (rule cluster_inv_update [OF assms(1) Some])
    show "node_ok ids ?s i (become_candidate now st)"
      by (rule node_ok_candidate [OF cluster_invD(1) [OF assms(1) Some] t b])
    show "v \<in> set ids \<and> (vote_granted r \<longrightarrow> ballot ?s v (resp_term r) j)"
      if "(v, j, r) \<in> set (responses ?s)" for v j r
      using cluster_invD(2) [OF assms(1), of v j r] that Some b by (auto simp: Let_def ballot_def)
  qed (use Some b in \<open>auto simp: Let_def trm ballot_def\<close>)
qed (use assms in simp)

lemma node_ok_follower:
  assumes "node_ok ids s i st" "current_term st < t"
  shows "node_ok ids s i (become_follower now t lid st)"
proof -
  have "\<not> ballot s i t c" and "ballot s i u c \<Longrightarrow> u \<le> t" for u c
    using assms unfolding node_ok_def by (meson leD order.strict_implies_order order.trans)+
  then show ?thesis using assms by (auto simp: node_ok_def become_follower_def)
qed

lemma node_ok_vote:
  assumes "node_ok ids s j st" "voted_for st = None \<or> voted_for st = Some c"
    and "set (ballots s') = insert (j, current_term st, c) (set (ballots s))"
  shows "node_ok ids s' j (st\<lparr>voted_for := Some c\<rparr>)"
proof -
  have sub: "set (ballots s) \<subseteq> set (ballots s')" using assms(3) by auto
  have "ballot s' v t x \<longleftrightarrow> ballot s v t x \<or> (v = j \<and> t = current_term st \<and> x = c)" for v t x
    using assms(3) by (auto simp: ballot_def)
  moreover have "ballot s j (current_term st) x \<Longrightarrow> x = c" for x
    using assms(1,2) by (auto simp: node_ok_def)
  ultimately show ?thesis using assms(1) has_quorum_mono [OF _ sub] by (auto simp: node_ok_def)
qed

lemma request_inv:
  assumes "cluster_inv ids s"
  shows "cluster_inv ids (deliver (DeliverRequest now k j) s)"
proof (cases "hm_get (nodes s) j")
  case (Some st)
  show ?thesis
  proof (cases "k < length (requests s)")
    case True
    let ?req = "requests s ! k"
    define s1 where "s1 = deliver (DeliverRequest now k j) s"
    define st1 where "st1 = (if current_term st < req_term ?req then become_follower now (req_term ?req) None st else st)"
    define grant where "grant \<longleftrightarrow> current_term st1 \<le> req_term ?req \<and>
      (voted_for st1 = None \<or> voted_for st1 = Some (candidate_id ?req))"
    define st2 where "st2 = (if grant then st1\<lparr>voted_for := Some (candidate_id ?req)\<rparr> else st1)"
    have ok1: "node_ok ids s j st1"
      using cluster_invD(1) [OF assms Some] node_ok_follower by (simp add: st1_def)
    have h: "handle_vote_request now ?req st = (\<lparr>resp_term = current_term st1, vote_granted = grant\<rparr>, st2)"
      by (simp add: handle_vote_request_def Let_def st1_def [symmetric] grant_def st2_def)
    have s': "nodes s1 = hm_insert j st2 (nodes s)"
      "responses s1 = responses s @ [(j, candidate_id ?req, \<lparr>resp_term = current_term st1, vote_granted = grant\<rparr>)]"
      "ballots s1 = ballots s @ (if grant then [(j, current_term st1, candidate_id ?req)] else [])"
      using Some True h by (simp_all add: s1_def Let_def)
    have t2: "current_term st2 = current_term st1" by (simp add: st2_def)
    have ok2: "node_ok ids s1 j st2"
    proof (cases grant)
      case True
      then show ?thesis unfolding st2_def using node_ok_vote [OF ok1, of "candidate_id ?req" s1] s'(3)
        by (simp add: grant_def)
    next
      case False
      then show ?thesis unfolding st2_def using node_ok_mono [OF ok1, of s1] s'(3) by (simp add: ballot_def)
    qed
    have "cluster_inv ids s1"
    proof (rule cluster_inv_update [OF assms Some s'(1) _ _ ok2])
      show "v \<in> set ids \<and> (vote_granted r \<longrightarrow> ballot s1 v (resp_term r) i)"
        if "(v, i, r) \<in> set (responses s1)" for v i r
        using cluster_invD(2) [OF assms, of v i r] that ok2 unfolding s' by (auto simp: ballot_def s'(3) node_ok_def)
    qed (use t2 in \<open>auto simp: s'(3) ballot_def split: if_splits\<close>)
    then show ?thesis unfolding s1_def .
  qed (use assms Some in simp)
qed (use assms in simp)

lemma node_ok_record:
  assumes "node_ok ids s i st" "v \<in> set ids" "b \<longrightarrow> ballot s v (current_term st) i"
  shows "node_ok ids s i (snd (record_vote now v b st))"
proof -
  let ?st = "st\<lparr>votes_received := hm_insert v b (votes_received st)\<rparr>"
  have ok: "node_ok ids s i ?st" using assms by (auto simp: node_ok_def split: if_splits)
  show ?thesis
  proof (cases "majority ?st \<le> votes ?st \<and> role ?st = Candidate")
    case True
    then show ?thesis using ok quorum_of_votes [OF ok]
      by (simp add: record_vote_def Let_def become_leader_def node_ok_def)
  next
    case False
    then show ?thesis using ok by (auto simp: record_vote_def Let_def)
  qed
qed

lemma response_inv:
  assumes "cluster_inv ids s" "enabled True (DeliverResponse now k) s"
  shows "cluster_inv ids (deliver (DeliverResponse now k) s)"
proof (cases "k < length (responses s)")
  case True
  obtain v i r where vir: "responses s ! k = (v, i, r)" by (metis prod_cases3)
  then have mem: "(v, i, r) \<in> set (responses s)" using True nth_mem by metis
  show ?thesis
  proof (cases "hm_get (nodes s) i")
    case (Some st)
    define s1 where "s1 = deliver (DeliverResponse now k) s"
    let ?st = "snd (handle_vote_response now v r st)"
    have s': "nodes s1 = hm_insert i ?st (nodes s)" "responses s1 = responses s" "ballots s1 = ballots s"
      using True vir Some by (simp_all add: s1_def)
    have ok: "node_ok ids s i st" by (rule cluster_invD(1) [OF assms(1) Some])
    have "node_ok ids s i ?st"
    proof (cases "current_term st < resp_term r")
      case True
      then show ?thesis using node_ok_follower [OF ok] by (simp add: handle_vote_response_def)
    next
      case False
      have "vote_granted r \<longrightarrow> ballot s v (current_term st) i"
        using assms(2) \<open>k < length (responses s)\<close> vir Some False cluster_invD(2) [OF assms(1) mem] by auto
      then show ?thesis using False node_ok_record [OF ok] cluster_invD(2) [OF assms(1) mem]
        by (simp add: handle_vote_response_def)
    qed
    then have "node_ok ids s1 i ?st" by (rule node_ok_mono) (simp_all add: s' ballot_def)
    then have "cluster_inv ids s1"
      by (rule cluster_inv_update [OF assms(1) Some s'(1), rotated 2])
        (use cluster_invD(2) [OF assms(1)] in \<open>auto simp: s' ballot_def\<close>)
    then show ?thesis unfolding s1_def .
  qed (use assms True vir in simp)
qed (use assms in simp)

lemma cluster_inv_new: "cluster_inv ids (cluster_new now ids)"
proof -
  have "node_ok ids (cluster_new now ids) i (election_new now i (length ids))" if "i \<in> set ids" for i
    using that by (simp add: cluster_new_def node_ok_def ballot_def election_new_def)
  moreover have "hm_get (nodes (cluster_new now ids)) i =
      (if i \<in> set ids then Some (election_new now i (length ids)) else None)" for i
    by (simp add: cluster_new_def hm_get_tabulate)
  ultimately show ?thesis by (simp add: cluster_inv_def) (simp add: cluster_new_def ballot_def)
qed

lemma cluster_reachable_inv: "cluster_reachable ids True s \<Longrightarrow> cluster_inv ids s"
proof (induction rule: cluster_reachable.induct)
  case (cluster_step s ev)
  then show ?case
    by (cases ev) (simp_all only: timeout_inv request_inv response_inv)
qed (rule cluster_inv_new)

section \<open>Properties\<close>

definition leads :: "cluster \<Rightarrow> string \<Rightarrow> u64 \<Rightarrow> bool" where
  "leads s i t \<longleftrightarrow> (\<exists>st. hm_get (nodes s) i = Some st \<and> role st = Leader \<and> current_term st = t)"

fun run_events :: "cluster_event list \<Rightarrow> cluster \<Rightarrow> cluster" where
  "run_events [] s = s"
| "run_events (e # es) s = run_events es (deliver e s)"

fun all_enabled :: "bool \<Rightarrow> cluster_event list \<Rightarrow> cluster \<Rightarrow> bool" where
  "all_enabled fresh [] s = True"
| "all_enabled fresh (e # es) s \<longleftrightarrow> enabled fresh e s \<and> all_enabled fresh es (deliver e s)"

lemma run_events_reachable:
  "cluster_reachable ids fresh s \<Longrightarrow> all_enabled fresh es s \<Longrightarrow> cluster_reachable ids fresh (run_events es s)"
  by (induction es arbitrary: s) (auto intro: cluster_step simp del: deliver.simps enabled.simps)

text \<open>C6: Election safety. In a cluster of nodes with different names, whatever is lost, delayed,
  reordered or duplicated, at most one node leads a term, provided no grant of an earlier term is
  delivered to a node that has moved on.\<close>

theorem election_safety:
  assumes "cluster_reachable ids True s" and "distinct ids" and "leads s i t" and "leads s j t"
  shows "i = j"
proof -
  have inv: "cluster_inv ids s" by (rule cluster_reachable_inv [OF assms(1)])
  have "has_quorum ids s t x" if x: "leads s x t" for x
  proof -
    obtain st where "hm_get (nodes s) x = Some st" "role st = Leader" "current_term st = t"
      using x by (auto simp: leads_def)
    with cluster_invD(1) [OF inv, of x st] show ?thesis by (simp add: node_ok_def)
  qed
  with assms(3,4) show ?thesis by (blast intro: quorums_meet [OF inv assms(2)])
qed

definition elect_abc :: "cluster_event list" where
  "elect_abc = [Timeout 0 ''a'', DeliverRequest 0 0 ''b'', DeliverResponse 0 0]"

theorem election_safety_witness:
  "leads (run_events elect_abc (cluster_new 0 [''a'', ''b'', ''c''])) ''a'' 1 \<and> ''a'' = ''a''"
proof -
  let ?s = "run_events elect_abc (cluster_new 0 [''a'', ''b'', ''c''])"
  have r: "cluster_reachable [''a'', ''b'', ''c''] True ?s"
    by (rule run_events_reachable [OF cluster_init]) code_simp
  have l: "leads ?s ''a'' 1" unfolding leads_def
    by (rule exI [of _ "the (hm_get (nodes ?s) ''a'')"]) code_simp
  from election_safety [OF r _ l l] l show ?thesis by simp
qed

definition split_brain :: "cluster_event list" where
  "split_brain =
     [Timeout 0 ''a'', DeliverRequest 0 0 ''b'', Timeout 0 ''a'',
      Timeout 0 ''c'', Timeout 0 ''c'', DeliverRequest 0 3 ''b'', DeliverResponse 0 1, DeliverResponse 0 0]"

text \<open>C37: The proviso is needed: \<open>handle_vote_response\<close> counts a grant whatever its term. In a
  cluster of three, a run delivers a grant of term 1 to a node that is a candidate in term 2, and
  two nodes lead term 2.\<close>

theorem stale_grant_elects_two_leaders:
  "\<exists>s. cluster_reachable [''a'', ''b'', ''c''] False s \<and> leads s ''a'' 2 \<and> leads s ''c'' 2"
proof -
  let ?s = "run_events split_brain (cluster_new 0 [''a'', ''b'', ''c''])"
  have "cluster_reachable [''a'', ''b'', ''c''] False ?s"
    by (rule run_events_reachable [OF cluster_init]) code_simp
  moreover have "leads ?s ''a'' 2" unfolding leads_def
    by (rule exI [of _ "the (hm_get (nodes ?s) ''a'')"]) code_simp
  moreover have "leads ?s ''c'' 2" unfolding leads_def
    by (rule exI [of _ "the (hm_get (nodes ?s) ''c'')"]) code_simp
  ultimately show ?thesis by blast
qed

end
