(* ===== verification/Round_Coordinator.thy ===== *)
theory Round_Coordinator
  imports Confium_Base
begin

text \<open>
  The multi-round signing state machine (\<open>confium-coordinator/src/round_coordinator.rs\<close>). A round
  advances when the threshold of different signers has responded; four rounds complete the protocol.
\<close>

section \<open>Model\<close>

datatype signing_round = Round1 | Round2 | Round3 | Round4 | RoundCompleted | RoundAborted

fun next_round :: "signing_round \<Rightarrow> signing_round option" where
  "next_round Round1 = Some Round2"
| "next_round Round2 = Some Round3"
| "next_round Round3 = Some Round4"
| "next_round Round4 = Some RoundCompleted"
| "next_round RoundCompleted = None"
| "next_round RoundAborted = None"

fun round_number :: "signing_round \<Rightarrow> u32" where
  "round_number Round1 = 1"
| "round_number Round2 = 2"
| "round_number Round3 = 3"
| "round_number Round4 = 4"
| "round_number RoundCompleted = 0"
| "round_number RoundAborted = 0"

definition is_terminal :: "signing_round \<Rightarrow> bool" where
  "is_terminal r \<longleftrightarrow> r = RoundCompleted \<or> r = RoundAborted"

record round_state =
  round :: signing_round
  responded :: "string set"
  started_at :: instant
  rs_data :: "(string \<times> bytes) list"

definition round_state_new :: "instant \<Rightarrow> signing_round \<Rightarrow> round_state" where
  "round_state_new now r = \<lparr>round = r, responded = {}, started_at = now, rs_data = []\<rparr>"

datatype round_error =
    WrongRound string signing_round signing_round
  | DuplicateResponse string
  | AlreadyCompleted
  | AbortedError string
  | InsufficientResponses nat nat

record round_coordinator =
  threshold :: u32
  party_count :: u32
  current :: round_state
  history :: "round_state list"

definition round_coordinator_new :: "instant \<Rightarrow> u32 \<Rightarrow> u32 \<Rightarrow> round_coordinator" where
  "round_coordinator_new now t n =
     \<lparr>threshold = t, party_count = n, current = round_state_new now Round1, history = []\<rparr>"

definition current_round :: "round_coordinator \<Rightarrow> signing_round" where
  "current_round rc = round (current rc)"

definition response_count :: "round_coordinator \<Rightarrow> nat" where
  "response_count rc = card (responded (current rc))"

definition has_responded :: "string \<Rightarrow> round_coordinator \<Rightarrow> bool" where
  "has_responded s rc \<longleftrightarrow> s \<in> responded (current rc)"

text \<open>\<open>submit\<close>; a repeated response and a response after the end leave the state unchanged.\<close>

definition round_submit ::
    "instant \<Rightarrow> string \<Rightarrow> bytes \<Rightarrow> round_coordinator
      \<Rightarrow> (round_error + signing_round option) \<times> round_coordinator" where
  "round_submit now s data rc =
     (if is_terminal (round (current rc)) then (Inl AlreadyCompleted, rc)
      else if s \<in> responded (current rc) then (Inl (DuplicateResponse s), rc)
      else let cur = (current rc)\<lparr>responded := insert s (responded (current rc)),
                                  rs_data := rs_data (current rc) @ [(s, data)]\<rparr>;
               rc' = rc\<lparr>current := cur\<rparr>
           in if unat (threshold rc) \<le> card (responded cur)
              then (case next_round (round cur) of
                      None \<Rightarrow> (Inl AlreadyCompleted, rc')
                    | Some nxt \<Rightarrow> (Inr (Some nxt),
                                    rc'\<lparr>current := round_state_new now nxt, history := history rc @ [cur]\<rparr>))
              else (Inr None, rc'))"

definition get_round_data :: "signing_round \<Rightarrow> round_coordinator \<Rightarrow> (string \<times> bytes) list" where
  "get_round_data r rc =
     (if r = round (current rc) then rs_data (current rc)
      else case List.find (\<lambda>s. round s = r) (history rc) of
             None \<Rightarrow> [] | Some s \<Rightarrow> rs_data s)"

definition rounds_completed :: "round_coordinator \<Rightarrow> nat" where
  "rounds_completed rc = length (history rc)"

definition round_abort :: "instant \<Rightarrow> round_coordinator \<Rightarrow> round_coordinator" where
  "round_abort now rc = rc\<lparr>current := round_state_new now RoundAborted\<rparr>"

definition force_advance :: "instant \<Rightarrow> round_coordinator \<Rightarrow> signing_round option \<times> round_coordinator" where
  "force_advance now rc =
     (case next_round (round (current rc)) of
        None \<Rightarrow> (None, rc)
      | Some nxt \<Rightarrow> (Some nxt, rc\<lparr>current := round_state_new now nxt, history := history rc @ [current rc]\<rparr>))"

fun submit_all :: "(instant \<times> string \<times> bytes) list \<Rightarrow> round_coordinator \<Rightarrow> round_coordinator" where
  "submit_all [] rc = rc"
| "submit_all ((now, s, d) # ms) rc = submit_all ms (snd (round_submit now s d rc))"

section \<open>Invariant\<close>

definition rounds :: "signing_round list" where
  "rounds = [Round1, Round2, Round3, Round4]"

definition round_ok :: "round_state \<Rightarrow> bool" where
  "round_ok rs \<longleftrightarrow> responded rs = fst ` set (rs_data rs) \<and> distinct (map fst (rs_data rs))"

text \<open>Every round in the history has the threshold of different signers, the history lists the
  rounds in order, and the current round comes next.\<close>

definition rc_inv :: "round_coordinator \<Rightarrow> bool" where
  "rc_inv rc \<longleftrightarrow>
     round_ok (current rc) \<and> (\<forall>rs\<in>set (history rc). round_ok rs \<and> unat (threshold rc) \<le> card (responded rs)) \<and>
     (map round (history rc) @ [round (current rc)] = take (Suc (length (history rc))) (rounds @ [RoundCompleted])) \<and>
     length (history rc) \<le> 4 \<and>
     (\<not> is_terminal (round (current rc)) \<longrightarrow> card (responded (current rc)) < max 1 (unat (threshold rc)))"

lemma rc_inv_new: "rc_inv (round_coordinator_new now t n)"
  by (simp add: rc_inv_def round_coordinator_new_def round_state_new_def round_ok_def rounds_def
      less_max_iff_disj)

lemma length_rounds [simp]: "length rounds = 4"
  by (simp add: rounds_def)

lemma round_of_history:
  assumes "rc_inv rc"
  shows "round (current rc) = (rounds @ [RoundCompleted]) ! length (history rc)"
    and "map round (history rc) = take (length (history rc)) (rounds @ [RoundCompleted])"
    and "length (history rc) \<le> 4"
proof -
  let ?n = "length (history rc)" and ?R = "rounds @ [RoundCompleted]"
  have eq: "map round (history rc) @ [round (current rc)] = take (Suc ?n) ?R" and le: "?n \<le> 4"
    using assms by (simp_all add: rc_inv_def)
  have "take (Suc ?n) ?R = take ?n ?R @ [?R ! ?n]"
    using le by (intro take_Suc_conv_app_nth) (simp add: rounds_def)
  with eq show "round (current rc) = ?R ! ?n" "map round (history rc) = take ?n ?R" by simp_all
  show "?n \<le> 4" by (rule le)
qed

lemma next_round_index:
  assumes "n < 4"
  shows "next_round ((rounds @ [RoundCompleted]) ! n) = Some ((rounds @ [RoundCompleted]) ! Suc n)"
proof -
  from assms consider "n = 0" | "n = 1" | "n = 2" | "n = 3" by linarith
  then show ?thesis by cases (simp_all add: rounds_def)
qed

lemma not_terminal_index:
  assumes "rc_inv rc"
  shows "is_terminal (round (current rc)) \<longleftrightarrow> length (history rc) = 4"
proof -
  let ?n = "length (history rc)"
  from round_of_history(3) [OF assms] consider "?n = 0" | "?n = 1" | "?n = 2" | "?n = 3" | "?n = 4" by linarith
  then show ?thesis using round_of_history(1) [OF assms] by cases (simp_all add: rounds_def is_terminal_def)
qed

lemma rc_inv_submit: "rc_inv rc \<Longrightarrow> rc_inv (snd (round_submit now s d rc))"
proof -
  assume inv: "rc_inv rc"
  let ?n = "length (history rc)" and ?R = "rounds @ [RoundCompleted]"
  let ?cur = "(current rc)\<lparr>responded := insert s (responded (current rc)), rs_data := rs_data (current rc) @ [(s, d)]\<rparr>"
  have ok: "s \<notin> responded (current rc) \<Longrightarrow> round_ok ?cur" using inv by (auto simp: rc_inv_def round_ok_def)
  have fin: "finite (responded (current rc))" using inv by (simp add: rc_inv_def round_ok_def)
  show ?thesis
  proof (cases "is_terminal (round (current rc)) \<or> s \<in> responded (current rc)")
    case True
    then show ?thesis using inv by (auto simp: round_submit_def)
  next
    case new: False
    then have n4: "?n < 4" using not_terminal_index [OF inv] round_of_history(3) [OF inv] by auto
    show ?thesis
    proof (cases "unat (threshold rc) \<le> card (responded ?cur)")
      case True
      have nx: "next_round (round ?cur) = Some (?R ! Suc ?n)"
        using next_round_index [OF n4] round_of_history(1) [OF inv] by simp
      let ?rc = "rc\<lparr>current := round_state_new now (?R ! Suc ?n), history := history rc @ [?cur]\<rparr>"
      have res: "snd (round_submit now s d rc) = ?rc" using new True nx by (simp add: round_submit_def Let_def)
      have ord: "map round (history rc @ [?cur]) @ [?R ! Suc ?n] = take (Suc (Suc ?n)) ?R"
        using n4 round_of_history(1,2) [OF inv] take_Suc_conv_app_nth [of "Suc ?n" ?R]
          take_Suc_conv_app_nth [of ?n ?R] by simp
      have "map round (history ?rc) @ [round (current ?rc)] = take (Suc (length (history ?rc))) ?R"
        using ord by (simp add: round_state_new_def)
      moreover have "round_ok (current ?rc)" "card (responded (current ?rc)) = 0" "length (history ?rc) \<le> 4"
        using n4 by (simp_all add: round_state_new_def round_ok_def)
      moreover have "\<forall>rs\<in>set (history ?rc). round_ok rs \<and> unat (threshold ?rc) \<le> card (responded rs)"
        using inv ok new True by (simp add: rc_inv_def)
      ultimately show ?thesis unfolding res rc_inv_def by (simp only: less_max_iff_disj) simp
    next
      case False
      then show ?thesis using new ok inv fin by (auto simp: round_submit_def Let_def rc_inv_def)
    qed
  qed
qed

interpretation round_inv: op_invariant "\<lambda>(now, s, d) rc. snd (round_submit now s d rc)" rc_inv
  by unfold_locales (auto simp: rc_inv_submit)

lemma submit_all_fold: "submit_all ms rc = fold (\<lambda>(now, s, d) rc. snd (round_submit now s d rc)) ms rc"
  by (induction ms rc rule: submit_all.induct) auto

lemma rc_inv_submit_all: "rc_inv rc \<Longrightarrow> rc_inv (submit_all ms rc)"
  unfolding submit_all_fold by (rule round_inv.run_inv)

lemma submit_threshold [simp]: "threshold (snd (round_submit now s d rc)) = threshold rc"
  by (simp add: round_submit_def Let_def split: option.split)

lemma submit_all_append: "submit_all (xs @ ys) rc = submit_all ys (submit_all xs rc)"
  by (simp add: submit_all_fold)

section \<open>Progress\<close>

definition same_round :: "instant \<Rightarrow> string list \<Rightarrow> bytes \<Rightarrow> (instant \<times> string \<times> bytes) list" where
  "same_round now ss d = map (\<lambda>s. (now, s, d)) ss"

lemma submit_one_round:
  assumes "\<not> is_terminal (round (current rc))" "distinct ss" "set ss \<inter> responded (current rc) = {}"
    and "finite (responded (current rc))" "ss \<noteq> []"
    and "card (responded (current rc)) + length ss = unat (threshold rc)"
  shows "\<exists>nxt. next_round (round (current rc)) = Some nxt \<and>
     current (submit_all (same_round now ss d) rc) = round_state_new now nxt \<and>
     threshold (submit_all (same_round now ss d) rc) = threshold rc"
  using assms
proof (induction ss arbitrary: rc)
  case (Cons s ss)
  obtain nxt where nxt: "next_round (round (current rc)) = Some nxt"
    using Cons.prems(1) by (cases "round (current rc)") (simp_all add: is_terminal_def)
  let ?rc = "snd (round_submit now s d rc)"
  have new: "s \<notin> responded (current rc)" using Cons.prems(3) by simp
  show ?case
  proof (cases "ss = []")
    case True
    then show ?thesis using Cons.prems new nxt by (simp add: same_round_def round_submit_def Let_def)
  next
    case False
    then have lt: "Suc (card (responded (current rc))) < unat (threshold rc)"
      using Cons.prems(6) by (cases ss) simp_all
    then have cur: "current ?rc = (current rc)\<lparr>responded := insert s (responded (current rc)), rs_data := rs_data (current rc) @ [(s, d)]\<rparr>"
      using Cons.prems(1,4) new by (simp add: round_submit_def Let_def)
    have "\<exists>nxt. next_round (round (current ?rc)) = Some nxt \<and>
        current (submit_all (same_round now ss d) ?rc) = round_state_new now nxt \<and>
        threshold (submit_all (same_round now ss d) ?rc) = threshold ?rc"
      by (rule Cons.IH) (use Cons.prems new False lt cur in auto)
    then show ?thesis using cur nxt by (auto simp: same_round_def)
  qed
qed simp

section \<open>Properties\<close>

text \<open>However signers submit, every round in the history was closed by at least the threshold
  of different signers, each counted once with its data; the rounds are closed in order; and the
  protocol is completed exactly when all four rounds are in the history.\<close>

theorem rounds_closed_by_threshold:
  "list_all (\<lambda>rs. distinct (map fst (rs_data rs)) \<and> unat t \<le> length (rs_data rs))
       (history (submit_all ms (round_coordinator_new now t n))) \<and>
     map round (history (submit_all ms (round_coordinator_new now t n)))
       = take (rounds_completed (submit_all ms (round_coordinator_new now t n))) rounds \<and>
     (current_round (submit_all ms (round_coordinator_new now t n)) = RoundCompleted
       \<longleftrightarrow> rounds_completed (submit_all ms (round_coordinator_new now t n)) = 4)"
proof -
  let ?rc = "submit_all ms (round_coordinator_new now t n)"
  have inv: "rc_inv ?rc" by (rule rc_inv_submit_all [OF rc_inv_new])
  have th: "threshold (submit_all ms rc) = threshold rc" for rc
    by (induction ms rc rule: submit_all.induct) simp_all
  have "unat t \<le> length (rs_data rs)" "distinct (map fst (rs_data rs))" if "rs \<in> set (history ?rc)" for rs
    using inv that th [of "round_coordinator_new now t n"] distinct_card [of "map fst (rs_data rs)"]
    by (auto simp: rc_inv_def round_ok_def round_coordinator_new_def)
  moreover have "map round (history ?rc) = take (rounds_completed ?rc) rounds"
    using round_of_history(2,3) [OF inv] by (simp add: rounds_completed_def)
  moreover have "current_round ?rc = RoundCompleted \<longleftrightarrow> rounds_completed ?rc = 4"
  proof -
    have "round (current ?rc) \<noteq> RoundAborted"
      using round_of_history(1,3) [OF inv] nth_mem [of "length (history ?rc)" "rounds @ [RoundCompleted]"]
      by (auto simp: rounds_def)
    then show ?thesis using not_terminal_index [OF inv]
      by (auto simp: current_round_def rounds_completed_def is_terminal_def)
  qed
  ultimately show ?thesis by (simp add: list_all_iff)
qed



end
