(* ===== verification/Distributed_Lock.thy ===== *)
theory Distributed_Lock
  imports Confium_Base
begin

text \<open>
  The lock manager (\<open>confium-coordinator/src/distributed_lock.rs\<close>): leases with a time to live and
  fencing tokens from a 64-bit counter. Every operation holds the mutex throughout and is one step.
\<close>

section \<open>Model\<close>

record lease =
  lease_resource :: string
  holder :: string
  fencing_token :: u64
  acquired_at :: instant
  lease_expires_at :: instant

record lock_manager =
  leases :: "(string \<times> lease) list"
  next_token :: u64

definition lock_manager_new :: lock_manager where
  "lock_manager_new = \<lparr>leases = [], next_token = 1\<rparr>"

definition lock_try_acquire ::
    "instant \<Rightarrow> string \<Rightarrow> string \<Rightarrow> duration \<Rightarrow> lock_manager \<Rightarrow> u64 option \<times> lock_manager" where
  "lock_try_acquire now res who ttl m =
     (if (case hm_get (leases m) res of
            Some l \<Rightarrow> holder l \<noteq> who \<and> now < lease_expires_at l
          | None \<Rightarrow> False)
      then (None, m)
      else (Some (next_token m),
            m\<lparr>next_token := next_token m + 1,
              leases := hm_insert res \<lparr>lease_resource = res, holder = who, fencing_token = next_token m,
                                      acquired_at = now, lease_expires_at = now + ttl\<rparr> (leases m)\<rparr>))"

definition lock_release :: "string \<Rightarrow> string \<Rightarrow> lock_manager \<Rightarrow> bool \<times> lock_manager" where
  "lock_release res who m =
     (case hm_get (leases m) res of
        None \<Rightarrow> (False, m)
      | Some l \<Rightarrow> if holder l = who then (True, m\<lparr>leases := hm_remove res (leases m)\<rparr>) else (False, m))"

definition lock_renew ::
    "instant \<Rightarrow> string \<Rightarrow> string \<Rightarrow> duration \<Rightarrow> lock_manager \<Rightarrow> instant option \<times> lock_manager" where
  "lock_renew now res who ttl m =
     (case hm_get (leases m) res of
        None \<Rightarrow> (None, m)
      | Some l \<Rightarrow>
          if holder l \<noteq> who then (None, m)
          else (Some (now + ttl), m\<lparr>leases := hm_insert res (l\<lparr>lease_expires_at := now + ttl\<rparr>) (leases m)\<rparr>))"

definition is_locked :: "instant \<Rightarrow> string \<Rightarrow> lock_manager \<Rightarrow> bool" where
  "is_locked now res m = (case hm_get (leases m) res of None \<Rightarrow> False | Some l \<Rightarrow> now < lease_expires_at l)"

definition lock_holder :: "string \<Rightarrow> lock_manager \<Rightarrow> string option" where
  "lock_holder res m = map_option holder (hm_get (leases m) res)"

definition purge_expired :: "instant \<Rightarrow> lock_manager \<Rightarrow> nat \<times> lock_manager" where
  "purge_expired now m =
     (let kept = filter (\<lambda>(_, l). now < lease_expires_at l) (leases m)
      in (length (leases m) - length kept, m\<lparr>leases := kept\<rparr>))"

definition active_leases :: "instant \<Rightarrow> lock_manager \<Rightarrow> nat" where
  "active_leases now m = length (filter (\<lambda>l. now < lease_expires_at l) (hm_values (leases m)))"

section \<open>Runs\<close>

datatype lock_op =
    Acquire instant string string duration
  | Release string string
  | Renew instant string string duration
  | Purge instant

fun lock_exec :: "lock_op \<Rightarrow> lock_manager \<Rightarrow> lock_manager" where
  "lock_exec (Acquire now res who ttl) m = snd (lock_try_acquire now res who ttl m)"
| "lock_exec (Release res who) m = snd (lock_release res who m)"
| "lock_exec (Renew now res who ttl) m = snd (lock_renew now res who ttl m)"
| "lock_exec (Purge now) m = snd (purge_expired now m)"

fun token_of :: "lock_op \<Rightarrow> lock_manager \<Rightarrow> u64 option" where
  "token_of (Acquire now res who ttl) m = fst (lock_try_acquire now res who ttl m)"
| "token_of _ m = None"

fun lock_run :: "lock_op list \<Rightarrow> lock_manager \<Rightarrow> u64 list \<times> lock_manager" where
  "lock_run [] m = ([], m)"
| "lock_run (op # ops) m =
     (case lock_run ops (lock_exec op m) of
        (ts, m') \<Rightarrow> ((case token_of op m of None \<Rightarrow> ts | Some t \<Rightarrow> t # ts), m'))"

text \<open>The operations that only the holder performs, or nobody.\<close>

fun by_holder :: "string \<Rightarrow> string \<Rightarrow> lock_op \<Rightarrow> bool" where
  "by_holder res who (Acquire now r h ttl) \<longleftrightarrow> r = res \<and> h = who"
| "by_holder res who (Release r h) \<longleftrightarrow> r = res \<and> h = who"
| "by_holder res who (Renew now r h ttl) \<longleftrightarrow> r = res \<and> h = who"
| "by_holder res who (Purge now) \<longleftrightarrow> False"

fun op_time :: "lock_op \<Rightarrow> instant option" where
  "op_time (Acquire now r h ttl) = Some now"
| "op_time (Release r h) = None"
| "op_time (Renew now r h ttl) = Some now"
| "op_time (Purge now) = Some now"

lemma filter_keys_get:
  assumes "hm_wf m" "hm_get m k = Some v" "P (k, v)"
  shows "hm_get (filter P m) k = Some v"
proof -
  have "hm_wf (filter P m)" using assms(1) by (simp add: hm_wf_def distinct_map_filter)
  with assms show ?thesis by (simp add: hm_get_iff)
qed

lemma lock_exec_wf: "hm_wf (leases m) \<Longrightarrow> hm_wf (leases (lock_exec op m))"
  by (cases op)
    (auto simp: lock_try_acquire_def lock_release_def lock_renew_def purge_expired_def Let_def hm_wf_def
      distinct_update distinct_delete distinct_map_filter split: option.splits)

lemma lock_exec_keeps:
  assumes "hm_wf (leases m)" "hm_get (leases m) res = Some l" "\<not> by_holder res (holder l) op"
    and "\<And>now. op_time op = Some now \<Longrightarrow> now < lease_expires_at l"
  shows "hm_get (leases (lock_exec op m)) res = Some l"
proof (cases op)
  case (Acquire now r h ttl)
  then show ?thesis using assms by (auto simp: lock_try_acquire_def split: if_splits)
next
  case (Release r h)
  then show ?thesis using assms by (auto simp: lock_release_def split: option.splits)
next
  case (Renew now r h ttl)
  then show ?thesis using assms by (auto simp: lock_renew_def split: option.splits)
next
  case (Purge now)
  then show ?thesis using assms by (auto simp: purge_expired_def Let_def intro!: filter_keys_get)
qed

lemma lock_run_keeps:
  assumes "hm_wf (leases m)" "hm_get (leases m) res = Some l"
    and "\<forall>op\<in>set ops. \<not> by_holder res (holder l) op \<and> (\<forall>now. op_time op = Some now \<longrightarrow> now < lease_expires_at l)"
  shows "hm_get (leases (snd (lock_run ops m))) res = Some l"
  using assms
proof (induction ops arbitrary: m)
  case (Cons op ops)
  have "hm_get (leases (lock_exec op m)) res = Some l" using Cons.prems by (intro lock_exec_keeps) auto
  with Cons lock_exec_wf [of m op] show ?case by (simp add: case_prod_beta)
qed simp

lemma token_exec:
  "token_of op m = Some t \<Longrightarrow> t = next_token m \<and> next_token (lock_exec op m) = next_token m + 1"
  "token_of op m = None \<Longrightarrow> next_token (lock_exec op m) = next_token m"
  by (cases op; auto simp: lock_try_acquire_def lock_release_def lock_renew_def purge_expired_def Let_def
      split: option.splits if_splits)+

lemma lock_run_tokens:
  assumes "lock_run ops m = (ts, m')" "unat (next_token m) + length ops < 2 ^ 64"
  shows "sorted_wrt (<) ts \<and> (\<forall>t\<in>set ts. next_token m \<le> t \<and> t < next_token m') \<and> next_token m \<le> next_token m'"
  using assms
proof (induction ops arbitrary: m ts)
  case (Cons op ops)
  obtain ts1 where r: "lock_run ops (lock_exec op m) = (ts1, m')" and ts: "ts = (case token_of op m of None \<Rightarrow> ts1 | Some t \<Rightarrow> t # ts1)"
    using Cons.prems(1) by (auto split: prod.splits)
  have nm: "next_token m \<noteq> - 1"
    using Cons.prems(2) by (auto simp: unsigned_minus_1_eq_mask mask_eq_exp_minus_1)
  show ?case
  proof (cases "token_of op m")
    case None
    with token_exec(2) [OF None] Cons.IH [OF r] Cons.prems(2) ts show ?thesis by simp
  next
    case (Some t)
    note te = token_exec(1) [OF Some]
    have lt: "next_token m < next_token m + 1" using less_plus_1 [OF order_refl nm] .
    have "unat (next_token (lock_exec op m)) + length ops < 2 ^ 64"
      using Cons.prems(2) te unat_plus_1 [OF nm] by simp
    from Cons.IH [OF r this] te lt ts Some show ?thesis by (auto intro: less_le_trans less_imp_le)
  qed
qed simp

section \<open>Properties\<close>


definition demo_locks :: lock_manager where
  "demo_locks = snd (lock_try_acquire 0 ''r'' ''a'' 100 lock_manager_new)"


text \<open>Fencing. The tokens that successful acquisitions return, over any sequence of operations
  on any resources, are strictly increasing, as long as the 64-bit counter does not run over.\<close>

theorem fencing_tokens_increase:
  assumes "unat (next_token m) + length ops < 2 ^ 64"
  shows "sorted_wrt (<) (fst (lock_run ops m))"
proof -
  obtain ts m' where "lock_run ops m = (ts, m')" by force
  with lock_run_tokens [OF this assms] show ?thesis by simp
qed

theorem fencing_tokens_increase_witness:
  "sorted_wrt (<) (fst (lock_run [Acquire 0 ''r'' ''a'' 5, Acquire 1 ''s'' ''b'' 5, Acquire 9 ''r'' ''b'' 5] lock_manager_new))
   \<and> fst (lock_run [Acquire 0 ''r'' ''a'' 5, Acquire 1 ''s'' ''b'' 5, Acquire 9 ''r'' ''b'' 5] lock_manager_new) = [1, 2, 3]"
proof -
  have "unat (next_token lock_manager_new) + length [Acquire 0 ''r'' ''a'' 5, Acquire 1 ''s'' ''b'' 5, Acquire 9 ''r'' ''b'' 5] < 2 ^ 64"
    by (simp add: lock_manager_new_def)
  from fencing_tokens_increase [OF this] show ?thesis
    by (simp add: lock_try_acquire_def lock_manager_new_def)
qed

end
