(* ===== verification/Flow_Control.thy ===== *)
theory Flow_Control
  imports Confium_Base
begin

text \<open>
  The circuit breaker (\<open>confium-coordinator/src/circuit_breaker.rs\<close>) as a sequential state machine,
  and the backpressure gate (\<open>confium-coordinator/src/coordinator/backpressure.rs\<close>) as threads that
  interleave at each access of the atomic counter. The counter counts the threads that passed its
  increment; it stays below the number of threads and does not wrap.
\<close>

section \<open>Circuit breaker\<close>

datatype circuit_state = Closed | Open | HalfOpen

record circuit_breaker =
  cb_state :: circuit_state
  failure_count :: u32
  success_count :: u32
  failure_threshold :: u32
  success_threshold :: u32
  timeout :: duration
  last_failure :: "instant option"

definition breaker_new :: "u32 \<Rightarrow> u32 \<Rightarrow> duration \<Rightarrow> circuit_breaker" where
  "breaker_new ft st t =
     \<lparr>cb_state = Closed, failure_count = 0, success_count = 0, failure_threshold = ft,
      success_threshold = st, timeout = t, last_failure = None\<rparr>"

definition breaker_state :: "instant \<Rightarrow> circuit_breaker \<Rightarrow> circuit_state" where
  "breaker_state now b =
     (case cb_state b of
        Open \<Rightarrow>
          (case last_failure b of
             Some l \<Rightarrow> if timeout b \<le> now - l then HalfOpen else Open
           | None \<Rightarrow> Open)
      | st \<Rightarrow> st)"

definition allow_request :: "instant \<Rightarrow> circuit_breaker \<Rightarrow> bool" where
  "allow_request now b =
     (case breaker_state now b of Closed \<Rightarrow> True | HalfOpen \<Rightarrow> True | Open \<Rightarrow> False)"

definition record_success :: "instant \<Rightarrow> circuit_breaker \<Rightarrow> circuit_breaker" where
  "record_success now b =
     (case breaker_state now b of
        HalfOpen \<Rightarrow>
          (let n = success_count b + 1
           in if success_threshold b \<le> n
              then b\<lparr>cb_state := Closed, failure_count := 0, success_count := 0\<rparr>
              else b\<lparr>success_count := n\<rparr>)
      | Closed \<Rightarrow> b\<lparr>failure_count := 0\<rparr>
      | Open \<Rightarrow> b)"

definition record_failure :: "instant \<Rightarrow> circuit_breaker \<Rightarrow> circuit_breaker" where
  "record_failure now b =
     (let b' = b\<lparr>last_failure := Some now\<rparr>
      in case cb_state b of
           Closed \<Rightarrow>
             (let n = failure_count b + 1
              in if failure_threshold b \<le> n
                 then b'\<lparr>failure_count := n, cb_state := Open\<rparr> else b'\<lparr>failure_count := n\<rparr>)
         | HalfOpen \<Rightarrow> b'\<lparr>cb_state := Open, success_count := 0\<rparr>
         | Open \<Rightarrow> b')"

definition breaker_reset :: "circuit_breaker \<Rightarrow> circuit_breaker" where
  "breaker_reset b = b\<lparr>cb_state := Closed, failure_count := 0, success_count := 0\<rparr>"

datatype breaker_op = Success instant | Failure instant | Reset

fun breaker_exec :: "breaker_op \<Rightarrow> circuit_breaker \<Rightarrow> circuit_breaker" where
  "breaker_exec (Success now) b = record_success now b"
| "breaker_exec (Failure now) b = record_failure now b"
| "breaker_exec Reset b = breaker_reset b"

text \<open>The stored state is never \<open>HalfOpen\<close>: half-open is only ever computed from an open breaker
  and the clock. An open breaker has a last failure.\<close>

definition breaker_inv :: "circuit_breaker \<Rightarrow> bool" where
  "breaker_inv b \<longleftrightarrow> cb_state b \<noteq> HalfOpen \<and> (cb_state b = Open \<longrightarrow> last_failure b \<noteq> None)"

interpretation breaker: op_invariant breaker_exec breaker_inv
proof unfold_locales
  fix b op assume "breaker_inv b"
  then show "breaker_inv (breaker_exec op b)"
    by (cases op) (auto simp: breaker_inv_def record_success_def record_failure_def breaker_reset_def Let_def
        split: circuit_state.split)
qed

fun failures :: "instant list \<Rightarrow> circuit_breaker \<Rightarrow> circuit_breaker" where
  "failures [] b = b"
| "failures (t # ts) b = failures ts (record_failure t b)"

lemma failures_counted:
  assumes "cb_state b = Closed" "unat (failure_count b) + length ts < unat (failure_threshold b)"
  shows "cb_state (failures ts b) = Closed \<and> unat (failure_count (failures ts b)) = unat (failure_count b) + length ts \<and>
     failure_threshold (failures ts b) = failure_threshold b \<and> timeout (failures ts b) = timeout b"
  using assms
proof (induction ts arbitrary: b)
  case (Cons t ts)
  have "unat (failure_count b) + 1 < 2 ^ 32" using Cons.prems(2) unat_u32_less [of "failure_threshold b"] by simp
  then have n: "unat (failure_count b + 1) = Suc (unat (failure_count b))"
    by (simp add: unat_word_ariths)
  then have "\<not> failure_threshold b \<le> failure_count b + 1"
    using Cons.prems(2) by (simp add: word_le_nat_alt)
  then have b: "record_failure t b = b\<lparr>last_failure := Some t, failure_count := failure_count b + 1\<rparr>"
    using Cons.prems(1) by (simp add: record_failure_def Let_def)
  show ?case using Cons.IH [of "record_failure t b"] Cons.prems n b by simp
qed simp

text \<open>The breaker trips. Fewer consecutive failures than the threshold leave a fresh breaker
  closed; the failure that reaches the threshold opens it, and it then refuses every request until
  the timeout has elapsed since that failure, and lets requests through after it.\<close>

theorem breaker_trips:
  assumes "Suc (length ts) = unat ft"
  shows "cb_state (failures ts (breaker_new ft st t)) = Closed \<and>
     cb_state (failures (ts @ [now]) (breaker_new ft st t)) = Open \<and>
     (allow_request later (failures (ts @ [now]) (breaker_new ft st t)) \<longleftrightarrow> t \<le> later - now)"
proof -
  let ?b = "failures ts (breaker_new ft st t)"
  have c: "cb_state ?b = Closed" "unat (failure_count ?b) = length ts" "failure_threshold ?b = ft" "timeout ?b = t"
    using failures_counted [of "breaker_new ft st t" ts] assms by (simp_all add: breaker_new_def)
  have app: "failures (ts @ [now]) b = record_failure now (failures ts b)" for b
    by (induction ts arbitrary: b) simp_all
  have "unat (failure_count ?b + 1) = Suc (length ts)"
    using c(2) assms unat_u32_less [of ft] by (simp add: unat_word_ariths)
  then have "ft \<le> failure_count ?b + 1" using assms by (simp add: word_le_nat_alt)
  then show ?thesis using c
    by (simp add: app record_failure_def Let_def allow_request_def breaker_state_def)
qed

theorem breaker_trips_witness:
  "cb_state (failures [1, 2] (breaker_new 3 1 10)) = Closed \<and>
   cb_state (failures ([1, 2] @ [5]) (breaker_new 3 1 10)) = Open \<and>
   (allow_request 9 (failures ([1, 2] @ [5]) (breaker_new 3 1 10)) \<longleftrightarrow> (10::int) \<le> 9 - 5)"
  by (rule breaker_trips) simp

text \<open>Whatever happened before, a failure while the breaker is half-open keeps the count of
  successes: the branch of \<open>record_failure\<close> that resets it is never taken, since the stored state
  is never \<open>HalfOpen\<close>. Successes of different half-open periods add up.\<close>

theorem half_open_failure_keeps_successes:
  assumes "breaker_state now (fold breaker_exec ops (breaker_new ft st t)) = HalfOpen"
  shows "success_count (record_failure now (fold breaker_exec ops (breaker_new ft st t))) =
         success_count (fold breaker_exec ops (breaker_new ft st t)) \<and>
         cb_state (fold breaker_exec ops (breaker_new ft st t)) = Open"
proof -
  have "breaker_inv (breaker_new ft st t)" by (simp add: breaker_inv_def breaker_new_def)
  then have "breaker_inv (fold breaker_exec ops (breaker_new ft st t))" by (rule breaker.run_inv)
  with assms show ?thesis
    by (auto simp: breaker_inv_def breaker_state_def record_failure_def Let_def split: circuit_state.splits)
qed

theorem half_open_failure_keeps_successes_witness:
  "success_count (record_failure 30 (fold breaker_exec [Failure 0, Success 15] (breaker_new 1 2 10))) =
     success_count (fold breaker_exec [Failure 0, Success 15] (breaker_new 1 2 10)) \<and>
   cb_state (fold breaker_exec [Failure 0, Success 15] (breaker_new 1 2 10)) = Open"
  by (rule half_open_failure_keeps_successes) code_simp

section \<open>Backpressure\<close>

datatype backpressure_error = AtCapacity nat nat

text \<open>A thread of \<open>try_acquire\<close>: before the increment; after an increment that found the gate
  full, about to undo it; holding a slot that its drop releases.\<close>

datatype pc = Idle | Undo nat | Holding

record gate =
  max_active :: nat
  active :: nat
  threads :: "pc list"

definition gate_new :: "nat \<Rightarrow> nat \<Rightarrow> gate" where
  "gate_new mx n = \<lparr>max_active = mx, active = 0, threads = replicate n Idle\<rparr>"

definition is_at_capacity :: "gate \<Rightarrow> bool" where
  "is_at_capacity g \<longleftrightarrow> 0 < max_active g \<and> max_active g \<le> active g"

text \<open>The steps of thread \<open>i\<close>: \<open>fetch_add\<close> with the test of the old value, the \<open>fetch_sub\<close> of a
  refused attempt, the \<open>fetch_sub\<close> of a dropped slot.\<close>

inductive gate_step :: "gate \<Rightarrow> gate \<Rightarrow> bool" where
  take_slot: "\<lbrakk>i < length (threads g); threads g ! i = Idle; 0 < max_active g; active g < max_active g\<rbrakk>
    \<Longrightarrow> gate_step g (g\<lparr>active := active g + 1, threads := (threads g)[i := Holding]\<rparr>)"
| find_full: "\<lbrakk>i < length (threads g); threads g ! i = Idle; 0 < max_active g; max_active g \<le> active g\<rbrakk>
    \<Longrightarrow> gate_step g (g\<lparr>active := active g + 1, threads := (threads g)[i := Undo (active g)]\<rparr>)"
| undo: "\<lbrakk>i < length (threads g); threads g ! i = Undo n\<rbrakk>
    \<Longrightarrow> gate_step g (g\<lparr>active := active g - 1, threads := (threads g)[i := Idle]\<rparr>)"
| drop_slot: "\<lbrakk>i < length (threads g); threads g ! i = Holding\<rbrakk>
    \<Longrightarrow> gate_step g (g\<lparr>active := active g - 1, threads := (threads g)[i := Idle]\<rparr>)"

inductive_cases gate_stepE: "gate_step g g'"

inductive gate_reachable :: "nat \<Rightarrow> nat \<Rightarrow> gate \<Rightarrow> bool" for mx n where
  gate_init: "gate_reachable mx n (gate_new mx n)"
| gate_next: "gate_reachable mx n g \<Longrightarrow> gate_step g g' \<Longrightarrow> gate_reachable mx n g'"

definition holding :: "gate \<Rightarrow> nat" where
  "holding g = count_list (threads g) Holding"

definition busy :: "gate \<Rightarrow> nat" where
  "busy g = length (filter (\<lambda>p. p \<noteq> Idle) (threads g))"

definition gate_inv :: "nat \<Rightarrow> nat \<Rightarrow> gate \<Rightarrow> bool" where
  "gate_inv mx n g \<longleftrightarrow> max_active g = mx \<and> length (threads g) = n \<and> active g = busy g \<and> holding g \<le> mx"

lemma length_filter_update:
  "i < length xs \<Longrightarrow> length (filter P (xs[i := x])) + (if P (xs ! i) then 1 else 0) =
     length (filter P xs) + (if P x then 1 else 0)"
proof (induction xs arbitrary: i)
  case (Cons a xs)
  then show ?case using Cons.IH [of "i - 1"] by (cases i) auto
qed simp

lemma count_list_filter: "count_list xs x = length (filter (\<lambda>y. y = x) xs)"
  by (induction xs) auto

lemma holding_le_busy: "holding g \<le> busy g"
proof -
  have "length (filter (\<lambda>p. p = Holding) ps) \<le> length (filter (\<lambda>p. p \<noteq> Idle) ps)" for ps
    by (induction ps) auto
  then show ?thesis by (simp add: holding_def busy_def count_list_filter)
qed

lemma gate_step_inv:
  assumes "gate_step g g'" "gate_inv mx n g" shows "gate_inv mx n g'"
  using assms
proof (induction rule: gate_step.induct)
  case (take_slot i g)
  then show ?case
    using length_filter_update [of i "threads g" "\<lambda>p. p \<noteq> Idle" Holding]
      length_filter_update [of i "threads g" "\<lambda>p. p = Holding" Holding] holding_le_busy [of g]
    by (auto simp: gate_inv_def busy_def holding_def count_list_filter)
next
  case (find_full i g)
  then show ?case
    using length_filter_update [of i "threads g" "\<lambda>p. p \<noteq> Idle" "Undo (active g)"]
      length_filter_update [of i "threads g" "\<lambda>p. p = Holding" "Undo (active g)"]
    by (auto simp: gate_inv_def busy_def holding_def count_list_filter)
next
  case (undo i g m)
  then show ?case
    using length_filter_update [of i "threads g" "\<lambda>p. p \<noteq> Idle" Idle]
      length_filter_update [of i "threads g" "\<lambda>p. p = Holding" Idle]
    by (auto simp: gate_inv_def busy_def holding_def count_list_filter)
next
  case (drop_slot i g)
  then show ?case
    using length_filter_update [of i "threads g" "\<lambda>p. p \<noteq> Idle" Idle]
      length_filter_update [of i "threads g" "\<lambda>p. p = Holding" Idle]
    by (auto simp: gate_inv_def busy_def holding_def count_list_filter)
qed

lemma gate_reachable_inv: "gate_reachable mx n g \<Longrightarrow> gate_inv mx n g"
proof (induction rule: gate_reachable.induct)
  case gate_init
  show ?case by (simp add: gate_inv_def gate_new_def busy_def holding_def count_list_filter)
next
  case (gate_next g g')
  then show ?case by (blast intro: gate_step_inv)
qed



end
