(* ===== verification/Shamir.thy ===== *)
theory Shamir
  imports Complex_Main Confium_Base
begin

text \<open>
  Shamir secret sharing (\<open>confium-tc-frost-p256/src/shamir.rs\<close>, \<open>scalar.rs\<close>) and Feldman's
  verifiable sharing (\<open>confium-crypto-vss/src/vss.rs\<close>). The scalars of the curve library are any
  field, the curve points any group with a scalar multiplication; the embedding of small integers
  into the scalars, the random coefficients and the point encoding are arguments. The inverse of
  zero is zero, as in \<open>scalar_invert\<close> and in HOL.
\<close>

section \<open>Model\<close>

record 'a shamir_share =
  share_x :: u32
  share_y :: 'a

datatype shamir_error = InsufficientShares nat u32 | DuplicateX u32

definition evaluate_polynomial :: "'a::field list \<Rightarrow> 'a \<Rightarrow> 'a" where
  "evaluate_polynomial coeffs z = foldl (\<lambda>res c. res * z + c) 0 (rev coeffs)"

text \<open>\<open>split_secret\<close>: the assertions on the threshold panic; the random coefficients are an
  argument, one less than the threshold.\<close>

definition split_secret ::
    "(u32 \<Rightarrow> 'a::field) \<Rightarrow> 'a list \<Rightarrow> 'a \<Rightarrow> u32 \<Rightarrow> u32 \<Rightarrow> 'a shamir_share list option" where
  "split_secret emb rnd secret t n =
     (if \<not> (1 \<le> t) then None
      else if \<not> (t \<le> n) then None
      else let coeffs = secret # take (unat t - 1) rnd
           in Some (map (\<lambda>i. \<lparr>share_x = of_nat i, share_y = evaluate_polynomial coeffs (emb (of_nat i))\<rparr>)
                      [1..<Suc (unat n)]))"

fun first_duplicate :: "u32 list \<Rightarrow> u32 list \<Rightarrow> u32 option" where
  "first_duplicate seen [] = None"
| "first_duplicate seen (a # as) = (if a \<in> set seen then Some a else first_duplicate (a # seen) as)"

definition numerator :: "(u32 \<Rightarrow> 'a::field) \<Rightarrow> 'a shamir_share list \<Rightarrow> 'a shamir_share \<Rightarrow> 'a" where
  "numerator emb shs si = foldl (\<lambda>acc sj. if share_x sj = share_x si then acc else acc * (0 - emb (share_x sj))) 1 shs"

definition denominator :: "(u32 \<Rightarrow> 'a::field) \<Rightarrow> 'a shamir_share list \<Rightarrow> 'a shamir_share \<Rightarrow> 'a" where
  "denominator emb shs si =
     foldl (\<lambda>acc sj. if share_x sj = share_x si then acc else acc * (emb (share_x si) - emb (share_x sj))) 1 shs"

definition recover_secret :: "(u32 \<Rightarrow> 'a::field) \<Rightarrow> 'a shamir_share list \<Rightarrow> shamir_error + 'a" where
  "recover_secret emb shs =
     (if shs = [] then Inl (InsufficientShares 0 1)
      else case first_duplicate [] (map share_x shs) of
             Some d \<Rightarrow> Inl (DuplicateX d)
           | None \<Rightarrow> Inr (foldl (\<lambda>s si. s + share_y si * (numerator emb shs si * inverse (denominator emb shs si))) 0 shs))"

section \<open>Polynomial functions\<close>

definition poly_fun :: "nat \<Rightarrow> ('a::field \<Rightarrow> 'a) \<Rightarrow> bool" where
  "poly_fun n f \<longleftrightarrow> (\<exists>c. \<forall>z. f z = (\<Sum>k<n. c k * z ^ k))"

lemma poly_funI: "(\<And>z. f z = (\<Sum>k<n. c k * z ^ k)) \<Longrightarrow> poly_fun n f"
  by (auto simp: poly_fun_def)

lemma poly_fun_mono:
  assumes "poly_fun m f" "m \<le> n" shows "poly_fun n f"
proof -
  obtain c where c: "\<And>z. f z = (\<Sum>k<m. c k * z ^ k)" using assms(1) by (auto simp: poly_fun_def)
  show ?thesis
  proof (rule poly_funI [where c = "\<lambda>k. if k < m then c k else 0"])
    fix z
    have "(\<Sum>k<m. c k * z ^ k) = (\<Sum>k<n. (if k < m then c k else 0) * z ^ k)"
      by (rule sum.mono_neutral_cong_left) (use assms(2) in auto)
    then show "f z = (\<Sum>k<n. (if k < m then c k else 0) * z ^ k)" by (simp add: c)
  qed
qed

lemma poly_fun_0: "poly_fun n (\<lambda>z. 0)"
  by (rule poly_funI [where c = "\<lambda>_. 0"]) simp

lemma poly_fun_add:
  assumes "poly_fun n f" "poly_fun n g" shows "poly_fun n (\<lambda>z. f z + g z)"
proof -
  obtain c d where "\<And>z. f z = (\<Sum>k<n. c k * z ^ k)" "\<And>z. g z = (\<Sum>k<n. d k * z ^ k)"
    using assms by (auto simp: poly_fun_def)
  then show ?thesis
    by (intro poly_funI [where c = "\<lambda>k. c k + d k"]) (simp add: sum.distrib distrib_right)
qed

lemma poly_fun_scale:
  assumes "poly_fun n f" shows "poly_fun n (\<lambda>z. a * f z)"
proof -
  obtain c where "\<And>z. f z = (\<Sum>k<n. c k * z ^ k)" using assms by (auto simp: poly_fun_def)
  then show ?thesis by (intro poly_funI [where c = "\<lambda>k. a * c k"]) (simp add: sum_distrib_left mult.assoc)
qed

lemma poly_fun_diff: "poly_fun n f \<Longrightarrow> poly_fun n g \<Longrightarrow> poly_fun n (\<lambda>z. f z - g z)"
  using poly_fun_add [of n f "\<lambda>z. - 1 * g z"] poly_fun_scale [of n g "- 1"] by simp

lemma poly_fun_mult_var:
  assumes "poly_fun n f" shows "poly_fun (Suc n) (\<lambda>z. z * f z)"
proof -
  obtain c where c: "\<And>z. f z = (\<Sum>k<n. c k * z ^ k)" using assms by (auto simp: poly_fun_def)
  show ?thesis
  proof (rule poly_funI [where c = "\<lambda>k. case k of 0 \<Rightarrow> 0 | Suc j \<Rightarrow> c j"])
    fix z
    show "z * f z = (\<Sum>k<Suc n. (case k of 0 \<Rightarrow> 0 | Suc j \<Rightarrow> c j) * z ^ k)"
      unfolding c sum.lessThan_Suc_shift by (simp add: sum_distrib_left mult.commute mult.left_commute)
  qed
qed

lemma poly_fun_linear:
  assumes "poly_fun n f" shows "poly_fun (Suc n) (\<lambda>z. (z - a) * f z)"
  using poly_fun_diff [OF poly_fun_mult_var [OF assms] poly_fun_scale [OF poly_fun_mono [OF assms], of "Suc n" a]]
  by (simp add: left_diff_distrib)

lemma poly_fun_1: "poly_fun (Suc 0) (\<lambda>z. 1)"
  by (rule poly_funI [where c = "\<lambda>_. 1"]) simp

lemma poly_fun_sum: "finite A \<Longrightarrow> (\<And>i. i \<in> A \<Longrightarrow> poly_fun n (f i)) \<Longrightarrow> poly_fun n (\<lambda>z. \<Sum>i\<in>A. f i z)"
  by (induction A rule: finite_induct) (simp_all add: poly_fun_0 poly_fun_add)

lemma poly_fun_power_quotient: "k \<le> n \<Longrightarrow> poly_fun n (\<lambda>z. \<Sum>i<k. a ^ (k - Suc i) * z ^ i)"
  by (rule poly_fun_mono [of k]) (auto intro: poly_funI)

lemma poly_fun_root:
  assumes "poly_fun (Suc n) f" "f a = 0"
  obtains g where "poly_fun n g" "\<And>z. f z = (z - a) * g z"
proof -
  obtain c where c: "\<And>z. f z = (\<Sum>k<Suc n. c k * z ^ k)" using assms(1) by (auto simp: poly_fun_def)
  let ?g = "\<lambda>z. \<Sum>k<Suc n. c k * (\<Sum>i<k. a ^ (k - Suc i) * z ^ i)"
  have "poly_fun n ?g" by (intro poly_fun_sum poly_fun_scale poly_fun_power_quotient) auto
  moreover have "f z = (z - a) * ?g z" for z
  proof -
    have "f z = f z - f a" using assms(2) by simp
    also have "\<dots> = (\<Sum>k<Suc n. c k * (z ^ k - a ^ k))"
      unfolding c by (simp only: sum_subtractf [symmetric] right_diff_distrib)
    also have "\<dots> = (z - a) * ?g z"
      by (simp only: power_diff_sumr2 sum_distrib_left mult.left_commute)
    finally show ?thesis .
  qed
  ultimately show thesis by (rule that)
qed

lemma poly_fun_zero:
  assumes "poly_fun n f" "distinct as" "length as = n" "\<forall>a\<in>set as. f a = 0"
  shows "f z = 0"
  using assms
proof (induction n arbitrary: f as)
  case 0
  then show ?case by (auto simp: poly_fun_def)
next
  case (Suc n)
  then obtain a bs where as: "as = a # bs" by (cases as) auto
  obtain g where g: "poly_fun n g" "\<And>z. f z = (z - a) * g z"
    using poly_fun_root [OF Suc.prems(1), of a] Suc.prems(4) as by auto
  have "\<forall>b\<in>set bs. g b = 0" using Suc.prems(2,4) as g(2) by auto
  then have "g z = 0" using Suc.IH [OF g(1), of bs] Suc.prems(2,3) as by simp
  then show ?case by (simp add: g(2))
qed

lemma poly_fun_evaluate: "poly_fun (length cs) (evaluate_polynomial cs)"
proof (induction cs)
  case Nil
  show ?case by (simp add: evaluate_polynomial_def poly_fun_def)
next
  case (Cons c cs)
  have "evaluate_polynomial (c # cs) = (\<lambda>z. z * evaluate_polynomial cs z + c * 1)"
    by (simp add: evaluate_polynomial_def fun_eq_iff mult.commute)
  moreover have "poly_fun (Suc (length cs)) (\<lambda>z. z * evaluate_polynomial cs z + c * 1)"
    by (intro poly_fun_add poly_fun_mult_var Cons poly_fun_scale poly_fun_mono [OF poly_fun_1]) simp
  ultimately show ?case by simp
qed

lemma evaluate_polynomial_0: "evaluate_polynomial (c # cs) 0 = c"
  by (simp add: evaluate_polynomial_def)

section \<open>Lagrange interpolation\<close>

text \<open>The factors of the code with the point \<open>z\<close> in place of zero.\<close>

definition basis_at :: "(u32 \<Rightarrow> 'a::field) \<Rightarrow> 'a shamir_share list \<Rightarrow> 'a shamir_share \<Rightarrow> 'a \<Rightarrow> 'a" where
  "basis_at emb shs si z =
     foldl (\<lambda>acc sj. if share_x sj = share_x si then acc else acc * (z - emb (share_x sj))) 1 shs"

definition interpolate :: "(u32 \<Rightarrow> 'a::field) \<Rightarrow> 'a shamir_share list \<Rightarrow> 'a \<Rightarrow> 'a" where
  "interpolate emb shs z =
     (\<Sum>si\<leftarrow>shs. share_y si * (basis_at emb shs si z * inverse (basis_at emb shs si (emb (share_x si)))))"

lemma basis_prod:
  "basis_at emb shs si z =
     (\<Prod>sj\<leftarrow>filter (\<lambda>sj. share_x sj \<noteq> share_x si) shs. (z - emb (share_x sj)))"
proof -
  have "foldl (\<lambda>acc sj. if share_x sj = share_x si then acc else acc * (z - emb (share_x sj))) a shs =
      a * (\<Prod>sj\<leftarrow>filter (\<lambda>sj. share_x sj \<noteq> share_x si) shs. (z - emb (share_x sj)))" for a
    by (induction shs arbitrary: a) (simp_all add: mult.assoc)
  then show ?thesis by (simp add: basis_at_def)
qed

lemma poly_fun_prod_list: "poly_fun (Suc (length as)) (\<lambda>z. \<Prod>a\<leftarrow>as. (z - f a))"
  by (induction as) (simp_all add: poly_fun_1 poly_fun_linear)

lemma poly_fun_basis:
  assumes "si \<in> set shs" shows "poly_fun (length shs) (basis_at emb shs si)"
proof -
  let ?fs = "filter (\<lambda>sj. share_x sj \<noteq> share_x si) shs"
  have "length ?fs < length shs" using assms by (rule length_filter_less) simp
  then show ?thesis
    using poly_fun_mono [OF poly_fun_prod_list [of ?fs "\<lambda>sj. emb (share_x sj)"]]
    by (simp add: basis_prod [abs_def] Suc_le_eq)
qed

lemma poly_fun_sum_list: "(\<And>s. s \<in> set ss \<Longrightarrow> poly_fun n (f s)) \<Longrightarrow> poly_fun n (\<lambda>z. \<Sum>s\<leftarrow>ss. f s z)"
  by (induction ss) (simp_all add: poly_fun_0 poly_fun_add)

lemma poly_fun_interpolate: "poly_fun (length shs) (interpolate emb shs)"
  unfolding interpolate_def [abs_def]
proof (rule poly_fun_sum_list)
  fix s assume "s \<in> set shs"
  then have "poly_fun (length shs) (\<lambda>z. (share_y s * inverse (basis_at emb shs s (emb (share_x s)))) * basis_at emb shs s z)"
    by (intro poly_fun_scale poly_fun_basis)
  then show "poly_fun (length shs) (\<lambda>z. share_y s * (basis_at emb shs s z * inverse (basis_at emb shs s (emb (share_x s)))))"
    by (simp add: mult.assoc mult.commute [of "inverse _"])
qed

lemma basis_zero:
  assumes "sk \<in> set shs" "share_x sk \<noteq> share_x si"
  shows "basis_at emb shs si (emb (share_x sk)) = 0"
  using assms by (auto simp: basis_prod prod_list_zero_iff image_iff intro!: bexI [of _ sk])

lemma basis_nonzero:
  assumes "inj emb" shows "basis_at emb shs si (emb (share_x si)) \<noteq> 0"
  using assms by (auto simp: basis_prod prod_list_zero_iff inj_eq)

lemma sum_list_single:
  fixes f :: "'b \<Rightarrow> 'a::comm_monoid_add"
  assumes "distinct ss" "s \<in> set ss" "\<And>u. u \<in> set ss \<Longrightarrow> u \<noteq> s \<Longrightarrow> f u = 0"
  shows "(\<Sum>u\<leftarrow>ss. f u) = f s"
proof -
  have "(\<Sum>u\<leftarrow>ss. f u) = (\<Sum>u\<in>set ss. f u)" using assms(1) by (rule sum_list_distinct_conv_sum_set)
  also have "\<dots> = (\<Sum>u\<in>{s}. f u)" using assms(2,3) by (intro sum.mono_neutral_right) auto
  finally show ?thesis by simp
qed

lemma interpolate_at:
  assumes "inj emb" "distinct (map share_x shs)" "s \<in> set shs"
  shows "interpolate emb shs (emb (share_x s)) = share_y s"
proof -
  have d: "distinct shs" and inj: "inj_on share_x (set shs)" using assms(2) by (simp_all add: distinct_map)
  have "interpolate emb shs (emb (share_x s)) =
      share_y s * (basis_at emb shs s (emb (share_x s)) * inverse (basis_at emb shs s (emb (share_x s))))"
    unfolding interpolate_def
    by (rule sum_list_single [OF d assms(3)]) (use assms(3) inj in \<open>auto intro!: basis_zero dest: inj_onD\<close>)
  then show ?thesis using basis_nonzero [OF assms(1)] by simp
qed

lemma interpolate_unique:
  assumes "inj emb" "distinct (map share_x shs)" "poly_fun (length shs) f"
    and "\<And>s. s \<in> set shs \<Longrightarrow> share_y s = f (emb (share_x s))"
  shows "interpolate emb shs z = f z"
proof -
  have "interpolate emb shs z - f z = 0"
  proof (rule poly_fun_zero [where f = "\<lambda>z. interpolate emb shs z - f z" and n = "length shs"
        and as = "map (\<lambda>s. emb (share_x s)) shs"])
    show "poly_fun (length shs) (\<lambda>z. interpolate emb shs z - f z)"
      by (rule poly_fun_diff [OF poly_fun_interpolate assms(3)])
    show "distinct (map (\<lambda>s. emb (share_x s)) shs)"
      using assms(1,2) by (auto simp: distinct_map comp_def inj_on_def dest: injD)
    show "\<forall>a\<in>set (map (\<lambda>s. emb (share_x s)) shs). interpolate emb shs a - f a = 0"
      using interpolate_at [OF assms(1,2)] assms(4) by auto
  qed simp
  then show ?thesis by simp
qed

lemma first_duplicate_None: "first_duplicate seen as = None \<longleftrightarrow> distinct as \<and> set as \<inter> set seen = {}"
  by (induction seen as rule: first_duplicate.induct) auto

lemma recover_secret_interpolate:
  assumes "shs \<noteq> []" "distinct (map share_x shs)"
  shows "recover_secret emb shs = Inr (interpolate emb shs 0)"
proof -
  have nd: "numerator emb shs si = basis_at emb shs si 0"
    "denominator emb shs si = basis_at emb shs si (emb (share_x si))" for si
    by (simp_all add: numerator_def denominator_def basis_at_def)
  have "foldl (\<lambda>s si. s + f si) a ss = a + (\<Sum>s\<leftarrow>ss. f s)" for f :: "'a shamir_share \<Rightarrow> 'a" and a ss
    by (induction ss arbitrary: a) (simp_all add: add.assoc)
  moreover have "first_duplicate [] (map share_x shs) = None" using assms(2) by (simp add: first_duplicate_None)
  ultimately show ?thesis using assms(1) by (simp add: recover_secret_def interpolate_def nd)
qed

section \<open>Shares of one secret\<close>

lemma split_secret_shares:
  assumes "split_secret emb rnd secret t n = Some shs"
  shows "s \<in> set shs \<Longrightarrow> share_y s = evaluate_polynomial (secret # take (unat t - 1) rnd) (emb (share_x s))"
    and "length shs = unat n" "1 \<le> unat t" "unat t \<le> unat n"
  using assms by (auto simp: split_secret_def word_le_nat_alt Let_def split: if_splits)

text \<open>C7: Any collection of at least \<open>t\<close> shares with different indices, in any order, of a secret
  that was split with threshold \<open>t\<close> recovers the secret, whatever the random coefficients were. The
  embedding of the party indices into the scalars is one-to-one.\<close>

theorem shamir_recovers:
  assumes "inj emb" and "split_secret emb rnd secret t n = Some shs"
    and "set ss \<subseteq> set shs" and "distinct (map share_x ss)" and "unat t \<le> length ss"
  shows "recover_secret emb ss = Inr secret"
proof -
  let ?cs = "secret # take (unat t - 1) rnd"
  note sp = split_secret_shares [OF assms(2)]
  have "poly_fun (length ss) (evaluate_polynomial ?cs)"
    by (rule poly_fun_mono [OF poly_fun_evaluate]) (use sp(3) assms(5) in auto)
  then have "interpolate emb ss 0 = evaluate_polynomial ?cs 0"
    by (rule interpolate_unique [OF assms(1,4)]) (use sp(1) assms(3) in auto)
  moreover have "ss \<noteq> []" using sp(3) assms(5) by auto
  ultimately show ?thesis
    using recover_secret_interpolate [OF _ assms(4), of emb] by (simp add: evaluate_polynomial_0)
qed

definition rat_emb :: "u32 \<Rightarrow> rat" where
  "rat_emb w = of_nat (unat w)"

theorem shamir_recovers_witness:
  "recover_secret rat_emb [\<lparr>share_x = 3, share_y = 11\<rparr>, \<lparr>share_x = 1, share_y = 7\<rparr>] = Inr 5"
proof (rule shamir_recovers)
  show "inj rat_emb" by (rule injI) (simp only: rat_emb_def of_nat_eq_iff word_unat_eq_iff)
  show "split_secret rat_emb [2] 5 2 3 = Some [\<lparr>share_x = 1, share_y = 7\<rparr>, \<lparr>share_x = 2, share_y = 9\<rparr>, \<lparr>share_x = 3, share_y = 11\<rparr>]"
    by (simp add: split_secret_def evaluate_polynomial_def rat_emb_def upt_rec)
qed simp_all

text \<open>Recovery refuses an empty collection and one with a repeated index, naming the index.\<close>

theorem recover_secret_errors:
  "recover_secret emb [] = Inl (InsufficientShares 0 1) \<and>
   ((\<exists>d. recover_secret emb (s # ss) = Inl (DuplicateX d)) \<longleftrightarrow> \<not> distinct (map share_x (s # ss)))"
proof -
  have "(\<exists>d. recover_secret emb (s # ss) = Inl (DuplicateX d)) \<longleftrightarrow> first_duplicate [] (map share_x (s # ss)) \<noteq> None"
    by (cases "first_duplicate [] (map share_x (s # ss))") (simp_all add: recover_secret_def)
  also have "\<dots> \<longleftrightarrow> \<not> distinct (map share_x (s # ss))" unfolding first_duplicate_None by simp
  finally show ?thesis by (simp only: recover_secret_def) simp
qed

section \<open>Feldman commitments\<close>

text \<open>The group of curve points with generator \<open>gen\<close> and the multiplication \<open>smul\<close> of a point by
  a scalar: multiplication distributes over the addition of scalars, composes, and the generator
  has the order of the scalar field.\<close>

definition scalar_action :: "('a::field \<Rightarrow> 'g::ab_group_add \<Rightarrow> 'g) \<Rightarrow> 'g \<Rightarrow> bool" where
  "scalar_action smul gen \<longleftrightarrow>
     (\<forall>a b p. smul (a + b) p = smul a p + smul b p) \<and> (\<forall>a b p. smul (a * b) p = smul a (smul b p)) \<and>
     (\<forall>a b. smul a gen = smul b gen \<longrightarrow> a = b)"

record 'g vss_commitment =
  commitments :: "'g list"

definition vss_new :: "'g list \<Rightarrow> 'g vss_commitment" where
  "vss_new cs = \<lparr>commitments = cs\<rparr>"

definition vss_threshold :: "'g vss_commitment \<Rightarrow> nat" where
  "vss_threshold c = length (commitments c)"

definition joint_public_key :: "'g vss_commitment \<Rightarrow> 'g option" where
  "joint_public_key c = (case commitments c of [] \<Rightarrow> None | p # _ \<Rightarrow> Some p)"

fun verify_loop ::
    "('a::field \<Rightarrow> 'g::ab_group_add \<Rightarrow> 'g) \<Rightarrow> 'a \<Rightarrow> 'g list \<Rightarrow> 'g \<Rightarrow> 'a \<Rightarrow> 'g" where
  "verify_loop smul z [] rhs z_pow = rhs"
| "verify_loop smul z (c # cs) rhs z_pow = verify_loop smul z cs (rhs + smul z_pow c) (z_pow * z)"

definition verify_share ::
    "('a::field \<Rightarrow> 'g::ab_group_add \<Rightarrow> 'g) \<Rightarrow> 'g \<Rightarrow> (u64 \<Rightarrow> 'a) \<Rightarrow> 'g vss_commitment \<Rightarrow> u64 \<Rightarrow> 'a \<Rightarrow> bool" where
  "verify_share smul gen emb64 c idx sh \<longleftrightarrow>
     smul sh gen = verify_loop smul (emb64 idx) (commitments c) 0 1"

text \<open>Encoding and decoding of the commitments; the point codec of the curve library is an
  argument. A compressed point has 33 bytes.\<close>

definition vss_encode :: "('g \<Rightarrow> bytes) \<Rightarrow> 'g vss_commitment \<Rightarrow> bytes" where
  "vss_encode enc c = concat (map enc (commitments c))"

function decode_chunks :: "(bytes \<Rightarrow> 'g option) \<Rightarrow> bytes \<Rightarrow> 'g list option" where
  "decode_chunks dec bs =
     (if length bs < 33 then Some []
      else case dec (take 33 bs) of
             None \<Rightarrow> None
           | Some p \<Rightarrow> map_option ((#) p) (decode_chunks dec (drop 33 bs)))"
  by pat_completeness auto
termination
  by (relation "measure (\<lambda>(dec, bs). length bs)") auto

declare decode_chunks.simps [simp del]

definition vss_decode :: "(bytes \<Rightarrow> 'g option) \<Rightarrow> bytes \<Rightarrow> 'g vss_commitment option" where
  "vss_decode dec bs =
     (if bs = [] \<or> length bs mod 33 \<noteq> 0 then None
      else map_option (\<lambda>cs. \<lparr>commitments = cs\<rparr>) (decode_chunks dec bs))"

lemma smul_0:
  assumes "scalar_action smul gen" shows "smul 0 p = 0"
  using assms by (simp add: scalar_action_def) (metis add.right_neutral add_left_cancel)

lemma verify_loop_eval:
  assumes "scalar_action smul gen"
  shows "verify_loop smul z (map (\<lambda>a. smul a gen) cs) rhs w = rhs + smul (w * evaluate_polynomial cs z) gen"
proof (induction cs arbitrary: rhs w)
  case Nil
  show ?case by (simp add: evaluate_polynomial_def smul_0 [OF assms])
next
  case (Cons c cs)
  have "evaluate_polynomial (c # cs) z = c + z * evaluate_polynomial cs z"
    by (simp add: evaluate_polynomial_def mult.commute)
  then have "smul (w * evaluate_polynomial (c # cs) z) gen =
      smul w (smul c gen) + smul (w * z * evaluate_polynomial cs z) gen"
    using assms by (simp add: scalar_action_def distrib_left mult.assoc flip: mult.assoc)
  with Cons show ?case by (simp add: add.assoc)
qed

text \<open>C36: A share verifies against the commitments to the coefficients of a polynomial exactly when
  it is the value of that polynomial at the party's index: honest shares verify, and no other
  value does.\<close>

theorem feldman_verify_iff:
  assumes "scalar_action smul gen"
  shows "verify_share smul gen emb64 (vss_new (map (\<lambda>a. smul a gen) cs)) idx sh \<longleftrightarrow>
     sh = evaluate_polynomial cs (emb64 idx)"
  using assms verify_loop_eval [OF assms, of "emb64 idx" cs 0 1]
  by (auto simp: verify_share_def vss_new_def scalar_action_def)

theorem feldman_verify_iff_witness:
  "verify_share (*) (1::rat) (\<lambda>w. of_nat (unat w)) (vss_new (map (\<lambda>a. a * 1) [5, 2])) 3 11 \<longleftrightarrow>
     11 = evaluate_polynomial [5, 2 :: rat] (of_nat (unat (3::u64)))"
  by (rule feldman_verify_iff) (simp add: scalar_action_def distrib_right mult.assoc)

text \<open>Decoding the encoding of a non-empty list of commitments gives it back, for a point codec
  that decodes what it encodes into 33 bytes.\<close>

theorem vss_roundtrip:
  assumes "\<And>p. p \<in> set (commitments c) \<Longrightarrow> length (enc p) = 33 \<and> dec (enc p) = Some p"
    and "commitments c \<noteq> []"
  shows "vss_decode dec (vss_encode enc c) = Some c"
proof -
  have chunks: "decode_chunks dec (concat (map enc ps)) = Some ps"
    if "\<And>p. p \<in> set ps \<Longrightarrow> length (enc p) = 33 \<and> dec (enc p) = Some p" for ps
    using that by (induction ps) (simp_all add: decode_chunks.simps)
  have len: "length (concat (map enc ps)) = 33 * length ps"
    if "\<And>p. p \<in> set ps \<Longrightarrow> length (enc p) = 33 \<and> dec (enc p) = Some p" for ps
    using that by (induction ps) simp_all
  have "concat (map enc (commitments c)) \<noteq> []"
    using len [OF assms(1)] assms(2) by (metis length_0_conv mult_eq_0_iff zero_neq_numeral)
  then show ?thesis
    using chunks [OF assms(1)] len [OF assms(1)] by (simp add: vss_decode_def vss_encode_def)
qed

theorem vss_roundtrip_witness:
  "vss_decode (\<lambda>bs. Some (hd bs)) (vss_encode (\<lambda>p. replicate 33 p) \<lparr>commitments = [4, 5]\<rparr>)
     = Some \<lparr>commitments = [4, 5 :: u8]\<rparr>"
  by (rule vss_roundtrip) auto

end
