(* ===== verification/Key_Generation.thy ===== *)
theory Key_Generation
  imports Shamir
begin

unbundle bit_operations_syntax

text \<open>
  Distributed key generation (\<open>confium-coordinator/src/dkg_coordinator.rs\<close>). Scalars and points are those of theory \<open>Shamir\<close>. The hexadecimal and
  curve encodings of the external crates are the record \<open>codec\<close>, an argument; the random
  coefficients are an argument. Maps keep their entries in insertion order; every loop over one
  folds a commutative sum.
\<close>

section \<open>Contributions and sessions\<close>

record ('a, 'g) codec =
  scalar_hex :: "'a \<Rightarrow> string"
  hex_decode :: "string \<Rightarrow> string + bytes"
  from_repr :: "bytes \<Rightarrow> 'a option"
  point_hex :: "'g \<Rightarrow> string"
  sec1_point :: "bytes \<Rightarrow> string + bytes"
  from_sec1 :: "bytes \<Rightarrow> 'g option"

record dkg_contribution =
  party_idx :: u32
  dkg_shares :: "(u32, string) hashmap"
  commitment_hex :: string

record dkg_session =
  dkg_threshold :: u32
  dkg_party_count :: u32
  contributions :: "(u32, dkg_contribution) hashmap"

definition dkg_new :: "u32 \<Rightarrow> u32 \<Rightarrow> dkg_session" where
  "dkg_new t n = \<lparr> dkg_threshold = t, dkg_party_count = n, contributions = [] \<rparr>"

definition dkg_submit :: "dkg_contribution \<Rightarrow> dkg_session \<Rightarrow> string + dkg_session" where
  "dkg_submit c s =
     (if party_idx c = 0 \<or> dkg_party_count s < party_idx c then Inl ''invalid party index''
      else if hm_get (contributions s) (party_idx c) \<noteq> None then Inl ''duplicate contribution''
      else Inr (s\<lparr> contributions := hm_insert (party_idx c) c (contributions s) \<rparr>))"

definition dkg_complete :: "dkg_session \<Rightarrow> bool" where
  "dkg_complete s \<longleftrightarrow> length (contributions s) = unat (dkg_party_count s)"

definition parties :: "u32 \<Rightarrow> u32 list" where
  "parties n = map of_nat [1..<Suc (unat n)]"

definition dkg_missing :: "dkg_session \<Rightarrow> u32 list" where
  "dkg_missing s = filter (\<lambda>i. hm_get (contributions s) i = None) (parties (dkg_party_count s))"

fun eval_loop :: "'a::field \<Rightarrow> 'a list \<Rightarrow> 'a \<Rightarrow> 'a \<Rightarrow> 'a" where
  "eval_loop z [] res z_pow = res"
| "eval_loop z (c # cs) res z_pow = eval_loop z cs (res + c * z_pow) (z_pow * z)"

definition eval_polynomial :: "(u32 \<Rightarrow> 'a::field) \<Rightarrow> 'a list \<Rightarrow> u32 \<Rightarrow> 'a" where
  "eval_polynomial emb cs x = eval_loop (emb x) cs 0 1"

text \<open>The first coefficient is read by index, which panics for the threshold zero.\<close>

definition generate_contribution ::
  "('a::field, 'g) codec \<Rightarrow> (u32 \<Rightarrow> 'a) \<Rightarrow> ('a \<Rightarrow> 'g \<Rightarrow> 'g) \<Rightarrow> 'g \<Rightarrow> (nat \<Rightarrow> 'a) \<Rightarrow> u32 \<Rightarrow> u32 \<Rightarrow> u32
     \<Rightarrow> (dkg_contribution \<times> 'a) option" where
  "generate_contribution cd emb smul gen rnd i t n =
     (case map rnd [0..<unat t] of
        [] \<Rightarrow> None
      | secret # rest \<Rightarrow>
          Some (\<lparr> party_idx = i,
                  dkg_shares = fold (\<lambda>p. hm_insert p (scalar_hex cd (eval_polynomial emb (secret # rest) p))) (parties n) [],
                  commitment_hex = point_hex cd (smul secret gen) \<rparr>, secret))"

definition decode_share :: "('a, 'g) codec \<Rightarrow> u32 \<Rightarrow> dkg_contribution \<Rightarrow> string + 'a" where
  "decode_share cd i c =
     (case hm_get (dkg_shares c) i of
        None \<Rightarrow> Inl (''missing share for party '' @ decimal (unat i))
      | Some h \<Rightarrow> try_bind (hex_decode cd h) (\<lambda>bs.
          if length bs \<noteq> 32 then Inl ''invalid share length''
          else case from_repr cd bs of None \<Rightarrow> Inl ''invalid scalar'' | Some a \<Rightarrow> Inr a))"

fun sum_shares :: "('a::field, 'g) codec \<Rightarrow> u32 \<Rightarrow> dkg_contribution list \<Rightarrow> 'a \<Rightarrow> string + 'a" where
  "sum_shares cd i [] acc = Inr acc"
| "sum_shares cd i (c # cs) acc = try_bind (decode_share cd i c) (\<lambda>a. sum_shares cd i cs (acc + a))"

definition compute_aggregate_share :: "('a::field, 'g) codec \<Rightarrow> dkg_session \<Rightarrow> u32 \<Rightarrow> string + 'a" where
  "compute_aggregate_share cd s i =
     (if \<not> dkg_complete s then Inl ''DKG not complete'' else sum_shares cd i (map snd (contributions s)) 0)"

definition decode_commitment :: "('a, 'g) codec \<Rightarrow> dkg_contribution \<Rightarrow> string + 'g" where
  "decode_commitment cd c =
     try_bind (hex_decode cd (commitment_hex c)) (\<lambda>bs.
     try_bind (sec1_point cd bs) (\<lambda>e.
       case from_sec1 cd e of None \<Rightarrow> Inl ''invalid commitment point'' | Some p \<Rightarrow> Inr p))"

fun sum_points :: "('a, 'g::ab_group_add) codec \<Rightarrow> dkg_contribution list \<Rightarrow> 'g \<Rightarrow> string + 'g" where
  "sum_points cd [] acc = Inr acc"
| "sum_points cd (c # cs) acc = try_bind (decode_commitment cd c) (\<lambda>p. sum_points cd cs (acc + p))"

definition compute_joint_public_key :: "('a, 'g::ab_group_add) codec \<Rightarrow> dkg_session \<Rightarrow> string + 'g" where
  "compute_joint_public_key cd s =
     (if \<not> dkg_complete s then Inl ''DKG not complete'' else sum_points cd (map snd (contributions s)) 0)"

section \<open>Sessions accept every party once\<close>

definition dkg_inv :: "dkg_session \<Rightarrow> bool" where
  "dkg_inv s \<longleftrightarrow> hm_wf (contributions s) \<and> set (hm_keys (contributions s)) \<subseteq> set (parties (dkg_party_count s)) \<and>
     list_all (\<lambda>(i, c). party_idx c = i) (contributions s)"

lemma unat_of_nat_party: "k \<le> unat n \<Longrightarrow> unat (of_nat k :: u32) = k" for n :: u32
  using unat_u32_less [of n] by (simp add: unat_of_nat)

lemma parties_iff: "i \<in> set (parties n) \<longleftrightarrow> i \<noteq> 0 \<and> i \<le> n"
proof
  assume "i \<in> set (parties n)"
  then obtain k where k: "i = of_nat k" "1 \<le> k" "k \<le> unat n" by (auto simp: parties_def)
  then have "unat i = k" by (simp add: unat_of_nat_party)
  with k show "i \<noteq> 0 \<and> i \<le> n" by (auto simp: word_le_nat_alt)
next
  assume "i \<noteq> 0 \<and> i \<le> n"
  then have "1 \<le> unat i" "unat i \<le> unat n" by (auto simp: word_le_nat_alt Suc_le_eq unat_gt_0)
  then have "unat i \<in> set [1..<Suc (unat n)]" by (simp only: set_upt atLeastLessThan_iff less_Suc_eq_le simp_thms)
  then have "of_nat (unat i) \<in> set (parties n)" unfolding parties_def set_map by (rule imageI)
  then show "i \<in> set (parties n)" by simp
qed

lemma distinct_parties: "distinct (parties n)"
proof -
  have "inj_on (of_nat :: nat \<Rightarrow> u32) (set [1..<Suc (unat n)])"
    by (intro inj_on_inverseI [of _ unat]) (auto intro!: unat_of_nat_party)
  then show ?thesis unfolding parties_def distinct_map by (simp only: distinct_upt simp_thms)
qed

lemma length_parties [simp]: "length (parties n) = unat n"
  by (simp add: parties_def)

lemma dkg_new_inv: "dkg_inv (dkg_new t n)"
  by (simp add: dkg_inv_def dkg_new_def)

lemma dkg_submit_Inr_iff:
  "dkg_submit c s = Inr s' \<longleftrightarrow>
     party_idx c \<in> set (parties (dkg_party_count s)) \<and> hm_get (contributions s) (party_idx c) = None \<and>
     s' = s\<lparr> contributions := contributions s @ [(party_idx c, c)] \<rparr>"
  by (auto simp: dkg_submit_def parties_iff hm_insert_fresh not_less)

lemma dkg_submit_inv: "dkg_inv s \<Longrightarrow> dkg_submit c s = Inr s' \<Longrightarrow> dkg_inv s'"
  unfolding dkg_submit_Inr_iff
  by (auto simp: dkg_inv_def hm_wf_def map_of_eq_None_iff)

lemma dkg_complete_iff:
  assumes "dkg_inv s" shows "dkg_complete s \<longleftrightarrow> dkg_missing s = []"
proof -
  let ?k = "set (hm_keys (contributions s))" and ?p = "set (parties (dkg_party_count s))"
  have sub: "?k \<subseteq> ?p" and c: "card ?k = length (contributions s)"
    using assms distinct_card [of "hm_keys (contributions s)"] by (simp_all add: dkg_inv_def hm_wf_def)
  have p: "card ?p = unat (dkg_party_count s)" using distinct_card [OF distinct_parties] by simp
  have "dkg_complete s \<longleftrightarrow> ?k = ?p"
    using c p card_subset_eq [OF _ sub] by (auto simp: dkg_complete_def)
  also have "\<dots> \<longleftrightarrow> dkg_missing s = []"
    using sub unfolding dkg_missing_def filter_empty_conv hm_keys_iff [symmetric] by blast
  finally show ?thesis .
qed

fun dkg_submit_all :: "dkg_contribution list \<Rightarrow> dkg_session \<Rightarrow> string + dkg_session" where
  "dkg_submit_all [] s = Inr s"
| "dkg_submit_all (c # cs) s = try_bind (dkg_submit c s) (dkg_submit_all cs)"

lemma dkg_submit_all_distinct:
  assumes "distinct (hm_keys (contributions s) @ map party_idx cs)"
    and "set (map party_idx cs) \<subseteq> set (parties (dkg_party_count s))"
  shows "dkg_submit_all cs s = Inr (s\<lparr> contributions := contributions s @ map (\<lambda>c. (party_idx c, c)) cs \<rparr>)"
  using assms
proof (induction cs arbitrary: s)
  case (Cons c cs)
  let ?s = "s\<lparr> contributions := contributions s @ [(party_idx c, c)] \<rparr>"
  have "dkg_submit c s = Inr ?s"
    unfolding dkg_submit_Inr_iff using Cons.prems by (auto simp: map_of_eq_None_iff)
  with Cons.IH [of ?s] Cons.prems show ?case by simp
qed simp

section \<open>The joint key\<close>

lemma eval_loop_eq: "eval_loop z cs res w = res + w * evaluate_polynomial cs z"
  by (induction cs arbitrary: res w) (simp_all add: evaluate_polynomial_def algebra_simps)

text \<open>The loop with running powers agrees with Horner's rule of the sharing code.\<close>

lemma eval_polynomial_horner: "eval_polynomial emb cs x = evaluate_polynomial cs (emb x)"
  by (simp add: eval_polynomial_def eval_loop_eq)

text \<open>The codec decodes what it encodes, for the scalars in \<open>A\<close> and the points in \<open>P\<close>.\<close>

definition codec_on :: "('a, 'g) codec \<Rightarrow> 'a set \<Rightarrow> 'g set \<Rightarrow> bool" where
  "codec_on cd A P \<longleftrightarrow>
     (\<forall>a \<in> A. \<exists>bs. hex_decode cd (scalar_hex cd a) = Inr bs \<and> length bs = 32 \<and> from_repr cd bs = Some a) \<and>
     (\<forall>p \<in> P. \<exists>bs e. hex_decode cd (point_hex cd p) = Inr bs \<and> sec1_point cd bs = Inr e \<and> from_sec1 cd e = Some p)"

lemma codec_on_mono: "codec_on cd B Q \<Longrightarrow> A \<subseteq> B \<Longrightarrow> P \<subseteq> Q \<Longrightarrow> codec_on cd A P"
  unfolding codec_on_def by blast

lemma decode_share_codec:
  assumes "codec_on cd A P" "a \<in> A" "hm_get (dkg_shares c) i = Some (scalar_hex cd a)" shows "decode_share cd i c = Inr a"
proof -
  obtain bs where "hex_decode cd (scalar_hex cd a) = Inr bs" "length bs = 32" "from_repr cd bs = Some a"
    using assms(1,2) unfolding codec_on_def by blast
  with assms(3) show ?thesis by (simp add: decode_share_def)
qed

lemma decode_commitment_codec:
  assumes "codec_on cd A P" "p \<in> P" "commitment_hex c = point_hex cd p" shows "decode_commitment cd c = Inr p"
proof -
  obtain bs e where "hex_decode cd (point_hex cd p) = Inr bs" "sec1_point cd bs = Inr e" "from_sec1 cd e = Some p"
    using assms(1,2) unfolding codec_on_def by blast
  with assms(3) show ?thesis by (simp add: decode_commitment_def)
qed

lemma hm_get_fold_insert:
  "hm_get (fold (\<lambda>p. hm_insert p (f p)) ps m) q = (if q \<in> set ps then Some (f q) else hm_get m q)"
  by (induction ps arbitrary: m) auto

lemma generate_contribution_spec:
  assumes "generate_contribution cd emb smul gen rnd i t n = Some (c, a)"
  shows "party_idx c = i" "1 \<le> unat t" "a = evaluate_polynomial (map rnd [0..<unat t]) 0" "a = rnd 0"
    "p \<in> set (parties n) \<Longrightarrow> hm_get (dkg_shares c) p = Some (scalar_hex cd (evaluate_polynomial (map rnd [0..<unat t]) (emb p)))"
    "commitment_hex c = point_hex cd (smul a gen)"
proof -
  obtain as where r: "map rnd [0..<unat t] = a # as"
    and c: "c = \<lparr> party_idx = i, dkg_shares = fold (\<lambda>p. hm_insert p (scalar_hex cd (eval_polynomial emb (a # as) p))) (parties n) [],
        commitment_hex = point_hex cd (smul a gen) \<rparr>"
    using assms by (auto simp: generate_contribution_def split: list.splits)
  show "party_idx c = i" "1 \<le> unat t" "commitment_hex c = point_hex cd (smul a gen)" using c r by (auto simp: Suc_le_eq intro: gr0I)
  show "a = evaluate_polynomial (map rnd [0..<unat t]) 0" by (simp add: r evaluate_polynomial_0)
  show "a = rnd 0" using r by (cases "unat t") (simp_all add: upt_rec)
  show "hm_get (dkg_shares c) p = Some (scalar_hex cd (evaluate_polynomial (map rnd [0..<unat t]) (emb p)))"
    if "p \<in> set (parties n)"
    using that by (simp add: c hm_get_fold_insert eval_polynomial_horner r)
qed

lemma sum_shares_eq:
  "(\<And>c. c \<in> set cs \<Longrightarrow> decode_share cd i c = Inr (f c)) \<Longrightarrow> sum_shares cd i cs acc = Inr (acc + (\<Sum>c\<leftarrow>cs. f c))"
  by (induction cs arbitrary: acc) (simp_all add: add.assoc)

lemma sum_points_eq:
  "(\<And>c. c \<in> set cs \<Longrightarrow> decode_commitment cd c = Inr (f c)) \<Longrightarrow> sum_points cd cs acc = Inr (acc + (\<Sum>c\<leftarrow>cs. f c))"
  by (induction cs arbitrary: acc) (simp_all add: add.assoc)

lemma smul_sum_list:
  assumes "scalar_action smul gen" shows "smul (\<Sum>a\<leftarrow>as. a) gen = (\<Sum>a\<leftarrow>as. smul a gen)"
  by (induction as) (use assms smul_0 [OF assms] in \<open>auto simp: scalar_action_def\<close>)

text \<open>A collection of contributions, each made by \<open>generate_contribution\<close> for the party it names.\<close>

definition honest ::
  "('a::field, 'g) codec \<Rightarrow> (u32 \<Rightarrow> 'a) \<Rightarrow> ('a \<Rightarrow> 'g \<Rightarrow> 'g) \<Rightarrow> 'g \<Rightarrow> (u32 \<Rightarrow> nat \<Rightarrow> 'a) \<Rightarrow> u32 \<Rightarrow> u32
     \<Rightarrow> (dkg_contribution \<times> 'a) list \<Rightarrow> bool" where
  "honest cd emb smul gen rnd t n ks \<longleftrightarrow>
     list_all (\<lambda>(c, a). party_idx c \<in> set (parties n) \<and>
       generate_contribution cd emb smul gen (rnd (party_idx c)) (party_idx c) t n = Some (c, a)) ks"

definition party_poly :: "(u32 \<Rightarrow> nat \<Rightarrow> 'a::field) \<Rightarrow> u32 \<Rightarrow> u32 \<Rightarrow> 'a \<Rightarrow> 'a" where
  "party_poly rnd t i = evaluate_polynomial (map (rnd i) [0..<unat t])"

lemma poly_fun_party: "unat t \<le> m \<Longrightarrow> poly_fun m (party_poly rnd t i)"
  unfolding party_poly_def by (rule poly_fun_mono [OF poly_fun_evaluate]) simp

text \<open>The codec covers every share and every commitment of a run.\<close>

definition covers ::
  "('a::field, 'g) codec \<Rightarrow> (u32 \<Rightarrow> 'a) \<Rightarrow> ('a \<Rightarrow> 'g \<Rightarrow> 'g) \<Rightarrow> 'g \<Rightarrow> (u32 \<Rightarrow> nat \<Rightarrow> 'a) \<Rightarrow> u32 \<Rightarrow> u32 \<Rightarrow> bool" where
  "covers cd emb smul gen rnd t n \<longleftrightarrow>
     codec_on cd {party_poly rnd t i (emb p) | i p. i \<in> set (parties n) \<and> p \<in> set (parties n)}
       {smul (rnd i 0) gen | i. i \<in> set (parties n)}"

lemma honestD:
  assumes "covers cd emb smul gen rnd t n" "honest cd emb smul gen rnd t n ks" "(c, a) \<in> set ks"
  shows "party_idx c \<in> set (parties n)" "1 \<le> unat t" "a = party_poly rnd t (party_idx c) 0"
    "decode_commitment cd c = Inr (smul a gen)"
    "p \<in> set (parties n) \<Longrightarrow> decode_share cd p c = Inr (party_poly rnd t (party_idx c) (emb p))"
proof -
  have g: "generate_contribution cd emb smul gen (rnd (party_idx c)) (party_idx c) t n = Some (c, a)"
    and i: "party_idx c \<in> set (parties n)"
    using assms(2,3) by (auto simp: honest_def list_all_iff)
  note sp = generate_contribution_spec [OF g]
  show "party_idx c \<in> set (parties n)" "1 \<le> unat t" "a = party_poly rnd t (party_idx c) 0"
    unfolding party_poly_def using i sp by simp_all
  show "decode_commitment cd c = Inr (smul a gen)"
    by (rule decode_commitment_codec [OF assms(1) [unfolded covers_def]]) (use i sp(4) in blast, rule sp(6))
  show "decode_share cd p c = Inr (party_poly rnd t (party_idx c) (emb p))" if "p \<in> set (parties n)"
    by (rule decode_share_codec [OF assms(1) [unfolded covers_def]]) (use i sp that in \<open>auto simp: party_poly_def\<close>)
qed

lemma honest_sums:
  assumes "covers cd emb smul gen rnd t n" "honest cd emb smul gen rnd t n ks"
  shows "p \<in> set (parties n) \<Longrightarrow> sum_shares cd p (map fst ks) 0 = Inr (\<Sum>c\<leftarrow>map fst ks. party_poly rnd t (party_idx c) (emb p))"
    and "scalar_action smul gen \<Longrightarrow> sum_points cd (map fst ks) 0 = Inr (smul (\<Sum>a\<leftarrow>map snd ks. a) gen)"
    and "(\<Sum>c\<leftarrow>map fst ks. party_poly rnd t (party_idx c) 0) = (\<Sum>a\<leftarrow>map snd ks. a)"
proof -
  note h = honestD [OF assms]
  show "sum_shares cd p (map fst ks) 0 = Inr (\<Sum>c\<leftarrow>map fst ks. party_poly rnd t (party_idx c) (emb p))" if "p \<in> set (parties n)"
  proof -
    have "decode_share cd p c = Inr (party_poly rnd t (party_idx c) (emb p))" if "c \<in> set (map fst ks)" for c
      using that h(5) [OF _ \<open>p \<in> set (parties n)\<close>] by auto
    from sum_shares_eq [OF this] show ?thesis by (simp only: add_0)
  qed
  have "map (\<lambda>c. party_poly rnd t (party_idx c) 0) (map fst ks) = map snd ks" using h(3) by auto
  then show sum: "(\<Sum>c\<leftarrow>map fst ks. party_poly rnd t (party_idx c) 0) = (\<Sum>a\<leftarrow>map snd ks. a)" by (metis map_ident)
  assume act: "scalar_action smul gen"
  have "decode_commitment cd c = Inr (smul (party_poly rnd t (party_idx c) 0) gen)" if "c \<in> set (map fst ks)" for c
    using that h(3,4) by auto
  then have "sum_points cd (map fst ks) 0 = Inr (\<Sum>c\<leftarrow>map fst ks. smul (party_poly rnd t (party_idx c) 0) gen)"
    using sum_points_eq [of "map fst ks" cd "\<lambda>c. smul (party_poly rnd t (party_idx c) 0) gen" 0] by simp
  then show "sum_points cd (map fst ks) 0 = Inr (smul (\<Sum>a\<leftarrow>map snd ks. a) gen)"
    using smul_sum_list [OF act, of "map (\<lambda>c. party_poly rnd t (party_idx c) 0) (map fst ks)"] sum by (simp add: comp_def)
qed

lemma honest_submit:
  assumes "covers cd emb smul gen rnd t n" "honest cd emb smul gen rnd t n ks" "distinct (map (party_idx \<circ> fst) ks)"
  shows "dkg_submit_all (map fst ks) (dkg_new t n) =
    Inr ((dkg_new t n)\<lparr> contributions := map (\<lambda>c. (party_idx c, c)) (map fst ks) \<rparr>)"
proof -
  have "set (map party_idx (map fst ks)) \<subseteq> set (parties (dkg_party_count (dkg_new t n)))"
    using honestD(1) [OF assms(1,2)] by (auto simp: dkg_new_def)
  moreover have "contributions (dkg_new t n) = []" by (simp add: dkg_new_def)
  ultimately show ?thesis
    using dkg_submit_all_distinct [of "dkg_new t n" "map fst ks"] assms(3) by (simp add: comp_def)
qed

text \<open>C8: 
  If every party submits an honest contribution, in whatever order, the session completes. The
  joint public key is then the public key of the sum of the parties' secrets, every party can
  compute its aggregate share, and any \<open>t\<close> aggregate shares recover exactly that sum.
\<close>

theorem dkg_recovers_joint_secret:
  assumes "inj emb" "scalar_action smul gen" "covers cd emb smul gen rnd t n" "1 \<le> n"
    and "honest cd emb smul gen rnd t n ks" "distinct (map (party_idx \<circ> fst) ks)" "length ks = unat n"
    and "distinct qs" "set qs \<subseteq> set (parties n)" "unat t \<le> length qs"
  shows "\<exists>s ys. dkg_submit_all (map fst ks) (dkg_new t n) = Inr s \<and> dkg_complete s \<and>
     compute_joint_public_key cd s = Inr (smul (\<Sum>a\<leftarrow>map snd ks. a) gen) \<and>
     map (compute_aggregate_share cd s) qs = map Inr ys \<and>
     recover_secret emb (map2 (\<lambda>i y. \<lparr> share_x = i, share_y = y \<rparr>) qs ys) = Inr (\<Sum>a\<leftarrow>map snd ks. a)"
proof -
  let ?f = "\<lambda>z. \<Sum>c\<leftarrow>map fst ks. party_poly rnd t (party_idx c) z"
  let ?s = "(dkg_new t n)\<lparr> contributions := map (\<lambda>c. (party_idx c, c)) (map fst ks) \<rparr>"
  let ?shs = "map (\<lambda>i. \<lparr> share_x = i, share_y = ?f (emb i) \<rparr>) qs"
  note sums = honest_sums [OF assms(3,5)]
  have complete: "dkg_complete ?s" using assms(7) by (simp add: dkg_complete_def dkg_new_def)
  have vals: "map snd (contributions ?s) = map fst ks" by (simp add: comp_def)
  have "compute_aggregate_share cd ?s i = Inr (?f (emb i))" if "i \<in> set qs" for i
    unfolding compute_aggregate_share_def vals using complete sums(1) that assms(9) by (auto simp del: map_map)
  then have shares: "map (compute_aggregate_share cd ?s) qs = map Inr (map (\<lambda>i. ?f (emb i)) qs)" by simp
  have key: "compute_joint_public_key cd ?s = Inr (smul (\<Sum>a\<leftarrow>map snd ks. a) gen)"
    unfolding compute_joint_public_key_def vals using complete sums(2) [OF assms(2)] by (simp del: map_map)
  obtain c a where "(c, a) \<in> set ks" using assms(4,7) by (cases ks) (auto simp: word_le_nat_alt)
  with honestD(2) [OF assms(3,5)] have t: "1 \<le> unat t" by blast
  have "poly_fun (length ?shs) ?f"
    by (rule poly_fun_sum_list) (use assms(10) in \<open>simp add: poly_fun_party\<close>)
  then have "interpolate emb ?shs 0 = ?f 0"
    by (intro interpolate_unique [OF assms(1)]) (use assms(8) in \<open>auto simp: comp_def\<close>)
  moreover have "?shs \<noteq> []" using t assms(10) by auto
  ultimately have rec: "recover_secret emb ?shs = Inr (\<Sum>a\<leftarrow>map snd ks. a)"
    using recover_secret_interpolate [of ?shs emb] assms(8) sums(3) by (simp add: comp_def)
  have shs: "?shs = map2 (\<lambda>i y. \<lparr> share_x = i, share_y = y \<rparr>) qs (map (\<lambda>i. ?f (emb i)) qs)"
    by (simp add: zip_map2 zip_same_conv_map comp_def)
  show ?thesis
    by (intro exI conjI) (rule honest_submit [OF assms(3,5,6)] complete key shares rec [unfolded shs])+
qed

definition demo_codec :: "(rat, rat) codec" where
  "demo_codec =
     \<lparr> scalar_hex = (\<lambda>a. replicate (nat \<lfloor>a\<rfloor>) CHR ''x''), hex_decode = (\<lambda>s. Inr (be_bytes 32 (length s))),
       from_repr = (\<lambda>bs. Some (of_nat (be_nat bs))), point_hex = (\<lambda>a. replicate (nat \<lfloor>a\<rfloor>) CHR ''x''),
       sec1_point = Inr, from_sec1 = (\<lambda>bs. Some (of_nat (be_nat bs))) \<rparr>"

definition demo_contribution :: "u32 \<Rightarrow> dkg_contribution" where
  "demo_contribution i = \<lparr> party_idx = i, dkg_shares = [(1, ''xx''), (2, ''xxx'')], commitment_hex = ''x'' \<rparr>"

lemma parties_2: "parties 2 = [1, 2]"
  by (simp add: parties_def upt_rec)

lemma demo_poly: "party_poly (\<lambda>_ _. 1) 2 i z = 1 + (z :: rat)"
  by (simp add: party_poly_def evaluate_polynomial_def upt_rec)

lemma demo_scalar: "n < 10 \<Longrightarrow> codec_on demo_codec {of_nat n} {of_nat n}"
  by (simp add: codec_on_def demo_codec_def be_nat_be_bytes)

lemma demo_covers: "covers demo_codec rat_emb (*) 1 (\<lambda>_ _. 1) 2 2"
proof -
  have p: "{party_poly (\<lambda>_ _. 1) 2 i (rat_emb p) | i p. i \<in> set (parties 2) \<and> p \<in> set (parties 2)} \<subseteq> {of_nat 2, of_nat 3}"
    by (auto simp: demo_poly parties_2 rat_emb_def)
  have q: "{1 * 1 | i :: u32. i \<in> set (parties 2)} \<subseteq> {of_nat 1 :: rat}" by auto
  have c: "codec_on demo_codec {of_nat 2, of_nat 3} {of_nat 1}"
    using demo_scalar [of 2] demo_scalar [of 3] demo_scalar [of 1] unfolding codec_on_def by simp
  show ?thesis unfolding covers_def by (rule codec_on_mono [OF c p q])
qed

lemma demo_honest: "honest demo_codec rat_emb (*) 1 (\<lambda>_ _. 1) 2 2 [(demo_contribution 2, 1), (demo_contribution 1, 1)]"
proof -
  have "map (\<lambda>_. 1 :: rat) [0..<unat (2 :: u32)] = [1, 1]" by (simp add: upt_rec)
  moreover have "eval_polynomial rat_emb [1, 1] 1 = 2" "eval_polynomial rat_emb [1, 1] 2 = 3"
    by (simp_all add: eval_polynomial_def rat_emb_def)
  moreover have "replicate 2 CHR ''x'' = ''xx''" "replicate 3 CHR ''x'' = ''xxx''"
    by (simp_all add: numeral_2_eq_2 numeral_3_eq_3)
  ultimately have "generate_contribution demo_codec rat_emb (*) 1 (\<lambda>_. 1) i 2 2 = Some (demo_contribution i, 1)" for i
    unfolding generate_contribution_def parties_2 by (simp add: demo_codec_def demo_contribution_def)
  then show ?thesis by (simp add: honest_def parties_2) (simp add: demo_contribution_def)
qed

theorem dkg_recovers_joint_secret_witness:
  "\<exists>s ys. dkg_submit_all [demo_contribution 2, demo_contribution 1] (dkg_new 2 2) = Inr s \<and>
     map (compute_aggregate_share demo_codec s) [2, 1] = map Inr ys \<and>
     recover_secret rat_emb (map2 (\<lambda>i y. \<lparr> share_x = i, share_y = y \<rparr>) [2, 1] ys) = Inr 2"
proof -
  have "inj rat_emb" by (rule injI) (simp only: rat_emb_def of_nat_eq_iff word_unat_eq_iff)
  moreover have "scalar_action (*) (1 :: rat)" by (simp add: scalar_action_def distrib_right)
  ultimately have "\<exists>s ys. dkg_submit_all (map fst [(demo_contribution 2, 1 :: rat), (demo_contribution 1, 1)]) (dkg_new 2 2) = Inr s \<and>
      dkg_complete s \<and> compute_joint_public_key demo_codec s = Inr ((\<Sum>a\<leftarrow>map snd [(demo_contribution 2, 1 :: rat), (demo_contribution 1, 1)]. a) * 1) \<and>
      map (compute_aggregate_share demo_codec s) [2, 1] = map Inr ys \<and>
      recover_secret rat_emb (map2 (\<lambda>i y. \<lparr> share_x = i, share_y = y \<rparr>) [2, 1] ys)
        = Inr (\<Sum>a\<leftarrow>map snd [(demo_contribution 2, 1 :: rat), (demo_contribution 1, 1)]. a)"
    by (rule dkg_recovers_joint_secret [OF _ _ demo_covers _ demo_honest]) (simp_all add: parties_2 demo_contribution_def)
  then show ?thesis by (simp only: list.map fst_conv snd_conv sum_list.Cons sum_list.Nil add_0_right one_add_one)
    (elim exE conjE, intro exI conjI, assumption+)
qed

end
