(* ===== verification/Share_Refresh.thy ===== *)
theory Share_Refresh
  imports Key_Generation
begin

unbundle bit_operations_syntax

text \<open>
  The proactive refresh of shares (\<open>confium-coordinator/src/refresh_coordinator.rs\<close>): contributions
  of byte strings per party, their aggregation by exclusive or, and how they are generated. The
  random bytes are an argument.
\<close>

section \<open>Model\<close>

record refresh_contribution =
  from_party :: u32
  refresh_shares :: "(u32, bytes) hashmap"

record refresh_session =
  refresh_id :: string
  refresh_threshold :: u32
  refresh_party_count :: u32
  refresh_contributions :: "(u32, refresh_contribution) hashmap"

definition refresh_new :: "string \<Rightarrow> u32 \<Rightarrow> u32 \<Rightarrow> refresh_session" where
  "refresh_new sid t n =
     \<lparr> refresh_id = sid, refresh_threshold = t, refresh_party_count = n, refresh_contributions = [] \<rparr>"

definition submit_contribution :: "refresh_contribution \<Rightarrow> refresh_session \<Rightarrow> string + refresh_session" where
  "submit_contribution c s =
     (if from_party c = 0 \<or> refresh_party_count s < from_party c
      then Inl (''invalid from_party: '' @ decimal (unat (from_party c)))
      else if hm_get (refresh_contributions s) (from_party c) \<noteq> None
      then Inl (''party '' @ decimal (unat (from_party c)) @ '' already contributed'')
      else Inr (s\<lparr> refresh_contributions := hm_insert (from_party c) c (refresh_contributions s) \<rparr>))"

definition refresh_complete :: "refresh_session \<Rightarrow> bool" where
  "refresh_complete s \<longleftrightarrow> length (refresh_contributions s) = unat (refresh_party_count s)"

definition refresh_missing :: "refresh_session \<Rightarrow> u32 list" where
  "refresh_missing s = filter (\<lambda>i. hm_get (refresh_contributions s) i = None) (parties (refresh_party_count s))"

definition xor_grow :: "bytes \<Rightarrow> bytes \<Rightarrow> bytes" where
  "xor_grow existing share =
     (let e = existing @ replicate (length share - length existing) 0
      in map2 (XOR) (take (length share) e) share @ drop (length share) e)"

definition add_refresh :: "u32 \<Rightarrow> refresh_contribution \<Rightarrow> bytes option \<Rightarrow> bytes option" where
  "add_refresh i c res =
     (case hm_get (refresh_shares c) i of
        None \<Rightarrow> res
      | Some share \<Rightarrow> Some (case res of None \<Rightarrow> share | Some existing \<Rightarrow> xor_grow existing share))"

definition aggregate_for_party :: "refresh_session \<Rightarrow> u32 \<Rightarrow> bytes option" where
  "aggregate_for_party s i =
     (if \<not> refresh_complete s then None else fold (add_refresh i) (hm_values (refresh_contributions s)) None)"

definition generate_refresh :: "(u32 \<Rightarrow> bytes) \<Rightarrow> u32 \<Rightarrow> u32 \<Rightarrow> nat \<Rightarrow> refresh_contribution" where
  "generate_refresh rnd i n sz =
     (let ps = map of_nat [1..<unat n];
          remaining = fold (\<lambda>p r. xor_grow r (rnd p)) ps (replicate sz 0)
      in \<lparr> from_party = i, refresh_shares = hm_insert n remaining (fold (\<lambda>p. hm_insert p (rnd p)) ps []) \<rparr>)"

section \<open>Exclusive or of columns\<close>

definition xor_list :: "u8 list \<Rightarrow> u8" where
  "xor_list xs = foldr (XOR) xs 0"

lemma xor_list_simps [simp]: "xor_list [] = 0" "xor_list (x # xs) = x XOR xor_list xs"
  by (simp_all add: xor_list_def)

lemma xor_list_append [simp]: "xor_list (xs @ ys) = xor_list xs XOR xor_list ys"
  by (induction xs) (simp_all add: xor.assoc)

lemma xor_list_xor: "xor_list (map (\<lambda>c. f c XOR g c) cs) = xor_list (map f cs) XOR xor_list (map g cs)"
  by (induction cs) (simp_all add: xor.assoc xor.left_commute)

lemma xor_list_zero: "xor_list (map (\<lambda>c. 0) cs) = 0"
  by (induction cs) simp_all

lemma xor_list_swap: "xor_list (map (\<lambda>p. xor_list (map (\<lambda>c. f c p) cs)) ps) = xor_list (map (\<lambda>c. xor_list (map (f c) ps)) cs)"
  by (induction ps) (simp_all add: xor_list_zero xor_list_xor)

lemma xor_grow_same: "length a = length b \<Longrightarrow> xor_grow a b = map2 (XOR) a b"
  by (simp add: xor_grow_def)

lemma length_xor_grow [simp]: "length a = length b \<Longrightarrow> length (xor_grow a b) = length b"
  by (simp add: xor_grow_same)

lemma fold_xor_grow:
  assumes "length r = sz" "\<And>p. p \<in> set ps \<Longrightarrow> length (f p) = sz"
  shows "length (fold (\<lambda>p r. xor_grow r (f p)) ps r) = sz \<and>
    (\<forall>k < sz. fold (\<lambda>p r. xor_grow r (f p)) ps r ! k = r ! k XOR xor_list (map (\<lambda>p. f p ! k) ps))"
  using assms
proof (induction ps arbitrary: r)
  case (Cons p ps)
  then show ?case using Cons.IH [of "xor_grow r (f p)"] by (simp add: xor_grow_same xor.assoc)
qed simp

section \<open>Refresh keeps a secret shared by exclusive or\<close>

lemma parties_snoc: "1 \<le> n \<Longrightarrow> parties n = map of_nat [1..<unat n] @ [n]"
  unfolding parties_def by (subst upt_Suc_append) (simp_all add: word_le_nat_alt)

text \<open>A generated contribution addresses every party, and the shares cancel out.\<close>

lemma generate_refresh_cancels:
  assumes "1 \<le> n" "\<And>p. length (rnd p) = sz"
  shows "\<exists>f. (\<forall>p \<in> set (parties n). hm_get (refresh_shares (generate_refresh rnd i n sz)) p = Some (f p) \<and> length (f p) = sz) \<and>
    (\<forall>k < sz. xor_list (map (\<lambda>p. f p ! k) (parties n)) = 0)"
proof -
  let ?ps = "map of_nat [1..<unat n] :: u32 list"
  let ?rem = "fold (\<lambda>p r. xor_grow r (rnd p)) ?ps (replicate sz 0)"
  let ?f = "\<lambda>p. if p = n then ?rem else rnd p"
  have d: "n \<notin> set ?ps" using distinct_parties [of n] by (simp add: parties_snoc [OF assms(1)])
  have rem: "length ?rem = sz" "\<And>k. k < sz \<Longrightarrow> ?rem ! k = xor_list (map (\<lambda>p. rnd p ! k) ?ps)"
    using fold_xor_grow [of "replicate sz 0" sz ?ps rnd] assms(2) by simp_all
  have "hm_get (refresh_shares (generate_refresh rnd i n sz)) p = Some (?f p)" if "p \<in> set (parties n)" for p
    using that by (auto simp: generate_refresh_def Let_def parties_snoc [OF assms(1)] hm_get_fold_insert)
  moreover have "xor_list (map (\<lambda>p. ?f p ! k) (parties n)) = 0" if "k < sz" for k
  proof -
    have "map (\<lambda>p. ?f p ! k) ?ps = map (\<lambda>p. rnd p ! k) ?ps" using d by (intro map_cong) auto
    then show ?thesis using rem(2) [OF that] by (simp only: parties_snoc [OF assms(1)] map_append list.map xor_list_append) simp
  qed
  ultimately show ?thesis using rem(1) assms(2) by (intro exI [of _ ?f]) auto
qed

lemma aggregate_column:
  assumes "cs \<noteq> []" "\<And>c. c \<in> set cs \<Longrightarrow> hm_get (refresh_shares c) p = Some (f c) \<and> length (f c) = sz"
  shows "\<exists>a. fold (add_refresh p) cs None = Some a \<and> length a = sz \<and> (\<forall>k < sz. a ! k = xor_list (map (\<lambda>c. f c ! k) cs))"
proof -
  obtain c cs' where cs: "cs = c # cs'" using assms(1) by (cases cs) auto
  have "fold (add_refresh p) ds (Some r) = Some (fold (\<lambda>c r. xor_grow r (f c)) ds r)" if "set ds \<subseteq> set cs" for ds r
    using that by (induction ds arbitrary: r) (simp_all add: add_refresh_def assms(2))
  then have "fold (add_refresh p) cs None = Some (fold (\<lambda>c r. xor_grow r (f c)) cs' (f c))"
    using assms(2) by (auto simp: cs add_refresh_def)
  then show ?thesis using fold_xor_grow [of "f c" sz cs' f] assms(2) by (simp add: cs)
qed

definition generated :: "u32 \<Rightarrow> nat \<Rightarrow> refresh_contribution \<Rightarrow> bool" where
  "generated n sz c \<longleftrightarrow> (\<exists>i rnd. c = generate_refresh rnd i n sz \<and> (\<forall>p. length (rnd p) = sz))"

lemma generatedI: "(\<And>p. length (rnd p) = sz) \<Longrightarrow> generated n sz (generate_refresh rnd i n sz)"
  unfolding generated_def by blast

lemma refresh_columns_cancel:
  assumes "refresh_complete s" "1 \<le> refresh_party_count s"
    and "list_all (generated (refresh_party_count s) sz) (hm_values (refresh_contributions s))"
  shows "\<exists>g. (\<forall>p \<in> set (parties (refresh_party_count s)). aggregate_for_party s p = Some (g p) \<and> length (g p) = sz) \<and>
    (\<forall>k < sz. xor_list (map (\<lambda>p. g p ! k) (parties (refresh_party_count s))) = 0)"
proof -
  let ?n = "refresh_party_count s" and ?cs = "hm_values (refresh_contributions s)"
  have "\<forall>c \<in> set ?cs. \<exists>f. (\<forall>p \<in> set (parties ?n). hm_get (refresh_shares c) p = Some (f p) \<and> length (f p) = sz) \<and>
      (\<forall>k < sz. xor_list (map (\<lambda>p. f p ! k) (parties ?n)) = 0)"
  proof
    fix c assume "c \<in> set ?cs"
    then obtain i rnd where "c = generate_refresh rnd i ?n sz" "\<And>p. length (rnd p) = sz"
      using assms(3) unfolding list_all_iff generated_def by blast
    then show "\<exists>f. (\<forall>p \<in> set (parties ?n). hm_get (refresh_shares c) p = Some (f p) \<and> length (f p) = sz) \<and>
      (\<forall>k < sz. xor_list (map (\<lambda>p. f p ! k) (parties ?n)) = 0)"
      using generate_refresh_cancels [OF assms(2), of rnd sz i] by simp
  qed
  then obtain F where F: "\<forall>c \<in> set ?cs. (\<forall>p \<in> set (parties ?n). hm_get (refresh_shares c) p = Some (F c p) \<and> length (F c p) = sz) \<and>
      (\<forall>k < sz. xor_list (map (\<lambda>p. F c p ! k) (parties ?n)) = 0)"
    by (rule bchoice [THEN exE])
  have ne: "?cs \<noteq> []" using assms(1,2) by (auto simp: refresh_complete_def word_le_nat_alt)
  have "\<forall>p \<in> set (parties ?n). \<exists>a. aggregate_for_party s p = Some a \<and> length a = sz \<and>
      (\<forall>k < sz. a ! k = xor_list (map (\<lambda>c. F c p ! k) ?cs))"
  proof (intro ballI)
    fix p assume p: "p \<in> set (parties ?n)"
    show "\<exists>a. aggregate_for_party s p = Some a \<and> length a = sz \<and> (\<forall>k < sz. a ! k = xor_list (map (\<lambda>c. F c p ! k) ?cs))"
      unfolding aggregate_for_party_def using assms(1) aggregate_column [OF ne, of p "\<lambda>c. F c p" sz] F p by simp
  qed
  then obtain g where g: "\<forall>p \<in> set (parties ?n). aggregate_for_party s p = Some (g p) \<and> length (g p) = sz \<and>
      (\<forall>k < sz. g p ! k = xor_list (map (\<lambda>c. F c p ! k) ?cs))"
    by (rule bchoice [THEN exE])
  have "xor_list (map (\<lambda>p. g p ! k) (parties ?n)) = 0" if "k < sz" for k
  proof -
    have "map (\<lambda>p. g p ! k) (parties ?n) = map (\<lambda>p. xor_list (map (\<lambda>c. F c p ! k) ?cs)) (parties ?n)"
      using g that by simp
    also have "xor_list \<dots> = xor_list (map (\<lambda>c. xor_list (map (\<lambda>p. F c p ! k) (parties ?n))) ?cs)" by (rule xor_list_swap)
    also have "map (\<lambda>c. xor_list (map (\<lambda>p. F c p ! k) (parties ?n))) ?cs = map (\<lambda>c. 0) ?cs"
      using F that by simp
    finally show ?thesis by (simp only: xor_list_zero)
  qed
  with g show ?thesis by blast
qed

text \<open>
  Once every party has contributed, each party gets an aggregate, and applying the aggregates to
  the parties' shares leaves the exclusive or of all shares unchanged: a secret that is shared by
  exclusive or survives the refresh.
\<close>

theorem refresh_keeps_xor_secret:
  assumes "refresh_complete s" "1 \<le> refresh_party_count s"
    and "list_all (generated (refresh_party_count s) sz) (hm_values (refresh_contributions s))"
    and "\<And>p. length (old p) = sz" "k < sz"
  shows "\<exists>g. list_all (\<lambda>p. aggregate_for_party s p = Some (g p)) (parties (refresh_party_count s)) \<and>
     xor_list (map (\<lambda>p. xor_grow (old p) (g p) ! k) (parties (refresh_party_count s))) =
     xor_list (map (\<lambda>p. old p ! k) (parties (refresh_party_count s)))"
proof -
  let ?ps = "parties (refresh_party_count s)"
  obtain g where g: "\<forall>p \<in> set ?ps. aggregate_for_party s p = Some (g p) \<and> length (g p) = sz"
    "xor_list (map (\<lambda>p. g p ! k) ?ps) = 0"
    using refresh_columns_cancel [OF assms(1-3)] assms(5) by blast
  have "map (\<lambda>p. xor_grow (old p) (g p) ! k) ?ps = map (\<lambda>p. old p ! k XOR g p ! k) ?ps"
    using g(1) assms(4,5) by (intro map_cong refl) (simp add: xor_grow_same)
  then have "xor_list (map (\<lambda>p. xor_grow (old p) (g p) ! k) ?ps) = xor_list (map (\<lambda>p. old p ! k) ?ps)"
    using g(2) by (simp only: xor_list_xor xor.right_neutral)
  with g(1) show ?thesis by (auto simp: list_all_iff)
qed

definition demo_refresh :: refresh_session where
  "demo_refresh = (refresh_new ''r'' 2 2)\<lparr> refresh_contributions :=
     [(1, generate_refresh (\<lambda>p. [5]) 1 2 1), (2, generate_refresh (\<lambda>p. [9]) 2 2 1)] \<rparr>"

theorem refresh_keeps_xor_secret_witness:
  "\<exists>g. list_all (\<lambda>p. aggregate_for_party demo_refresh p = Some (g p)) [1, 2] \<and>
     xor_list (map (\<lambda>p. xor_grow [3] (g p) ! 0) [1, 2]) = 0"
proof -
  have n: "refresh_party_count demo_refresh = 2" by (simp add: demo_refresh_def refresh_new_def)
  have "refresh_complete demo_refresh" by (simp add: demo_refresh_def refresh_new_def refresh_complete_def)
  moreover have "list_all (generated 2 1) (hm_values (refresh_contributions demo_refresh))"
    by (simp add: demo_refresh_def generatedI)
  ultimately show ?thesis
    using refresh_keeps_xor_secret [of demo_refresh 1 "\<lambda>_. [3]" 0] unfolding n parties_2 by simp
qed

lemma refresh_two_parties:
  assumes "length (rnd 1) = sz"
  shows "hm_get (refresh_shares (generate_refresh rnd i 2 sz)) 1 = Some (rnd 1)"
    "hm_get (refresh_shares (generate_refresh rnd i 2 sz)) 2 = Some (rnd 1)"
proof -
  have "map2 (XOR) (replicate sz 0) (rnd 1) = rnd 1" using assms by (intro nth_equalityI) simp_all
  then show "hm_get (refresh_shares (generate_refresh rnd i 2 sz)) 1 = Some (rnd 1)"
    "hm_get (refresh_shares (generate_refresh rnd i 2 sz)) 2 = Some (rnd 1)"
    using assms by (simp_all add: generate_refresh_def Let_def upt_rec xor_grow_same)
qed

lemma recover_shifted:
  assumes "inj emb" "recover_secret emb shs = Inr a" "ss = map (share_y_update (\<lambda>y. y + r)) shs"
  shows "recover_secret emb ss = Inr (a + r)"
proof -
  have x: "map share_x ss = map share_x shs" by (simp add: assms(3) comp_def)
  have ne: "shs \<noteq> []" and d: "distinct (map share_x shs)"
    using assms(2) by (auto simp: recover_secret_def first_duplicate_None split: if_splits option.splits)
  have a: "a = interpolate emb shs 0" using recover_secret_interpolate [OF ne d, of emb] assms(2) by simp
  have "poly_fun (length shs) (\<lambda>z. interpolate emb shs z + r * 1)"
    using ne by (intro poly_fun_add poly_fun_interpolate poly_fun_scale poly_fun_mono [OF poly_fun_1]) (simp add: Suc_le_eq)
  then have "interpolate emb ss 0 = interpolate emb shs 0 + r * 1"
    by (intro interpolate_unique [OF assms(1)]) (use d x interpolate_at [OF assms(1) d] in \<open>auto simp: assms(3) comp_def\<close>)
  then show ?thesis using recover_secret_interpolate [of ss emb] ne d x by (simp add: a assms(3) comp_def)
qed



end
