(* ===== verification/Event_Store.thy ===== *)
theory Event_Store
  imports Confium_Base "HOL-Library.Multiset"
begin

text \<open>
  The event-sourced session store (\<open>confium-coordinator/src/event_sourced.rs\<close>) and the projection
  and batching of \<open>async_event_store.rs\<close>. \<open>append\<close> takes its sequence number under one lock and
  pushes the entry under another, so it is also given as two steps that other threads can come
  between.
\<close>

section \<open>Events and projections\<close>

datatype session_event =
    Created string u32 u32
  | CommitmentSubmitted string string
  | ShareSubmitted string string
  | Completed string
  | Expired string
  | Aborted string string

record event_entry =
  sequence :: u64
  event_time :: instant
  event :: session_event

record session_projection =
  proj_id :: string
  proj_state :: string
  proj_threshold :: u32
  proj_party_count :: u32
  proj_commitments :: "string list"
  proj_shares :: "string list"

record event_store =
  events :: "event_entry list"
  next_seq :: u64

definition store_new :: event_store where
  "store_new = \<lparr> events = [], next_seq = 0 \<rparr>"

definition take_sequence :: "event_store \<Rightarrow> u64 \<times> event_store" where
  "take_sequence s = (next_seq s, s\<lparr> next_seq := next_seq s + 1 \<rparr>)"

definition push_event :: "u64 \<Rightarrow> instant \<Rightarrow> session_event \<Rightarrow> event_store \<Rightarrow> event_store" where
  "push_event n now e s = s\<lparr> events := events s @ [\<lparr> sequence = n, event_time = now, event = e \<rparr>] \<rparr>"

definition store_append :: "instant \<Rightarrow> session_event \<Rightarrow> event_store \<Rightarrow> u64 \<times> event_store" where
  "store_append now e s = (let (n, s') = take_sequence s in (n, push_event n now e s'))"

fun session_id_of :: "session_event \<Rightarrow> string" where
  "session_id_of (Created sid _ _) = sid"
| "session_id_of (CommitmentSubmitted sid _) = sid"
| "session_id_of (ShareSubmitted sid _) = sid"
| "session_id_of (Completed sid) = sid"
| "session_id_of (Expired sid) = sid"
| "session_id_of (Aborted sid _) = sid"

definition events_for_session :: "event_store \<Rightarrow> string \<Rightarrow> event_entry list" where
  "events_for_session s sid = filter (\<lambda>e. session_id_of (event e) = sid) (events s)"

fun apply_event :: "session_event \<Rightarrow> session_projection \<Rightarrow> session_projection" where
  "apply_event (Created _ t n) p = p\<lparr> proj_state := ''pending'', proj_threshold := t, proj_party_count := n \<rparr>"
| "apply_event (CommitmentSubmitted _ signer) p = p\<lparr> proj_commitments := proj_commitments p @ [signer] \<rparr>"
| "apply_event (ShareSubmitted _ signer) p = p\<lparr> proj_shares := proj_shares p @ [signer] \<rparr>"
| "apply_event (Completed _) p = p\<lparr> proj_state := ''completed'' \<rparr>"
| "apply_event (Expired _) p = p\<lparr> proj_state := ''expired'' \<rparr>"
| "apply_event (Aborted _ _) p = p\<lparr> proj_state := ''aborted'' \<rparr>"

definition empty_projection :: "string \<Rightarrow> session_projection" where
  "empty_projection sid =
     \<lparr> proj_id = sid, proj_state = '''', proj_threshold = 0, proj_party_count = 0, proj_commitments = [], proj_shares = [] \<rparr>"

definition project_session :: "event_store \<Rightarrow> string \<Rightarrow> session_projection option" where
  "project_session s sid =
     (let es = events_for_session s sid
      in if es = [] then None else Some (fold (apply_event \<circ> event) es (empty_projection sid)))"

definition project_all :: "event_store \<Rightarrow> session_projection list" where
  "project_all s = List.map_filter (project_session s) (remdups (map (session_id_of \<circ> event) (events s)))"

section \<open>The store refines a map of projections\<close>

text \<open>The abstract store: a projection per session, changed in place by each event.\<close>

definition abs_append :: "session_event \<Rightarrow> (string \<Rightarrow> session_projection option) \<Rightarrow> string \<Rightarrow> session_projection option" where
  "abs_append e m =
     m(session_id_of e \<mapsto> apply_event e (case m (session_id_of e) of Some p \<Rightarrow> p | None \<Rightarrow> empty_projection (session_id_of e)))"

lemma events_for_append:
  "events_for_session (snd (store_append now e s)) sid =
     events_for_session s sid @ (if session_id_of e = sid then [\<lparr> sequence = next_seq s, event_time = now, event = e \<rparr>] else [])"
  by (simp add: events_for_session_def store_append_def take_sequence_def push_event_def)

lemma project_append: "project_session (snd (store_append now e s)) = abs_append e (project_session s)"
proof
  fix sid
  show "project_session (snd (store_append now e s)) sid = abs_append e (project_session s) sid"
    unfolding project_session_def events_for_append abs_append_def by (simp add: Let_def)
qed

text \<open>Appending only extends the event log.\<close>

interpretation event_log: append_only "\<lambda>(now, e) s. snd (store_append now e s)" "\<lambda>_. True" events
  by unfold_locales (auto simp: store_append_def take_sequence_def push_event_def)

fun run_store :: "(instant \<times> session_event) list \<Rightarrow> event_store \<Rightarrow> event_store" where
  "run_store [] s = s"
| "run_store ((now, e) # es) s = run_store es (snd (store_append now e s))"

lemma run_store_fold: "run_store es s = fold (\<lambda>(now, e) s. snd (store_append now e s)) es s"
  by (induction es s rule: run_store.induct) simp_all

lemma recorded_event_stays:
  "i < length (events s) \<Longrightarrow> i < length (events (run_store es s)) \<and> events (run_store es s) ! i = events s ! i"
  unfolding run_store_fold by (rule event_log.run_log_nth) simp_all

lemma set_map_filter_Some: "set (List.map_filter f xs) = {y. \<exists>x \<in> set xs. f x = Some y}"
  by (force simp: map_filter_def)

lemma project_session_known: "project_session s sid = Some p \<Longrightarrow> sid \<in> set (map (session_id_of \<circ> event) (events s))"
  by (auto simp: project_session_def events_for_session_def Let_def filter_empty_conv split: if_splits)

lemma set_project_all: "set (project_all s) = {p. \<exists>sid. project_session s sid = Some p}"
  unfolding project_all_def set_map_filter_Some set_remdups using project_session_known by blast


section \<open>Interleaved appends\<close>

text \<open>A thread that has its number but has not pushed its entry yet is in the second component.\<close>

inductive appends :: "event_store \<Rightarrow> (u64 \<times> session_event) list \<Rightarrow> bool" where
  start: "appends store_new []"
| number: "appends s ps \<Longrightarrow> take_sequence s = (n, s') \<Longrightarrow> appends s' (ps @ [(n, e)])"
| push: "appends s (ps @ (n, e) # qs) \<Longrightarrow> appends (push_event n now e s) (ps @ qs)"

definition taken :: "event_store \<Rightarrow> (u64 \<times> session_event) list \<Rightarrow> u64 list" where
  "taken s ps = map sequence (events s) @ map fst ps"

lemma appends_taken:
  assumes "appends s ps" "length (events s) + length ps < 2 ^ 64"
  shows "distinct (taken s ps) \<and> set (map unat (taken s ps)) = {0..<unat (next_seq s)} \<and>
    unat (next_seq s) = length (events s) + length ps"
  using assms
proof (induction rule: appends.induct)
  case start
  show ?case by (simp add: taken_def store_new_def)
next
  case (number s ps n s' e)
  then have s': "n = next_seq s" "events s' = events s" "next_seq s' = next_seq s + 1" by (auto simp: take_sequence_def)
  have IH: "distinct (taken s ps)" "set (map unat (taken s ps)) = {0..<unat (next_seq s)}"
    "unat (next_seq s) = length (events s) + length ps" using number s' by simp_all
  have "next_seq s \<noteq> - 1" using IH(3) number.prems s'(2) by (auto simp: unsigned_minus_1_eq_mask mask_eq_exp_minus_1)
  then have next': "unat (next_seq s') = Suc (unat (next_seq s))" using s'(3) by (simp add: unat_plus_1)
  have "unat n \<notin> set (map unat (taken s ps))" using IH(2) s'(1) by simp
  then have "n \<notin> set (taken s ps)" by auto
  then show ?case using IH next' s' by (auto simp: taken_def atLeastLessThanSuc)
next
  case (push s ps n e qs now)
  then have IH: "distinct (taken s (ps @ (n, e) # qs))" "set (map unat (taken s (ps @ (n, e) # qs))) = {0..<unat (next_seq s)}"
    "unat (next_seq s) = length (events s) + length (ps @ (n, e) # qs)" by (simp_all add: push_event_def)
  have "mset (taken (push_event n now e s) (ps @ qs)) = mset (taken s (ps @ (n, e) # qs))"
    by (simp add: taken_def push_event_def)
  then have "distinct (taken (push_event n now e s) (ps @ qs)) \<longleftrightarrow> distinct (taken s (ps @ (n, e) # qs))"
    "set (taken (push_event n now e s) (ps @ qs)) = set (taken s (ps @ (n, e) # qs))"
    by (metis mset_eq_imp_distinct_iff, metis mset_eq_setD)
  then show ?case using IH by (simp add: push_event_def)
qed

text \<open>
  Appends of several threads, interleaved in any way, never give two entries the same sequence
  number and skip none: the numbers of the entries in the log and of those still to be pushed are
  exactly those below the counter.
\<close>

theorem sequence_numbers_unique:
  assumes "appends s ps" "length (events s) + length ps < 2 ^ 64"
  shows "distinct (map sequence (events s)) \<and>
     set (map (unat \<circ> sequence) (events s)) \<union> set (map (unat \<circ> fst) ps) = {0..<unat (next_seq s)} \<and>
     (ps = [] \<longrightarrow> unat (next_seq s) = length (events s))"
  using appends_taken [OF assms] by (auto simp: taken_def comp_def image_Un)

lemma appends_example:
  "appends (push_event 0 6 (Expired ''s'') (push_event 1 5 (Completed ''s'') \<lparr> events = [], next_seq = 2 \<rparr>)) []"
proof -
  have "appends \<lparr> events = [], next_seq = 1 \<rparr> ([] @ [(0, Expired ''s'')])"
    by (rule number [OF start]) (simp add: take_sequence_def store_new_def)
  then have one: "appends \<lparr> events = [], next_seq = 1 \<rparr> [(0, Expired ''s'')]" by simp
  have "appends \<lparr> events = [], next_seq = 2 \<rparr> ([(0, Expired ''s'')] @ [(1, Completed ''s'')])"
    by (rule number [OF one]) (simp add: take_sequence_def)
  then have "appends \<lparr> events = [], next_seq = 2 \<rparr> ([(0, Expired ''s'')] @ (1, Completed ''s'') # [])" by simp
  from push [OF this, of 5] have "appends (push_event 1 5 (Completed ''s'') \<lparr> events = [], next_seq = 2 \<rparr>) ([] @ (0, Expired ''s'') # [])"
    by simp
  from push [OF this, of 6] show ?thesis by simp
qed

theorem sequence_numbers_unique_witness:
  "distinct (map sequence (events (push_event 0 6 (Expired ''s'') (push_event 1 5 (Completed ''s'') \<lparr> events = [], next_seq = 2 \<rparr>))))"
  using sequence_numbers_unique [OF appends_example] by (simp add: push_event_def)

text \<open>
  The order of the log can contradict the sequence numbers. Two threads that take the numbers 0
  and 1 can push in the opposite order; replaying the log then ends in the state of the event with
  the smaller number.
\<close>

theorem log_order_contradicts_numbers:
  "\<exists>s. appends s [] \<and> map sequence (events s) = [1, 0] \<and> map event (events s) = [Completed ''s'', Expired ''s''] \<and>
     map_option proj_state (project_session s ''s'') = Some ''expired''"
  by (rule exI, rule conjI, rule appends_example)
    (simp add: push_event_def project_session_def events_for_session_def Let_def empty_projection_def)

section \<open>Asynchronous store\<close>

text \<open>
  The batched appender of \<open>async_event_store.rs\<close> with the batches handed to its writer thread, and
  the key-value projection.
\<close>

datatype domain_event = DCreated string string | DUpdated string string | DDeleted string

record batched_appender =
  buffer :: "domain_event list"
  batch_size :: nat
  batches :: "domain_event list list"

definition appender_spawn :: "nat \<Rightarrow> batched_appender" where
  "appender_spawn n = \<lparr> buffer = [], batch_size = n, batches = [] \<rparr>"

definition appender_append :: "domain_event \<Rightarrow> batched_appender \<Rightarrow> batched_appender" where
  "appender_append e a =
     (let b = buffer a @ [e]
      in if batch_size a \<le> length b then a\<lparr> buffer := [], batches := batches a @ [b] \<rparr> else a\<lparr> buffer := b \<rparr>)"

definition appender_flush :: "batched_appender \<Rightarrow> batched_appender" where
  "appender_flush a = (if buffer a = [] then a else a\<lparr> buffer := [], batches := batches a @ [buffer a] \<rparr>)"

fun projection_apply :: "domain_event \<Rightarrow> (string, string) hashmap \<Rightarrow> (string, string) hashmap" where
  "projection_apply (DCreated k v) m = hm_insert k v m"
| "projection_apply (DUpdated k v) m = hm_insert k v m"
| "projection_apply (DDeleted k) m = hm_remove k m"

datatype appender_op = Append domain_event | Flush

fun appender_exec :: "appender_op \<Rightarrow> batched_appender \<Rightarrow> batched_appender" where
  "appender_exec (Append e) a = appender_append e a"
| "appender_exec Flush a = appender_flush a"

fun appended :: "appender_op list \<Rightarrow> domain_event list" where
  "appended [] = []"
| "appended (Append e # ops) = e # appended ops"
| "appended (Flush # ops) = appended ops"

lemma appender_invariant:
  assumes "length (buffer a) < batch_size a"
  shows "concat (batches (fold appender_exec ops a)) @ buffer (fold appender_exec ops a) =
      concat (batches a) @ buffer a @ appended ops \<and>
    length (buffer (fold appender_exec ops a)) < batch_size a \<and> batch_size (fold appender_exec ops a) = batch_size a"
  using assms
proof (induction ops arbitrary: a)
  case (Cons op ops)
  have "length (buffer (appender_exec op a)) < batch_size a \<and> batch_size (appender_exec op a) = batch_size a \<and>
      concat (batches (appender_exec op a)) @ buffer (appender_exec op a) = concat (batches a) @ buffer a @ appended [op]"
    using Cons.prems by (cases op) (auto simp: appender_append_def appender_flush_def Let_def)
  then show ?case using Cons.IH [of "appender_exec op a"] by (cases op) (auto simp flip: append_assoc)
qed simp

text \<open>
  The batched appender loses, repeats and reorders nothing: after any operations, the batches handed
  over followed by the buffer are the appended events, and the buffer stays below the batch size.
\<close>

theorem batching_keeps_events:
  assumes "0 < n"
  shows "concat (batches (fold appender_exec ops (appender_spawn n))) @ buffer (fold appender_exec ops (appender_spawn n))
       = appended ops \<and> length (buffer (fold appender_exec ops (appender_spawn n))) < n"
  using appender_invariant [of "appender_spawn n" ops] assms by (simp add: appender_spawn_def)

theorem batching_keeps_events_witness:
  "concat (batches (fold appender_exec [Append (DDeleted ''a''), Flush, Append (DDeleted ''b'')] (appender_spawn 3)))
     @ buffer (fold appender_exec [Append (DDeleted ''a''), Flush, Append (DDeleted ''b'')] (appender_spawn 3))
   = [DDeleted ''a'', DDeleted ''b'']"
  using batching_keeps_events [of 3 "[Append (DDeleted ''a''), Flush, Append (DDeleted ''b'')]"] by simp

end
