(* ===== verification/Text_Encoding.thy ===== *)
theory Text_Encoding
  imports Confium_Base
begin

text \<open>
  What the sources use of the text handling of the standard library: UTF-8 validity and decoding,
  white space, and the division of a text into lines. A string of the model is its UTF-8 bytes.
\<close>

section \<open>UTF-8\<close>

fun code_points :: "nat list \<Rightarrow> nat list" where
  "code_points [] = []"
| "code_points (b # bs) =
     (if b < 0x80 then b # code_points bs
      else if b < 0xE0 then
        (case bs of c # bs' \<Rightarrow> ((b mod 32) * 64 + c mod 64) # code_points bs' | _ \<Rightarrow> [])
      else if b < 0xF0 then
        (case bs of c # d # bs' \<Rightarrow> ((b mod 16) * 4096 + (c mod 64) * 64 + d mod 64) # code_points bs' | _ \<Rightarrow> [])
      else
        (case bs of c # d # e # bs' \<Rightarrow>
           ((b mod 8) * 262144 + (c mod 64) * 4096 + (d mod 64) * 64 + e mod 64) # code_points bs' | _ \<Rightarrow> []))"

text \<open>The well-formed byte sequences of the Unicode standard, as \<open>str::from_utf8\<close> accepts them.\<close>

definition continuation :: "nat \<Rightarrow> bool" where
  "continuation b \<longleftrightarrow> 0x80 \<le> b \<and> b \<le> 0xBF"

definition second_byte :: "nat \<Rightarrow> nat \<Rightarrow> bool" where
  "second_byte b c \<longleftrightarrow>
     (if b = 0xE0 then 0xA0 \<le> c \<and> c \<le> 0xBF
      else if b = 0xED then 0x80 \<le> c \<and> c \<le> 0x9F
      else if b = 0xF0 then 0x90 \<le> c \<and> c \<le> 0xBF
      else if b = 0xF4 then 0x80 \<le> c \<and> c \<le> 0x8F
      else continuation c)"

fun utf8_valid :: "nat list \<Rightarrow> bool" where
  "utf8_valid [] = True"
| "utf8_valid (b # bs) =
     (if b < 0x80 then utf8_valid bs
      else if b < 0xC2 then False
      else if b < 0xE0 then (case bs of c # bs' \<Rightarrow> continuation c \<and> utf8_valid bs' | _ \<Rightarrow> False)
      else if b < 0xF0 then
        (case bs of c # d # bs' \<Rightarrow> second_byte b c \<and> continuation d \<and> utf8_valid bs' | _ \<Rightarrow> False)
      else if b < 0xF5 then
        (case bs of c # d # e # bs' \<Rightarrow> second_byte b c \<and> continuation d \<and> continuation e \<and> utf8_valid bs' | _ \<Rightarrow> False)
      else False)"

lemma utf8_valid_ascii: "list_all (\<lambda>b. b < 0x80) bs \<Longrightarrow> utf8_valid bs"
  by (induction bs) simp_all

lemma list_upto_three: "bs = [] \<or> (\<exists>c. bs = [c]) \<or> (\<exists>c d. bs = [c, d]) \<or> (\<exists>c d e r. bs = c # d # e # r)"
  by (cases bs; cases "tl bs"; cases "tl (tl bs)") auto

lemma utf8_valid_append: "utf8_valid bs \<Longrightarrow> utf8_valid (bs @ cs) = utf8_valid cs"
proof (induction bs rule: utf8_valid.induct)
  case (2 b bs)
  show ?case
  proof (cases "b < 0x80")
    case False
    consider "bs = []" | c where "bs = [c]" | c d where "bs = [c, d]" | c d e r where "bs = c # d # e # r"
      using list_upto_three [of bs] by blast
    then show ?thesis using 2 False by cases (simp_all split: if_split_asm)
  qed (use 2 in simp)
qed simp

text \<open>The bytes of a string, and fields that end at a zero byte.\<close>

definition string_bytes :: "string \<Rightarrow> bytes" where
  "string_bytes = map (\<lambda>c. of_nat (of_char c))"

lemma unat_of_char: "unat (of_nat (of_char c) :: u8) = of_char c"
  by (simp add: unat_of_nat)

lemma inj_char_byte: "inj (\<lambda>c. of_nat (of_char c) :: u8)"
  by (rule injI) (metis unat_of_char char_of_char)

lemma string_bytes_inject [simp]: "string_bytes s = string_bytes t \<longleftrightarrow> s = t"
  unfolding string_bytes_def by (rule inj_map_eq_map [OF inj_char_byte])

lemma string_bytes_nul: "0 \<in> set (string_bytes s) \<longleftrightarrow> CHR 0x00 \<in> set s"
  using inj_image_mem_iff [OF inj_char_byte, of "CHR 0x00" "set s"] by (simp add: string_bytes_def)

lemma split_at_nul:
  assumes "(0 :: u8) \<notin> set xs" "0 \<notin> set ys" "xs @ 0 # r = ys @ 0 # q"
  shows "xs = ys \<and> r = q"
proof -
  have "takeWhile ((\<noteq>) 0) (zs @ 0 # s) = zs" if "(0 :: u8) \<notin> set zs" for zs s
    using that by (induction zs) auto
  then have "xs = ys"
    using assms by metis
  then show ?thesis
    using assms(3) by simp
qed

section \<open>White space\<close>

definition is_whitespace :: "nat \<Rightarrow> bool" where
  "is_whitespace c \<longleftrightarrow> 9 \<le> c \<and> c \<le> 13 \<or> 8192 \<le> c \<and> c \<le> 8202 \<or>
     c \<in> {32, 133, 160, 5760, 8232, 8233, 8239, 8287, 12288}"

text \<open>\<open>line.trim().is_empty()\<close>\<close>

definition blank_line :: "string \<Rightarrow> bool" where
  "blank_line s \<longleftrightarrow> list_all is_whitespace (code_points (map of_char s))"

section \<open>Lines\<close>

text \<open>
  \<open>BufRead::lines\<close>: a line ends at a line feed, which is dropped together with a carriage return
  before it; a last line without a line feed counts when it is not empty.
\<close>

definition strip_cr :: "string \<Rightarrow> string" where
  "strip_cr s = (if s \<noteq> [] \<and> last s = CHR 0x0D then butlast s else s)"

function lines_of :: "string \<Rightarrow> string list" where
  "lines_of s =
     (if s = [] then []
      else case dropWhile (\<lambda>c. c \<noteq> CHR 0x0A) s of
             [] \<Rightarrow> [s]
           | _ # rest \<Rightarrow> strip_cr (takeWhile (\<lambda>c. c \<noteq> CHR 0x0A) s) # lines_of rest)"
  by pat_completeness auto

termination
proof (relation "measure length")
  fix s :: string and c rest
  assume "dropWhile (\<lambda>c. c \<noteq> CHR 0x0A) s = c # rest"
  then show "(rest, s) \<in> measure length" using length_dropWhile_le [of "\<lambda>c. c \<noteq> CHR 0x0A" s] by simp
qed simp

declare lines_of.simps [simp del]

lemma lines_of_Nil [simp]: "lines_of [] = []"
  by (simp add: lines_of.simps)

lemma lines_of_line: "CHR 0x0A \<notin> set l \<Longrightarrow> lines_of (l @ CHR 0x0A # s) = strip_cr l # lines_of s"
proof -
  assume "CHR 0x0A \<notin> set l"
  then have "dropWhile (\<lambda>c. c \<noteq> CHR 0x0A) (l @ CHR 0x0A # s) = CHR 0x0A # s"
    "takeWhile (\<lambda>c. c \<noteq> CHR 0x0A) (l @ CHR 0x0A # s) = l"
    by (induction l) auto
  then show ?thesis by (subst lines_of.simps) simp
qed

lemma lines_of_last: "CHR 0x0A \<notin> set l \<Longrightarrow> l \<noteq> [] \<Longrightarrow> lines_of l = [l]"
proof -
  assume l: "CHR 0x0A \<notin> set l" "l \<noteq> []"
  then have d: "dropWhile (\<lambda>c. c \<noteq> CHR 0x0A) l = []" by (induction l) auto
  show ?thesis using l(2) by (simp only: lines_of.simps [of l] d list.case if_False)
qed

end
