(* ===== verification/Write_Ahead_Log.thy ===== *)
theory Write_Ahead_Log
  imports Text_Encoding
begin

text \<open>
  The session write-ahead log (\<open>confium-coordinator/src/wal.rs\<close>). The file is its text, or \<open>None\<close>
  while it does not exist. The JSON encoding of one entry (serde_json) is a pair of arguments, and
  so is the fate of a write: it completes, or it stops after some bytes, by a failure of the write
  or by a crash of the process.
\<close>

section \<open>Model\<close>

datatype state_transition =
    TCreated string string u32
  | CommitmentReceived string
  | ShareReceived string
  | TCompleted
  | TExpired
  | TAborted string

record wal_entry =
  wal_seq :: u64
  wal_session :: string
  transition :: state_transition
  wal_time :: instant

datatype io_error = InvalidUtf8 | WriteFailed | NotFound

record session_wal =
  wal_file :: "string option"
  wal_next :: u64

type_synonym decoder = "string \<Rightarrow> wal_entry option"
type_synonym encoder = "wal_entry \<Rightarrow> string"

fun read_lines :: "decoder \<Rightarrow> string list \<Rightarrow> io_error + wal_entry list" where
  "read_lines dec [] = Inr []"
| "read_lines dec (l # ls) =
     (if \<not> utf8_valid (map of_char l) then Inl InvalidUtf8
      else try_bind (read_lines dec ls) (\<lambda>es.
        if blank_line l then Inr es
        else case dec l of Some e \<Rightarrow> Inr (e # es) | None \<Rightarrow> Inr es))"

definition read_all_from :: "decoder \<Rightarrow> string option \<Rightarrow> io_error + wal_entry list" where
  "read_all_from dec f = (case f of None \<Rightarrow> Inr [] | Some txt \<Rightarrow> read_lines dec (lines_of txt))"

definition max_seq :: "wal_entry list \<Rightarrow> u64" where
  "max_seq es = fold (\<lambda>e. max (wal_seq e)) es 0"

definition wal_open :: "decoder \<Rightarrow> string option \<Rightarrow> io_error + session_wal" where
  "wal_open dec f =
     (case f of
        None \<Rightarrow> Inr \<lparr> wal_file = None, wal_next = 1 \<rparr>
      | Some txt \<Rightarrow> try_bind (read_all_from dec f) (\<lambda>es. Inr \<lparr> wal_file = f, wal_next = max_seq es + 1 \<rparr>))"

definition wal_line :: "encoder \<Rightarrow> wal_entry \<Rightarrow> string" where
  "wal_line enc e = enc e @ [CHR 0x0A]"

definition wal_append ::
  "encoder \<Rightarrow> nat option \<Rightarrow> instant \<Rightarrow> string \<Rightarrow> state_transition \<Rightarrow> session_wal \<Rightarrow> (io_error + u64) \<times> session_wal" where
  "wal_append enc torn now sid tr w =
     (let e = \<lparr> wal_seq = wal_next w, wal_session = sid, transition = tr, wal_time = now \<rparr>;
          old = (case wal_file w of Some txt \<Rightarrow> txt | None \<Rightarrow> []);
          w' = w\<lparr> wal_next := wal_next w + 1 \<rparr>
      in case torn of
           None \<Rightarrow> (Inr (wal_seq e), w'\<lparr> wal_file := Some (old @ wal_line enc e) \<rparr>)
         | Some k \<Rightarrow> (Inl WriteFailed, w'\<lparr> wal_file := Some (old @ take k (wal_line enc e)) \<rparr>))"

definition wal_read_all :: "decoder \<Rightarrow> session_wal \<Rightarrow> io_error + wal_entry list" where
  "wal_read_all dec w = read_all_from dec (wal_file w)"

definition wal_truncate :: "session_wal \<Rightarrow> io_error + session_wal" where
  "wal_truncate w = (case wal_file w of None \<Rightarrow> Inl NotFound | Some _ \<Rightarrow> Inr (w\<lparr> wal_file := Some [], wal_next := 1 \<rparr>))"

section \<open>Reading what was written\<close>

text \<open>
  What the log relies on of the JSON encoder: the text of an entry is one line of UTF-8, not blank,
  and decodes to the entry.
\<close>

definition encodes :: "encoder \<Rightarrow> decoder \<Rightarrow> wal_entry \<Rightarrow> bool" where
  "encodes enc dec e \<longleftrightarrow>
     dec (enc e) = Some e \<and> CHR 0x0A \<notin> set (enc e) \<and> last (enc e) \<noteq> CHR 0x0D \<and> \<not> blank_line (enc e) \<and>
     utf8_valid (map of_char (enc e))"

definition wal_text :: "encoder \<Rightarrow> wal_entry list \<Rightarrow> string" where
  "wal_text enc es = concat (map (wal_line enc) es)"

lemma strip_cr_id: "last s \<noteq> CHR 0x0D \<Longrightarrow> strip_cr s = s"
  by (simp add: strip_cr_def)

lemma read_lines_text:
  assumes "list_all (encodes enc dec) es"
  shows "read_lines dec (lines_of (wal_text enc es @ s)) = try_bind (read_lines dec (lines_of s)) (\<lambda>rs. Inr (es @ rs))"
  using assms
proof (induction es)
  case Nil
  show ?case by (cases "read_lines dec (lines_of s)") (simp_all add: wal_text_def)
next
  case (Cons e es)
  then have e: "encodes enc dec e" by simp
  have "lines_of (wal_text enc (e # es) @ s) = strip_cr (enc e) # lines_of (wal_text enc es @ s)"
    using lines_of_line [of "enc e" "wal_text enc es @ s"] e by (simp add: wal_text_def wal_line_def encodes_def)
  then show ?case using Cons e
    by (cases "read_lines dec (lines_of s)") (simp_all add: encodes_def strip_cr_id)
qed

lemma read_all_text: "list_all (encodes enc dec) es \<Longrightarrow> read_all_from dec (Some (wal_text enc es)) = Inr es"
  using read_lines_text [of enc dec es "[]"] by (simp add: read_all_from_def)

fun entries_from :: "u64 \<Rightarrow> (instant \<times> string \<times> state_transition) list \<Rightarrow> wal_entry list" where
  "entries_from n [] = []"
| "entries_from n ((now, sid, tr) # ops) =
     \<lparr> wal_seq = n, wal_session = sid, transition = tr, wal_time = now \<rparr> # entries_from (n + 1) ops"

fun wal_appends :: "encoder \<Rightarrow> (instant \<times> string \<times> state_transition) list \<Rightarrow> session_wal \<Rightarrow> session_wal" where
  "wal_appends enc [] w = w"
| "wal_appends enc ((now, sid, tr) # ops) w = wal_appends enc ops (snd (wal_append enc None now sid tr w))"

lemma wal_appends_file:
  "ops \<noteq> [] \<or> wal_file w \<noteq> None \<Longrightarrow>
   wal_appends enc ops w = \<lparr> wal_file = Some ((case wal_file w of Some t \<Rightarrow> t | None \<Rightarrow> []) @ wal_text enc (entries_from (wal_next w) ops)),
     wal_next = wal_next w + of_nat (length ops) \<rparr>"
proof (induction enc ops w rule: wal_appends.induct)
  case (1 enc w)
  then show ?case by (cases w) (auto simp: wal_text_def)
next
  case (2 enc now sid tr ops w)
  then show ?case by (simp add: wal_append_def Let_def wal_text_def)
qed

lemma length_entries [simp]: "length (entries_from n ops) = length ops"
  by (induction n ops rule: entries_from.induct) simp_all

lemma entries_snoc:
  "entries_from n (ops @ [(now, sid, tr)]) =
     entries_from n ops @ [\<lparr> wal_seq = n + of_nat (length ops), wal_session = sid, transition = tr, wal_time = now \<rparr>]"
  by (induction n ops rule: entries_from.induct) (simp_all add: algebra_simps)

lemma max_seq_entries:
  assumes "unat n + length ops < 2 ^ 64" "0 < unat n"
  shows "max_seq (entries_from n ops) = (if ops = [] then 0 else n + of_nat (length ops) - 1)"
  using assms(1)
proof (induction ops rule: rev_induct)
  case (snoc op ops)
  obtain now sid tr where op: "op = (now, sid, tr)" by (cases op) auto
  have le: "unat (n + of_nat (length ops)) = unat n + length ops"
    using snoc.prems by (simp add: unat_word_ariths unsigned_of_nat take_bit_eq_mod)
  have IH: "max_seq (entries_from n ops) = (if ops = [] then 0 else n + of_nat (length ops) - 1)" using snoc by simp
  have "max_seq (entries_from n ops) \<le> n + of_nat (length ops)"
  proof (cases "ops = []")
    case False
    have "n + of_nat (length ops) \<noteq> 0" using le assms(2) by auto
    then have "n + of_nat (length ops) - 1 \<le> n + of_nat (length ops)"
      by (simp add: word_le_nat_alt unat_minus_one)
    with False IH show ?thesis by simp
  qed (simp add: max_seq_def)
  then have "max_seq (entries_from n (ops @ [op])) = n + of_nat (length ops)"
    unfolding op entries_snoc by (simp add: max_seq_def max_def)
  then show ?case by simp
qed (simp add: max_seq_def)

lemma read_all_torn:
  assumes "list_all (encodes enc dec) es" "CHR 0x0A \<notin> set l" "utf8_valid (map of_char l)" "dec l = None"
  shows "read_all_from dec (Some (wal_text enc es @ l)) = Inr es"
proof (cases "l = []")
  case False
  then have "read_lines dec (lines_of l) = Inr []" using assms(2-4) by (simp add: lines_of_last)
  then show ?thesis using read_lines_text [OF assms(1), of l] by (simp add: read_all_from_def)
qed (simp add: read_all_text assms(1))

text \<open>
  The text of a write that stopped before its line was complete: still UTF-8 and, as every proper
  prefix of a JSON object, not an entry.
\<close>

definition torn_text :: "encoder \<Rightarrow> decoder \<Rightarrow> wal_entry \<Rightarrow> nat \<Rightarrow> bool" where
  "torn_text enc dec e k \<longleftrightarrow>
     k < length (enc e) \<and> CHR 0x0A \<notin> set (enc e) \<and> dec (take k (enc e)) = None \<and> utf8_valid (map of_char (take k (enc e)))"

lemma torn_line: "torn_text enc dec e k \<Longrightarrow> take k (wal_line enc e) = take k (enc e)"
  by (simp add: torn_text_def wal_line_def)

lemma read_torn:
  "list_all (encodes enc dec) es \<Longrightarrow> torn_text enc dec e k \<Longrightarrow> read_all_from dec (Some (wal_text enc es @ take k (enc e))) = Inr es"
  by (rule read_all_torn) (auto simp: torn_text_def dest: in_set_takeD)

definition new_wal :: session_wal where
  "new_wal = \<lparr> wal_file = None, wal_next = 1 \<rparr>"

lemma open_new: "wal_open dec None = Inr new_wal"
  by (simp add: wal_open_def new_wal_def)

lemma read_none [simp]: "read_all_from dec None = Inr []"
  by (simp add: read_all_from_def)

lemma appends_new:
  "wal_appends enc ops new_wal =
     \<lparr> wal_file = (if ops = [] then None else Some (wal_text enc (entries_from 1 ops))), wal_next = 1 + of_nat (length ops) \<rparr>"
  by (cases "ops = []") (simp_all add: wal_appends_file new_wal_def)

lemma open_read:
  "read_all_from dec (Some txt) = Inr es \<Longrightarrow> wal_open dec (Some txt) = Inr \<lparr> wal_file = Some txt, wal_next = max_seq es + 1 \<rparr>"
  by (simp add: wal_open_def)

lemma next_of_entries: "length ops + 1 < 2 ^ 64 \<Longrightarrow> max_seq (entries_from 1 ops) + 1 = 1 + of_nat (length ops)"
  using max_seq_entries [of 1 ops] by simp

abbreviation next_entry :: "(instant \<times> string \<times> state_transition) list \<Rightarrow> instant \<Rightarrow> string \<Rightarrow> state_transition \<Rightarrow> wal_entry" where
  "next_entry ops now sid tr \<equiv> \<lparr> wal_seq = 1 + of_nat (length ops), wal_session = sid, transition = tr, wal_time = now \<rparr>"

lemma torn_file:
  assumes "torn_text enc dec (next_entry ops now sid tr) k"
  shows "wal_append enc (Some k) now sid tr (wal_appends enc ops new_wal) =
    (Inl WriteFailed, \<lparr> wal_file = Some (wal_text enc (entries_from 1 ops) @ take k (enc (next_entry ops now sid tr))),
       wal_next = 2 + of_nat (length ops) \<rparr>)"
  using torn_line [OF assms] by (simp add: wal_append_def Let_def appends_new wal_text_def algebra_simps)



text \<open>
  Truncation after a checkpoint starts the numbering again, so a number already handed out is
  handed out a second time.
\<close>

theorem truncate_reuses_numbers:
  "wal_truncate (wal_appends enc ((now, sid, tr) # ops) new_wal) = Inr w \<Longrightarrow>
   fst (wal_append enc None now' sid' tr' w) = fst (wal_append enc None now sid tr new_wal)"
  by (auto simp: wal_truncate_def wal_append_def Let_def new_wal_def simp del: wal_appends.simps split: option.splits)

section \<open>Witnesses\<close>

text \<open>A small encoding: the session in brackets, for entries of one kind.\<close>

definition demo_entry :: "u64 \<Rightarrow> string \<Rightarrow> wal_entry" where
  "demo_entry n sid = \<lparr> wal_seq = n, wal_session = sid, transition = TCompleted, wal_time = 0 \<rparr>"

definition demo_wal_enc :: encoder where
  "demo_wal_enc e = CHR ''{'' # (if wal_seq e = 1 then CHR ''1'' else CHR ''2'') # wal_session e @ [CHR ''}'']"

definition demo_wal_dec :: decoder where
  "demo_wal_dec s =
     (if s = ''{1a}'' then Some (demo_entry 1 ''a'') else if s = ''{2b}'' then Some (demo_entry 2 ''b'')
      else if s = ''{2c}'' then Some (demo_entry 2 ''c'') else None)"

lemmas demo_wal = demo_entry_def demo_wal_enc_def demo_wal_dec_def encodes_def torn_text_def blank_line_def is_whitespace_def



theorem truncate_reuses_numbers_witness:
  "fst (wal_append demo_wal_enc None 0 ''c'' TCompleted \<lparr> wal_file = Some [], wal_next = 1 \<rparr>) =
   fst (wal_append demo_wal_enc None 0 ''a'' TCompleted new_wal)"
  by (rule truncate_reuses_numbers [where enc = demo_wal_enc and now = 0 and sid = "''a''" and tr = TCompleted and ops = "[]"])
    (simp add: wal_truncate_def wal_append_def new_wal_def Let_def)

end
