(* ===== verification/Workflows.thy ===== *)
theory Workflows
  imports Confium_Base
begin

text \<open>
  Multi-step ceremonies with compensation (\<open>confium-coordinator/src/saga.rs\<close>) and the merging of
  duplicate requests (\<open>request_coalescing.rs\<close>). The closures a saga is run with may have effects:
  they are functions on a world of any type, threaded through the calls in their order.
\<close>

section \<open>Sagas\<close>

record saga_step =
  step_name :: string
  step_completed :: bool
  step_failed :: bool

datatype saga_state = SagaRunning | SagaCompleted | SagaCompensating | SagaCompensated | SagaFailed

record saga =
  saga_id :: string
  saga_steps :: "saga_step list"
  saga_status :: saga_state
  current_step :: nat
  saga_results :: "(string, string) hashmap"

type_synonym ('w, 'r) action = "string \<Rightarrow> 'w \<Rightarrow> (string + 'r) \<times> 'w"

definition saga_new :: "string \<Rightarrow> string list \<Rightarrow> saga" where
  "saga_new i names =
     \<lparr> saga_id = i, saga_steps = map (\<lambda>n. \<lparr> step_name = n, step_completed = False, step_failed = False \<rparr>) names,
       saga_status = SagaRunning, current_step = 0, saga_results = [] \<rparr>"

definition mark_step :: "nat \<Rightarrow> (saga_step \<Rightarrow> saga_step) \<Rightarrow> saga \<Rightarrow> saga" where
  "mark_step i g sg = sg\<lparr> saga_steps := (saga_steps sg)[i := g (saga_steps sg ! i)] \<rparr>"

function saga_execute :: "('w, string) action \<Rightarrow> saga \<Rightarrow> 'w \<Rightarrow> (string + unit) \<times> saga \<times> 'w" where
  "saga_execute f sg w =
     (if current_step sg < length (saga_steps sg)
      then let i = current_step sg; name = step_name (saga_steps sg ! i)
           in case f name w of
                (Inr r, w') \<Rightarrow>
                  saga_execute f
                    (mark_step i (step_completed_update (\<lambda>_. True)) (sg\<lparr> saga_results := hm_insert name r (saga_results sg) \<rparr>)
                      \<lparr> current_step := i + 1 \<rparr>) w'
              | (Inl e, w') \<Rightarrow>
                  (Inl e, (mark_step i (step_failed_update (\<lambda>_. True)) sg)\<lparr> saga_status := SagaCompensating \<rparr>, w')
      else (Inr (), sg\<lparr> saga_status := SagaCompleted \<rparr>, w))"
  by pat_completeness auto

termination
  by (relation "measure (\<lambda>(f, sg, w). length (saga_steps sg) - current_step sg)") (auto simp: mark_step_def)

declare saga_execute.simps [simp del]

lemma saga_execute_done: "\<not> current_step sg < length (saga_steps sg) \<Longrightarrow> saga_execute f sg w = (Inr (), sg\<lparr> saga_status := SagaCompleted \<rparr>, w)"
  by (subst saga_execute.simps) simp

lemmas saga_execute_step = saga_execute.simps [THEN trans, OF if_P]

fun compensate_loop :: "('w, unit) action \<Rightarrow> nat list \<Rightarrow> saga \<Rightarrow> 'w \<Rightarrow> (string + unit) \<times> saga \<times> 'w" where
  "compensate_loop c [] sg w = (Inr (), sg\<lparr> saga_status := SagaCompensated \<rparr>, w)"
| "compensate_loop c (i # is) sg w =
     (case c (step_name (saga_steps sg ! i)) w of
        (Inl e, w') \<Rightarrow> (Inl e, sg\<lparr> saga_status := SagaFailed \<rparr>, w')
      | (Inr _, w') \<Rightarrow> compensate_loop c is (mark_step i (step_completed_update (\<lambda>_. False)) sg) w')"

definition saga_compensate :: "('w, unit) action \<Rightarrow> saga \<Rightarrow> 'w \<Rightarrow> (string + unit) \<times> saga \<times> 'w" where
  "saga_compensate c sg w =
     compensate_loop c (rev (filter (\<lambda>i. step_completed (saga_steps sg ! i)) [0..<length (saga_steps sg)]))
       (sg\<lparr> saga_status := SagaCompensating \<rparr>) w"

definition completed_steps :: "saga \<Rightarrow> string list" where
  "completed_steps sg = map step_name (filter step_completed (saga_steps sg))"

section \<open>Running and rolling back\<close>

text \<open>Calling an action on a list of names, all of them successful.\<close>

fun succeeds :: "('w, 'r) action \<Rightarrow> string list \<Rightarrow> 'w \<Rightarrow> 'w option" where
  "succeeds f [] w = Some w"
| "succeeds f (n # ns) w = (case f n w of (Inr _, w') \<Rightarrow> succeeds f ns w' | (Inl _, _) \<Rightarrow> None)"

lemma succeeds_append: "succeeds f (xs @ ys) w = Option.bind (succeeds f xs w) (succeeds f ys)"
  by (induction xs arbitrary: w) (auto split: prod.splits sum.splits)

definition fresh_step :: "string \<Rightarrow> saga_step" where
  "fresh_step n = \<lparr> step_name = n, step_completed = False, step_failed = False \<rparr>"

definition done_step :: "string \<Rightarrow> saga_step" where
  "done_step n = \<lparr> step_name = n, step_completed = True, step_failed = False \<rparr>"

text \<open>The state of a saga that has run its first steps.\<close>

definition progressed :: "string list \<Rightarrow> string list \<Rightarrow> saga \<Rightarrow> bool" where
  "progressed ds ns sg \<longleftrightarrow> saga_steps sg = map done_step ds @ map fresh_step ns \<and> current_step sg = length ds"

lemma progressed_new: "progressed [] names (saga_new i names)"
  by (simp add: progressed_def saga_new_def fresh_step_def)

lemma progressed_step:
  "progressed ds (n # ns) sg \<Longrightarrow>
   progressed (ds @ [n]) ns (mark_step (length ds) (step_completed_update (\<lambda>_. True)) (sg\<lparr> saga_results := rs \<rparr>)\<lparr> current_step := length ds + 1 \<rparr>)"
  by (simp add: progressed_def mark_step_def fresh_step_def done_step_def nth_append list_update_append)

text \<open>A run stops at the first step whose action fails, or runs through.\<close>

definition halted :: "string list \<Rightarrow> string list \<Rightarrow> ('w, string) action \<Rightarrow> 'w \<Rightarrow> string \<Rightarrow> saga \<Rightarrow> 'w \<Rightarrow> bool" where
  "halted ds ns f w e sg' w' \<longleftrightarrow>
     (\<exists>us n vs w1. ns = us @ n # vs \<and> succeeds f us w = Some w1 \<and> f n w1 = (Inl e, w') \<and>
        saga_status sg' = SagaCompensating \<and> current_step sg' = length ds + length us \<and>
        saga_steps sg' = map done_step (ds @ us) @ (fresh_step n)\<lparr> step_failed := True \<rparr> # map fresh_step vs)"

lemma halted_here:
  assumes "progressed ds (n # ns) sg" "f n w = (Inl e, w')"
  shows "halted ds (n # ns) f w e ((mark_step (length ds) (step_failed_update (\<lambda>_. True)) sg)\<lparr> saga_status := SagaCompensating \<rparr>) w'"
  unfolding halted_def
  by (rule exI [of _ "[]"], rule exI [of _ n], rule exI [of _ ns], rule exI [of _ w])
    (use assms in \<open>simp add: progressed_def mark_step_def nth_append list_update_append\<close>)

lemma halted_later:
  assumes "f n w = (Inr x, w1)" "halted (ds @ [n]) ns f w1 e sg' w'"
  shows "halted ds (n # ns) f w e sg' w'"
proof -
  from assms(2) obtain us m vs w2 where h: "ns = us @ m # vs" "succeeds f us w1 = Some w2" "f m w2 = (Inl e, w')"
    "saga_status sg' = SagaCompensating" "current_step sg' = length (ds @ [n]) + length us"
    "saga_steps sg' = map done_step ((ds @ [n]) @ us) @ (fresh_step m)\<lparr> step_failed := True \<rparr> # map fresh_step vs"
    unfolding halted_def by blast
  show ?thesis
    unfolding halted_def
    by (rule exI [of _ "n # us"], rule exI [of _ m], rule exI [of _ vs], rule exI [of _ w2]) (simp add: h assms(1))
qed

lemma execute_progressed:
  assumes "progressed ds ns sg"
  shows "case saga_execute f sg w of
      (Inl e, sg', w') \<Rightarrow> halted ds ns f w e sg' w'
    | (Inr _, sg', w') \<Rightarrow> succeeds f ns w = Some w' \<and> saga_status sg' = SagaCompleted \<and>
        saga_steps sg' = map done_step (ds @ ns) \<and> current_step sg' = length ds + length ns"
  using assms
proof (induction ns arbitrary: ds sg w)
  case Nil
  then show ?case by (subst saga_execute.simps) (simp add: progressed_def)
next
  case (Cons n ns)
  have cur: "current_step sg = length ds" "length ds < length (saga_steps sg)" "step_name (saga_steps sg ! length ds) = n"
    using Cons.prems by (simp_all add: progressed_def nth_append fresh_step_def)
  obtain r w' where f: "f n w = (r, w')" by (cases "f n w")
  show ?case
  proof (cases r)
    case (Inl e)
    have "saga_execute f sg w = (Inl e, (mark_step (length ds) (step_failed_update (\<lambda>_. True)) sg)\<lparr> saga_status := SagaCompensating \<rparr>, w')"
      by (subst saga_execute.simps) (simp add: cur f Inl)
    then show ?thesis using halted_here [OF Cons.prems] f Inl by simp
  next
    case (Inr x)
    let ?sg = "mark_step (length ds) (step_completed_update (\<lambda>_. True)) (sg\<lparr> saga_results := hm_insert n x (saga_results sg) \<rparr>)
      \<lparr> current_step := length ds + 1 \<rparr>"
    have run: "saga_execute f sg w = saga_execute f ?sg w'"
      by (subst saga_execute.simps) (simp add: cur f Inr Let_def)
    obtain r' sg' w2 where e: "saga_execute f ?sg w' = (r', sg', w2)" by (cases "saga_execute f ?sg w'") auto
    show ?thesis
      unfolding run e using Cons.IH [OF progressed_step [OF Cons.prems], of w' "hm_insert n x (saga_results sg)", unfolded e] f Inr
      by (cases r') (simp_all add: halted_later)
  qed
qed

text \<open>Compensation calls the action on the completed steps, the last one first.\<close>

lemma compensate_all:
  assumes "saga_steps sg = map done_step us @ rest" "succeeds c (rev us) w = Some w'"
  shows "\<exists>sg'. compensate_loop c (rev [0..<length us]) sg w = (Inr (), sg', w') \<and> saga_status sg' = SagaCompensated \<and>
    saga_steps sg' = map fresh_step us @ rest \<and> current_step sg' = current_step sg"
  using assms
proof (induction us arbitrary: sg w rest rule: rev_induct)
  case (snoc u us)
  obtain x w1 where c: "c u w = (Inr x, w1)" "succeeds c (rev us) w1 = Some w'"
    using snoc.prems(2) by (auto split: prod.splits sum.splits)
  let ?sg = "mark_step (length us) (step_completed_update (\<lambda>_. False)) sg"
  have "saga_steps ?sg = map done_step us @ fresh_step u # rest" "current_step ?sg = current_step sg"
    using snoc.prems(1) by (simp_all add: mark_step_def nth_append list_update_append done_step_def fresh_step_def)
  then obtain sg' where "compensate_loop c (rev [0..<length us]) ?sg w1 = (Inr (), sg', w') \<and> saga_status sg' = SagaCompensated \<and>
      saga_steps sg' = map fresh_step us @ fresh_step u # rest \<and> current_step sg' = current_step sg"
    using snoc.IH [OF _ c(2), of ?sg] by auto
  moreover have "step_name (saga_steps sg ! length us) = u" using snoc.prems(1) by (simp add: nth_append done_step_def)
  ultimately show ?case using c(1) by simp
qed simp

lemma completed_indices:
  assumes "saga_steps sg = map done_step us @ rest" "list_all (\<lambda>s. \<not> step_completed s) rest"
  shows "filter (\<lambda>i. step_completed (saga_steps sg ! i)) [0..<length (saga_steps sg)] = [0..<length us]"
proof -
  have "[0..<length (saga_steps sg)] = [0..<length us] @ [length us..<length us + length rest]"
    using upt_add_eq_append [of 0 "length us" "length rest"] by (simp add: assms(1))
  moreover have "filter (\<lambda>i. step_completed (saga_steps sg ! i)) [0..<length us] = [0..<length us]"
    by (rule filter_True) (simp add: assms(1) nth_append done_step_def)
  moreover have "filter (\<lambda>i. step_completed (saga_steps sg ! i)) [length us..<length us + length rest] = []"
  proof (rule filter_False, rule ballI)
    fix i assume "i \<in> set [length us..<length us + length rest]"
    then have "\<not> i < length us" "i - length us < length rest" by auto
    then show "\<not> step_completed (saga_steps sg ! i)" using assms(2) by (simp add: assms(1) nth_append list_all_length)
  qed
  ultimately show ?thesis by simp
qed

text \<open>C13: 
  A saga is all or nothing, as far as its actions let it: it completes exactly when every step
  succeeds in order, and otherwise stops at the first step that fails, and compensation then undoes
  exactly the steps before that one, in reverse order, and leaves no step completed.
\<close>

theorem saga_all_or_nothing:
  assumes "saga_execute f (saga_new i names) w = (r, sg, w1)"
  shows "(case r of
      Inr _ \<Rightarrow> succeeds f names w = Some w1 \<and> saga_status sg = SagaCompleted \<and> completed_steps sg = names
    | Inl e \<Rightarrow> \<exists>us n vs w0. names = us @ n # vs \<and> succeeds f us w = Some w0 \<and> f n w0 = (Inl e, w1) \<and> completed_steps sg = us \<and>
        (case succeeds c (rev us) w1 of
           Some w2 \<Rightarrow> \<exists>sg'. saga_compensate c sg w1 = (Inr (), sg', w2) \<and> saga_status sg' = SagaCompensated \<and> completed_steps sg' = []
         | None \<Rightarrow> True))"
proof (cases r)
  case (Inr u)
  then show ?thesis using execute_progressed [OF progressed_new [of names i], of f w] assms
    by (simp add: completed_steps_def done_step_def comp_def)
next
  case (Inl e)
  then have "halted [] names f w e sg w1" using execute_progressed [OF progressed_new [of names i], of f w] assms by simp
  then obtain us n vs w0 where h: "names = us @ n # vs" "succeeds f us w = Some w0" "f n w0 = (Inl e, w1)"
    "saga_steps sg = map done_step us @ (fresh_step n)\<lparr> step_failed := True \<rparr> # map fresh_step vs"
    unfolding halted_def by auto
  have steps: "completed_steps sg = us"
    by (simp add: completed_steps_def h(4) done_step_def fresh_step_def comp_def filter_empty_conv)
  have "\<exists>sg'. saga_compensate c sg w1 = (Inr (), sg', w2) \<and> saga_status sg' = SagaCompensated \<and> completed_steps sg' = []"
    if c: "succeeds c (rev us) w1 = Some w2" for w2
  proof -
    have "filter (\<lambda>i. step_completed (saga_steps sg ! i)) [0..<length (saga_steps sg)] = [0..<length us]"
      by (rule completed_indices [OF h(4)]) (simp add: fresh_step_def list_all_iff)
    moreover obtain sg' where "compensate_loop c (rev [0..<length us]) (sg\<lparr> saga_status := SagaCompensating \<rparr>) w1 = (Inr (), sg', w2)"
      "saga_status sg' = SagaCompensated"
      "saga_steps sg' = map fresh_step us @ (fresh_step n)\<lparr> step_failed := True \<rparr> # map fresh_step vs"
      using compensate_all [of "sg\<lparr> saga_status := SagaCompensating \<rparr>", OF _ c] h(4) by fastforce
    ultimately show ?thesis by (auto simp: saga_compensate_def completed_steps_def fresh_step_def filter_empty_conv)
  qed
  then have undone: "case succeeds c (rev us) w1 of
      Some w2 \<Rightarrow> \<exists>sg'. saga_compensate c sg w1 = (Inr (), sg', w2) \<and> saga_status sg' = SagaCompensated \<and> completed_steps sg' = []
    | None \<Rightarrow> True" by (simp split: option.split)
  show ?thesis
    unfolding Inl sum.case
    by (rule exI [of _ us], rule exI [of _ n], rule exI [of _ vs], rule exI [of _ w0]) (intro conjI h(1-3) steps undone)
qed

text \<open>
  Compensation does not move the saga back to its start: executing it again continues at the step
  that failed, and the saga reports completion although the steps before that one stay undone.
\<close>

theorem saga_resumes_past_undone_steps:
  assumes "a \<noteq> b"
  shows "let (r1, sg1, _) = saga_execute (\<lambda>n w. (if n = b then Inl e else Inr x, w)) (saga_new i [a, b]) ();
             (r2, sg2, _) = saga_compensate (\<lambda>n w. (Inr (), w)) sg1 ();
             (r3, sg3, _) = saga_execute (\<lambda>n w. (Inr x, w)) sg2 ()
         in r1 = Inl e \<and> r2 = Inr () \<and> r3 = Inr () \<and> saga_status sg3 = SagaCompleted \<and> completed_steps sg3 = [b]"
proof -
  let ?s = "\<lambda>d g n. \<lparr> step_name = n, step_completed = d, step_failed = g \<rparr>"
  let ?sg1 = "\<lparr> saga_id = i, saga_steps = [?s True False a, ?s False True b], saga_status = SagaCompensating, current_step = 1,
    saga_results = [(a, x)] \<rparr>"
  let ?sg2 = "?sg1\<lparr> saga_steps := [?s False False a, ?s False True b], saga_status := SagaCompensated \<rparr>"
  have "saga_execute (\<lambda>n w. (if n = b then Inl e else Inr x, w)) (saga_new i [a, b]) () = (Inl e, ?sg1, ())"
    using assms by (simp add: saga_new_def saga_execute_step mark_step_def Let_def)
  moreover have "saga_compensate (\<lambda>n w. (Inr (), w)) ?sg1 () = (Inr (), ?sg2, ())"
    by (simp add: saga_compensate_def mark_step_def)
  moreover have "saga_execute (\<lambda>n w. (Inr x, w)) ?sg2 () =
      (Inr (), ?sg2\<lparr> saga_steps := [?s False False a, ?s True True b], saga_status := SagaCompleted, current_step := 2,
        saga_results := hm_insert b x [(a, x)] \<rparr>, ())"
    by (simp add: saga_execute_step saga_execute_done mark_step_def Let_def)
  ultimately show ?thesis by (simp add: completed_steps_def)
qed

section \<open>Request coalescing\<close>

record 'r coalesced_request =
  waiters :: nat
  coal_result :: "'r option"

type_synonym 'r coalescer = "(string, 'r coalesced_request) hashmap"

definition coal_begin :: "string \<Rightarrow> 'r coalescer \<Rightarrow> bool \<times> 'r coalescer" where
  "coal_begin key p =
     (case hm_get p key of
        Some req \<Rightarrow> (False, hm_insert key (req\<lparr> waiters := waiters req + 1 \<rparr>) p)
      | None \<Rightarrow> (True, hm_insert key \<lparr> waiters = 1, coal_result = None \<rparr> p))"

definition coal_complete :: "string \<Rightarrow> 'r \<Rightarrow> 'r coalescer \<Rightarrow> 'r coalescer" where
  "coal_complete key r p =
     (case hm_get p key of Some req \<Rightarrow> hm_insert key (req\<lparr> coal_result := Some r \<rparr>) p | None \<Rightarrow> p)"

definition coal_collect :: "string \<Rightarrow> 'r coalescer \<Rightarrow> 'r option \<times> 'r coalescer" where
  "coal_collect key p =
     (case hm_get p key of
        None \<Rightarrow> (None, p)
      | Some req \<Rightarrow>
          (case coal_result req of
             None \<Rightarrow> (None, p)
           | Some r \<Rightarrow>
               if waiters req - 1 = 0 then (Some r, hm_remove key p)
               else (Some r, hm_insert key (req\<lparr> waiters := waiters req - 1 \<rparr>) p)))"

text \<open>The calls that callers make, in the order the lock serves them, with what they were told.\<close>

datatype 'r coal_event = Began string bool | Finished string 'r | Collected string "'r option"

inductive coal_run :: "'r coal_event list \<Rightarrow> 'r coalescer \<Rightarrow> bool" where
  coal_start: "coal_run [] []"
| coal_began: "coal_run es p \<Longrightarrow> coal_begin k p = (b, p') \<Longrightarrow> coal_run (es @ [Began k b]) p'"
| coal_finished: "coal_run es p \<Longrightarrow> coal_run (es @ [Finished k r]) (coal_complete k r p)"
| coal_collected: "coal_run es p \<Longrightarrow> coal_collect k p = (r, p') \<Longrightarrow> coal_run (es @ [Collected k r]) p'"

text \<open>Callers of a key that have not been served yet.\<close>

fun served_change :: "string \<Rightarrow> 'r coal_event \<Rightarrow> int" where
  "served_change k (Began k' _) = (if k' = k then 1 else 0)"
| "served_change k (Finished _ _) = 0"
| "served_change k (Collected k' r) = (if k' = k \<and> r \<noteq> None then - 1 else 0)"

definition outstanding :: "string \<Rightarrow> 'r coal_event list \<Rightarrow> int" where
  "outstanding k es = sum_list (map (served_change k) es)"

definition coal_waiters :: "'r coalescer \<Rightarrow> string \<Rightarrow> nat" where
  "coal_waiters p k = (case hm_get p k of Some req \<Rightarrow> waiters req | None \<Rightarrow> 0)"

lemma coal_begin_waiters:
  "coal_begin k0 p = (b, p') \<Longrightarrow> coal_waiters p' k = coal_waiters p k + (if k0 = k then 1 else 0)"
  by (cases "hm_get p k0") (auto simp: coal_begin_def coal_waiters_def)

lemma coal_complete_waiters: "coal_waiters (coal_complete k0 r p) k = coal_waiters p k"
  by (cases "hm_get p k0") (auto simp: coal_complete_def coal_waiters_def)

definition coal_inv :: "'r coalescer \<Rightarrow> bool" where
  "coal_inv p \<longleftrightarrow> (\<forall>k req. hm_get p k = Some req \<longrightarrow> 0 < waiters req)"

lemma coal_inv_ops:
  assumes "coal_inv p"
  shows "coal_inv (snd (coal_begin k p))" "coal_inv (coal_complete k r p)" "coal_inv (snd (coal_collect k p))"
proof -
  have req: "0 < waiters req" if "hm_get p k = Some req" for k req using assms that by (auto simp: coal_inv_def)
  show "coal_inv (snd (coal_begin k p))" "coal_inv (coal_complete k r p)"
    by (cases "hm_get p k"; simp add: coal_inv_def coal_begin_def coal_complete_def req)+
  show "coal_inv (snd (coal_collect k p))"
  proof (cases "hm_get p k")
    case (Some q)
    then show ?thesis by (cases "coal_result q") (simp_all add: coal_inv_def coal_collect_def req)
  qed (simp add: coal_inv_def coal_collect_def req)
qed

lemma coal_waiters_zero: "coal_inv p \<Longrightarrow> coal_waiters p k = 0 \<longleftrightarrow> hm_get p k = None"
  by (auto simp: coal_inv_def coal_waiters_def split: option.split)

lemma coal_collect_waiters:
  assumes "coal_collect k0 p = (r, p')" "coal_inv p"
  shows "coal_waiters p k = coal_waiters p' k + (if k0 = k \<and> r \<noteq> None then 1 else 0)"
proof (cases "hm_get p k0")
  case (Some req)
  then have "0 < waiters req" using assms(2) by (simp add: coal_inv_def)
  then show ?thesis using Some assms(1)
    by (cases "coal_result req") (auto simp: coal_collect_def coal_waiters_def split: if_splits)
qed (use assms in \<open>simp add: coal_collect_def\<close>)

lemma coal_run_waiters: "coal_run es p \<Longrightarrow> coal_inv p \<and> outstanding k es = int (coal_waiters p k)"
proof (induction rule: coal_run.induct)
  case coal_start
  show ?case by (simp add: outstanding_def coal_waiters_def coal_inv_def)
next
  case (coal_began es p k0 b p')
  then show ?case using coal_inv_ops(1) [of p k0] coal_begin_waiters [OF coal_began.hyps(2), of k] by (simp add: outstanding_def)
next
  case (coal_finished es p k0 r)
  then show ?case by (simp add: outstanding_def coal_inv_ops coal_complete_waiters)
next
  case (coal_collected es p k0 r p')
  then show ?case using coal_inv_ops(3) [of p k0] coal_collect_waiters [OF coal_collected.hyps(2), of k] by (simp add: outstanding_def)
qed

text \<open>
  Single flight: in every history of calls, a caller is told to do the work itself exactly when no
  earlier caller of the same key is still waiting, and once the work is completed every waiting
  caller can collect its result, the last of them removing the request.
\<close>

theorem coalescer_single_flight:
  assumes "coal_run es p"
  shows "(fst (coal_begin k p) \<longleftrightarrow> outstanding k es = 0) \<and>
    (0 < outstanding k es \<longrightarrow>
       (let (got, p') = coal_collect k (coal_complete k r p) in
          got = Some r \<and> (hm_get p' k = None \<longleftrightarrow> outstanding k es = 1)))"
proof -
  have inv: "coal_inv p" and out: "outstanding k es = int (coal_waiters p k)" using coal_run_waiters [OF assms] by auto
  show ?thesis
  proof (cases "hm_get p k")
    case None
    then show ?thesis by (simp add: out coal_begin_def coal_waiters_def)
  next
    case (Some req)
    have "0 < waiters req" using Some inv by (simp add: coal_inv_def)
    with Some show ?thesis by (auto simp: out coal_begin_def coal_waiters_def coal_complete_def coal_collect_def)
  qed
qed

section \<open>Witnesses\<close>

definition demo_run :: "nat coal_event list" where
  "demo_run = [Began ''k'' True, Began ''k'' False]"

lemma demo_coal_run: "coal_run demo_run [(''k'', \<lparr> waiters = 2, coal_result = None \<rparr>)]"
proof -
  have "coal_run [Began ''k'' True] [(''k'', \<lparr> waiters = 1, coal_result = None :: nat option \<rparr>)]"
    using coal_began [OF coal_start, of "''k''" True] by (simp add: coal_begin_def)
  from coal_began [OF this, of "''k''" False] show ?thesis by (simp add: demo_run_def coal_begin_def numeral_2_eq_2)
qed

theorem coalescer_single_flight_witness:
  "outstanding ''k'' demo_run = 2 \<and> \<not> fst (coal_begin ''k'' [(''k'', \<lparr> waiters = 2, coal_result = None :: nat option \<rparr>)])"
  using coalescer_single_flight [OF demo_coal_run, of "''k''"] by (simp add: demo_run_def outstanding_def)

theorem saga_resumes_past_undone_steps_witness:
  "let (r1, sg1, _) = saga_execute (\<lambda>n w. (if n = ''b'' then Inl ''e'' else Inr ''x'', w)) (saga_new ''i'' [''a'', ''b'']) ();
       (r2, sg2, _) = saga_compensate (\<lambda>n w. (Inr (), w)) sg1 ();
       (r3, sg3, _) = saga_execute (\<lambda>n w. (Inr ''x'', w)) sg2 ()
   in r1 = Inl ''e'' \<and> r2 = Inr () \<and> r3 = Inr () \<and> saga_status sg3 = SagaCompleted \<and> completed_steps sg3 = [''b'']"
  by (rule saga_resumes_past_undone_steps) simp

definition demo_action :: "(string list, string) action" where
  "demo_action n w = (if n = ''b'' then Inl ''no'' else Inr n, n # w)"

theorem saga_all_or_nothing_witness:
  "\<exists>r sg w1. saga_execute demo_action (saga_new ''i'' [''a'', ''b'']) [] = (r, sg, w1) \<and>
     (case r of
        Inr _ \<Rightarrow> succeeds demo_action [''a'', ''b''] [] = Some w1 \<and> saga_status sg = SagaCompleted \<and> completed_steps sg = [''a'', ''b'']
      | Inl e \<Rightarrow> \<exists>us n vs w0. [''a'', ''b''] = us @ n # vs \<and> succeeds demo_action us [] = Some w0 \<and> demo_action n w0 = (Inl e, w1) \<and>
          completed_steps sg = us \<and>
          (case succeeds (\<lambda>n w. (Inr (), w)) (rev us) w1 of
             Some w2 \<Rightarrow> \<exists>sg'. saga_compensate (\<lambda>n w. (Inr (), w)) sg w1 = (Inr (), sg', w2) \<and>
               saga_status sg' = SagaCompensated \<and> completed_steps sg' = []
           | None \<Rightarrow> True))"
proof -
  obtain r sg w1 where e: "saga_execute demo_action (saga_new ''i'' [''a'', ''b'']) [] = (r, sg, w1)"
    by (cases "saga_execute demo_action (saga_new ''i'' [''a'', ''b'']) []") auto
  show ?thesis
    by (rule exI [of _ r], rule exI [of _ sg], rule exI [of _ w1]) (rule conjI [OF e saga_all_or_nothing [OF e]])
qed

end
