(* ===== verification/Threshold_Core.thy ===== *)
theory Threshold_Core
  imports Text_Encoding
begin

text \<open>
  The core of the threshold framework (crate \<open>confium-tc-core\<close>): rosters (\<open>party.rs\<close>), messages
  (\<open>message.rs\<close>), the framing of shares (\<open>share.rs\<close>), sessions over registered schemes
  (\<open>session.rs\<close>, \<open>registry.rs\<close>), the share envelope (\<open>share_envelope.rs\<close>), commitments
  (\<open>commitment.rs\<close>) and the reduction of a nonce (\<open>nonce.rs\<close>). A scheme is a record of its
  functions on a state of any type; HMAC, SHA-256 and the scalar decoding of the curve crate are
  parameters.
\<close>

section \<open>Errors, parties and messages\<close>

datatype tc_scheme_kind = SignatureKind | KemKind | DkgKind

datatype tc_error =
    NullPointer string
  | InvalidUTF8
  | NulByte
  | PartyIndexOutOfRange nat nat
  | EmptyPartyList
  | ThresholdTooSmall u32
  | ThresholdTooLarge u32 nat
  | DuplicatePartyId string
  | ThisPartyIdxOutOfRange nat nat
  | SchemeNotFound string
  | SessionNotComplete
  | SessionAlreadyComplete
  | RoundOverflow u8
  | NotADkgSession tc_scheme_kind
  | ShareSchemeMismatch string string
  | ShareTruncated nat nat
  | ShareInvalidScheme
  | InsufficientBuffer
  | SchemeInternalError u32

fun error_code :: "tc_error \<Rightarrow> u32" where
  "error_code (NullPointer _) = 0x1001"
| "error_code InvalidUTF8 = 0x1002"
| "error_code NulByte = 0x1003"
| "error_code (PartyIndexOutOfRange _ _) = 0x1010"
| "error_code EmptyPartyList = 0x1011"
| "error_code (ThresholdTooSmall _) = 0x1012"
| "error_code (ThresholdTooLarge _ _) = 0x1013"
| "error_code (DuplicatePartyId _) = 0x1014"
| "error_code (ThisPartyIdxOutOfRange _ _) = 0x1015"
| "error_code (SchemeNotFound _) = 0x1020"
| "error_code SessionNotComplete = 0x1021"
| "error_code SessionAlreadyComplete = 0x1022"
| "error_code (RoundOverflow _) = 0x1023"
| "error_code (NotADkgSession _) = 0x1024"
| "error_code (ShareSchemeMismatch _ _) = 0x1030"
| "error_code (ShareTruncated _ _) = 0x1031"
| "error_code ShareInvalidScheme = 0x1032"
| "error_code InsufficientBuffer = 0x1040"
| "error_code (SchemeInternalError _) = 0x1041"

record tc_party =
  party_id :: string
  transport_endpoint :: "string option"

definition party_push :: "tc_party \<Rightarrow> tc_party list \<Rightarrow> tc_party list" where
  "party_push p ps = ps @ [p]"

definition party_get :: "tc_party list \<Rightarrow> nat \<Rightarrow> tc_error + tc_party" where
  "party_get ps i = (if i < length ps then Inr (ps ! i) else Inl (PartyIndexOutOfRange i (length ps)))"

definition party_find :: "tc_party list \<Rightarrow> string \<Rightarrow> tc_party option" where
  "party_find ps i = List.find (\<lambda>p. party_id p = i) ps"

fun duplicate_party :: "tc_party list \<Rightarrow> tc_error + unit" where
  "duplicate_party [] = Inr ()"
| "duplicate_party (p # ps) =
     (if list_ex (\<lambda>q. party_id p = party_id q) ps then Inl (DuplicatePartyId (party_id p)) else duplicate_party ps)"

definition parties_validate :: "tc_party list \<Rightarrow> u32 \<Rightarrow> tc_error + unit" where
  "parties_validate ps t =
     try_bind (ensure (ps \<noteq> []) EmptyPartyList) (\<lambda>_.
     try_bind (ensure (1 \<le> t) (ThresholdTooSmall t)) (\<lambda>_.
     try_bind (ensure (unat t \<le> length ps) (ThresholdTooLarge t (length ps))) (\<lambda>_.
     duplicate_party ps)))"

record tc_message =
  from_party_id :: string
  to_party_id :: "string option"
  msg_round :: u8
  msg_payload :: bytes

definition is_for :: "tc_message \<Rightarrow> string \<Rightarrow> bool" where
  "is_for m i = (case to_party_id m of None \<Rightarrow> True | Some t \<Rightarrow> t = i)"

section \<open>Shares and their framing\<close>

record tc_share =
  share_scheme :: string
  share_bytes :: bytes

definition assert_scheme :: "tc_share \<Rightarrow> string \<Rightarrow> tc_error + unit" where
  "assert_scheme s expected = ensure (share_scheme s = expected) (ShareSchemeMismatch expected (share_scheme s))"

definition share_to_bytes :: "tc_share \<Rightarrow> bytes" where
  "share_to_bytes s =
     u32_to_be_bytes (of_nat (length (string_bytes (share_scheme s)))) @ string_bytes (share_scheme s) @ share_bytes s"

definition bytes_string :: "bytes \<Rightarrow> string" where
  "bytes_string = map (\<lambda>b. char_of (unat b))"

definition share_from_bytes :: "bytes \<Rightarrow> tc_error + tc_share" where
  "share_from_bytes d =
     (if length d < 4 then Inl (ShareTruncated 4 (length d))
      else let scheme_end = 4 + be_nat (take 4 d)
           in if length d < scheme_end then Inl (ShareTruncated scheme_end (length d))
              else if \<not> utf8_valid (map unat (take (scheme_end - 4) (drop 4 d))) then Inl ShareInvalidScheme
              else Inr \<lparr> share_scheme = bytes_string (take (scheme_end - 4) (drop 4 d)), share_bytes = drop scheme_end d \<rparr>)"

section \<open>Sessions\<close>

record session_params =
  param_scheme :: string
  param_parties :: "tc_party list"
  param_threshold :: u32
  param_idx :: nat
  local_share :: "tc_share option"
  param_message :: "bytes option"

record round_result =
  outgoing :: "tc_message list"
  round_complete :: bool

record 'i tc_scheme =
  scheme_name :: string
  scheme_kind :: tc_scheme_kind
  create_impl :: "session_params \<Rightarrow> tc_error + 'i"
  impl_round :: "tc_message list \<Rightarrow> 'i \<Rightarrow> (tc_error + round_result) \<times> 'i"
  impl_result :: "'i \<Rightarrow> tc_error + bytes"
  impl_destroy :: "'i \<Rightarrow> 'i"

record 'i tc_session =
  session_scheme :: "'i tc_scheme"
  session_threshold :: u32
  this_party_idx :: nat
  party_count :: nat
  session_round :: u8
  session_complete :: bool
  session_impl :: 'i

definition registry_find :: "'i tc_scheme list \<Rightarrow> string \<Rightarrow> 'i tc_scheme option" where
  "registry_find reg n = List.find (\<lambda>s. scheme_name s = n) reg"

definition tc_session_create :: "'i tc_scheme list \<Rightarrow> session_params \<Rightarrow> tc_error + 'i tc_session" where
  "tc_session_create reg p =
     try_bind (parties_validate (param_parties p) (param_threshold p)) (\<lambda>_.
     try_bind (ensure (param_idx p < length (param_parties p)) (ThisPartyIdxOutOfRange (param_idx p) (length (param_parties p)))) (\<lambda>_.
     try_bind (case local_share p of Some s \<Rightarrow> assert_scheme s (param_scheme p) | None \<Rightarrow> Inr ()) (\<lambda>_.
     case registry_find reg (param_scheme p) of
       None \<Rightarrow> Inl (SchemeNotFound (param_scheme p))
     | Some sch \<Rightarrow> try_bind (create_impl sch p) (\<lambda>i.
         Inr \<lparr> session_scheme = sch, session_threshold = param_threshold p, this_party_idx = param_idx p,
               party_count = length (param_parties p), session_round = 0, session_complete = False, session_impl = i \<rparr>))))"

definition round_step :: "tc_message list \<Rightarrow> 'i tc_session \<Rightarrow> (tc_error + round_result) \<times> 'i tc_session" where
  "round_step incoming s =
     (if session_complete s then (Inl SessionAlreadyComplete, s)
      else if session_round s = 255 then (Inl (RoundOverflow 255), s)
      else let (r, i) = impl_round (session_scheme s) incoming (session_impl s);
               s' = s\<lparr> session_round := session_round s + 1, session_impl := i \<rparr>
           in case r of
                Inl e \<Rightarrow> (Inl e, s')
              | Inr res \<Rightarrow> (Inr res, if round_complete res then s'\<lparr> session_complete := True \<rparr> else s'))"

definition session_result :: "'i tc_session \<Rightarrow> tc_error + bytes" where
  "session_result s = try_bind (ensure (session_complete s) SessionNotComplete) (\<lambda>_. impl_result (session_scheme s) (session_impl s))"

definition dkg_public_key :: "'i tc_session \<Rightarrow> tc_error + bytes" where
  "dkg_public_key s =
     try_bind (ensure (session_complete s) SessionNotComplete) (\<lambda>_.
     try_bind (ensure (scheme_kind (session_scheme s) = DkgKind) (NotADkgSession (scheme_kind (session_scheme s)))) (\<lambda>_.
     impl_result (session_scheme s) (session_impl s)))"

definition session_destroy :: "'i tc_session \<Rightarrow> 'i tc_session" where
  "session_destroy s = s\<lparr> session_impl := impl_destroy (session_scheme s) (session_impl s) \<rparr>"

section \<open>Share envelopes\<close>

record share_envelope =
  env_version :: u8
  env_scheme :: string
  env_quorum_id :: string
  env_party_idx :: u32
  env_threshold :: u32
  env_party_count :: u32
  share_data :: bytes
  integrity_tag :: bytes

datatype envelope_error = UnsupportedVersion u8 | IntegrityFailed

definition envelope_version :: u8 where
  "envelope_version = 1"

definition tag_input :: "share_envelope \<Rightarrow> bytes" where
  "tag_input e = [env_version e] @ string_bytes (env_scheme e) @ string_bytes (env_quorum_id e) @ u32_to_be_bytes (env_party_idx e)
     @ u32_to_be_bytes (env_threshold e) @ u32_to_be_bytes (env_party_count e) @ share_data e"

definition compute_tag :: "(bytes \<Rightarrow> bytes \<Rightarrow> bytes) \<Rightarrow> bytes \<Rightarrow> share_envelope \<Rightarrow> bytes" where
  "compute_tag mac key e = mac key (tag_input e)"

definition envelope_wrap ::
  "(bytes \<Rightarrow> bytes \<Rightarrow> bytes) \<Rightarrow> string \<Rightarrow> string \<Rightarrow> u32 \<Rightarrow> u32 \<Rightarrow> u32 \<Rightarrow> bytes \<Rightarrow> bytes \<Rightarrow> share_envelope" where
  "envelope_wrap mac sch q i t n d key =
     (let e = \<lparr> env_version = envelope_version, env_scheme = sch, env_quorum_id = q, env_party_idx = i, env_threshold = t,
                env_party_count = n, share_data = d, integrity_tag = replicate 32 0 \<rparr>
      in e\<lparr> integrity_tag := compute_tag mac key e \<rparr>)"

definition envelope_verify :: "(bytes \<Rightarrow> bytes \<Rightarrow> bytes) \<Rightarrow> bytes \<Rightarrow> share_envelope \<Rightarrow> envelope_error + unit" where
  "envelope_verify mac key e =
     (if env_version e \<noteq> envelope_version then Inl (UnsupportedVersion (env_version e))
      else if integrity_tag e = compute_tag mac key e then Inr () else Inl IntegrityFailed)"

definition envelope_unwrap :: "(bytes \<Rightarrow> bytes \<Rightarrow> bytes) \<Rightarrow> bytes \<Rightarrow> share_envelope \<Rightarrow> envelope_error + bytes" where
  "envelope_unwrap mac key e = try_bind (envelope_verify mac key e) (\<lambda>_. Inr (share_data e))"

section \<open>Commitments and nonces\<close>

record decommitment =
  randomness :: bytes
  committed_value :: bytes

definition commitment_hash :: "(bytes \<Rightarrow> bytes) \<Rightarrow> bytes \<Rightarrow> bytes \<Rightarrow> bytes" where
  "commitment_hash sha r v = sha (r @ v)"

definition commitment_create :: "(bytes \<Rightarrow> bytes) \<Rightarrow> bytes \<Rightarrow> bytes \<Rightarrow> bytes \<times> decommitment" where
  "commitment_create sha v r = (commitment_hash sha r v, \<lparr> randomness = r, committed_value = v \<rparr>)"

definition commitment_verify :: "(bytes \<Rightarrow> bytes) \<Rightarrow> bytes \<Rightarrow> decommitment \<Rightarrow> bool" where
  "commitment_verify sha c d \<longleftrightarrow> c = commitment_hash sha (randomness d) (committed_value d)"

text \<open>\<open>Scalar::from_repr\<close> is a parameter: it decodes 32 bytes to a scalar, or fails.\<close>

definition reduce_mod_order :: "(bytes \<Rightarrow> 'a option) \<Rightarrow> 'a \<Rightarrow> bytes \<Rightarrow> 'a" where
  "reduce_mod_order from_repr one bs =
     (case from_repr bs of
        Some a \<Rightarrow> a
      | None \<Rightarrow> (case from_repr (bs[0 := bs ! 0 - 1]) of Some a \<Rightarrow> a | None \<Rightarrow> one))"

definition derive_nonce_share :: "(bytes \<Rightarrow> bytes \<Rightarrow> bytes) \<Rightarrow> (bytes \<Rightarrow> 'a option) \<Rightarrow> ('a \<Rightarrow> bytes) \<Rightarrow> 'a \<Rightarrow> 'a \<Rightarrow> bytes \<Rightarrow> u32 \<Rightarrow> 'a" where
  "derive_nonce_share mac from_repr to_repr one secret msg i =
     reduce_mod_order from_repr one (mac (to_repr secret) (msg @ u32_to_be_bytes i))"

definition sum_nonce_shares :: "'a::monoid_add list \<Rightarrow> 'a" where
  "sum_nonce_shares ss = foldl (+) 0 ss"

definition derive_full_nonce ::
  "(bytes \<Rightarrow> bytes \<Rightarrow> bytes) \<Rightarrow> (bytes \<Rightarrow> 'a option) \<Rightarrow> ('a \<Rightarrow> bytes) \<Rightarrow> 'a \<Rightarrow> 'a::monoid_add list \<Rightarrow> bytes \<Rightarrow> u32 list \<Rightarrow> 'a option" where
  "derive_full_nonce mac from_repr to_repr one ss msg is =
     (if length ss \<noteq> length is then None
      else Some (sum_nonce_shares (map (\<lambda>(s, i). derive_nonce_share mac from_repr to_repr one s msg i) (zip ss is))))"

section \<open>Rosters and sessions\<close>

lemma duplicate_party_iff: "duplicate_party ps = Inr () \<longleftrightarrow> distinct (map party_id ps)"
  by (induction ps) (auto simp: list_ex_iff)

lemma parties_validate_iff:
  "parties_validate ps t = Inr () \<longleftrightarrow> 1 \<le> t \<and> unat t \<le> length ps \<and> distinct (map party_id ps)"
proof -
  have "0 < unat t" if "1 \<le> t" using that by (simp add: word_le_nat_alt)
  then show ?thesis by (auto simp: parties_validate_def try_bind_Inr_iff duplicate_party_iff)
qed

text \<open>What a session may rely on: the roster, the threshold, its own position and its share fit together.\<close>

definition session_wf :: "session_params \<Rightarrow> 'i tc_session \<Rightarrow> bool" where
  "session_wf p s \<longleftrightarrow>
     party_count s = length (param_parties p) \<and> distinct (map party_id (param_parties p)) \<and>
     this_party_idx s < party_count s \<and> 1 \<le> session_threshold s \<and> unat (session_threshold s) \<le> party_count s \<and>
     scheme_name (session_scheme s) = param_scheme p \<and>
     (case local_share p of Some sh \<Rightarrow> share_scheme sh = scheme_name (session_scheme s) | None \<Rightarrow> True)"

inductive session_reach :: "'i tc_scheme list \<Rightarrow> session_params \<Rightarrow> 'i tc_session \<Rightarrow> bool" for reg p where
  session_created: "tc_session_create reg p = Inr s \<Longrightarrow> session_reach reg p s"
| session_stepped: "session_reach reg p s \<Longrightarrow> round_step ms s = (r, s') \<Longrightarrow> session_reach reg p s'"

lemma registry_find_name: "registry_find reg n = Some sch \<Longrightarrow> scheme_name sch = n"
  by (auto simp: registry_find_def find_Some_iff)

lemma create_wf:
  assumes "tc_session_create reg p = Inr s"
  shows "session_wf p s"
proof -
  have "parties_validate (param_parties p) (param_threshold p) = Inr ()" "param_idx p < length (param_parties p)"
    "case local_share p of Some sh \<Rightarrow> share_scheme sh = param_scheme p | None \<Rightarrow> True"
    using assms by (auto simp: tc_session_create_def try_bind_Inr_iff assert_scheme_def split: option.splits)
  moreover obtain sch i where "registry_find reg (param_scheme p) = Some sch"
    "s = \<lparr> session_scheme = sch, session_threshold = param_threshold p, this_party_idx = param_idx p,
           party_count = length (param_parties p), session_round = 0, session_complete = False, session_impl = i \<rparr>"
    using assms by (auto simp: tc_session_create_def try_bind_Inr_iff split: option.splits)
  ultimately show ?thesis using registry_find_name [of reg "param_scheme p" sch]
    by (simp add: session_wf_def parties_validate_iff split: option.splits)
qed

lemma round_step_frame:
  assumes "round_step ms s = (r, s')"
  shows "session_scheme s' = session_scheme s \<and> session_threshold s' = session_threshold s \<and> this_party_idx s' = this_party_idx s \<and>
    party_count s' = party_count s"
  using assms by (auto simp: round_step_def Let_def split: if_splits prod.splits sum.splits)

text \<open>C24: 
  Sessions are well formed: whatever scheme is registered and whatever rounds are run, a session
  that \<open>create\<close> returned has a roster without duplicates, a threshold between one and the number of
  parties, a position inside the roster, and the scheme of its parameters and of its share.
\<close>

theorem session_well_formed: "session_reach reg p s \<Longrightarrow> session_wf p s"
proof (induction rule: session_reach.induct)
  case (session_created s)
  then show ?case by (rule create_wf)
next
  case (session_stepped s ms r s')
  then show ?case using round_step_frame [OF session_stepped.hyps(2)] by (simp add: session_wf_def split: option.splits)
qed

fun drive :: "tc_message list list \<Rightarrow> 'i tc_session \<Rightarrow> tc_error + 'i tc_session" where
  "drive [] s = Inr s"
| "drive (ms # mss) s = (case round_step ms s of (Inl e, _) \<Rightarrow> Inl e | (Inr _, s') \<Rightarrow> drive mss s')"

lemma round_step_ok:
  assumes "round_step ms s = (Inr res, s')"
  shows "\<not> session_complete s \<and> unat (session_round s') = Suc (unat (session_round s)) \<and> session_complete s' = round_complete res"
proof -
  have ok: "\<not> session_complete s" "session_round s \<noteq> 255" "session_round s' = session_round s + 1" "session_complete s' = round_complete res"
    using assms by (auto simp: round_step_def Let_def split: if_splits prod.splits sum.splits)
  have "unat (session_round s) < 256" using unsigned_less [of "session_round s"] by simp
  moreover have "unat (session_round s) \<noteq> 255" using ok(2) by (simp add: word_unat_eq_iff)
  ultimately have "unat (session_round s + 1) = Suc (unat (session_round s))" by (simp add: unat_word_ariths)
  then show ?thesis using ok by simp
qed

lemma drive_rounds:
  "drive mss s = Inr s' \<Longrightarrow> unat (session_round s') = unat (session_round s) + length mss"
proof (induction mss arbitrary: s)
  case (Cons ms mss)
  obtain r s1 where r: "round_step ms s = (r, s1)" by (cases "round_step ms s")
  with Cons.prems obtain res where "r = Inr res" by (cases r) auto
  with Cons r show ?case using round_step_ok [of ms s res s1] by simp
qed simp

text \<open>
  No session runs for ever: a scheme that does not complete is stopped by the round counter, so
  among any 256 rounds one returns an error.
\<close>

theorem rounds_bounded: "255 < length mss \<Longrightarrow> \<exists>e. drive mss s = Inl e"
proof (cases "drive mss s")
  case (Inr s')
  assume "255 < length mss"
  moreover have "unat (session_round s') < 256" using unsigned_less [of "session_round s'"] by simp
  ultimately show ?thesis using drive_rounds [OF Inr] by simp
qed simp

section \<open>Framing\<close>

lemma le_bytes_le_nat: "le_bytes (length bs) (le_nat bs) = bs"
proof (induction bs)
  case (Cons b bs)
  have "unat b < 256" using unsigned_less [of b] by simp
  then have "(unat b + 256 * le_nat bs) mod 256 = unat b" "(unat b + 256 * le_nat bs) div 256 = le_nat bs" by simp_all
  with Cons show ?case by simp
qed simp

lemma be_bytes_be_nat: "length bs = n \<Longrightarrow> be_bytes n (be_nat bs) = bs"
  using le_bytes_le_nat [of "rev bs"] by (auto simp: be_bytes_def be_nat_def)

lemma le_nat_less: "le_nat bs < 256 ^ length bs"
proof (induction bs)
  case (Cons b bs)
  have "unat b < 256" using unsigned_less [of b] by simp
  with Cons show ?case by simp
qed simp

lemma be_nat_less: "be_nat bs < 256 ^ length bs"
  using le_nat_less [of "rev bs"] by (simp add: be_nat_def)

lemma be_nat_u32: "be_nat (u32_to_be_bytes w) = unat w"
  using unat_u32_less [of w] by (simp add: u32_to_be_bytes_def be_nat_be_bytes)

lemma u32_be_nat: "length bs = 4 \<Longrightarrow> u32_to_be_bytes (of_nat (be_nat bs)) = bs"
  using be_nat_less [of bs] be_bytes_be_nat [of bs 4] by (simp add: u32_to_be_bytes_def unat_of_nat)

lemma bytes_string_bytes [simp]: "bytes_string (string_bytes s) = s" "string_bytes (bytes_string b) = b"
proof -
  show "bytes_string (string_bytes s) = s"
    by (induction s) (simp_all add: bytes_string_def string_bytes_def unat_of_char del: unat_of_nat)
  have "of_nat (of_char (char_of (unat x) :: char)) = (x :: u8)" for x
  proof -
    have "unat x < 256" using unsigned_less [of x] by simp
    then show ?thesis by simp
  qed
  then show "string_bytes (bytes_string b) = b"
    by (induction b) (simp_all add: bytes_string_def string_bytes_def)
qed

lemma unat_string_bytes [simp]: "map unat (string_bytes s) = map of_char s"
  by (induction s) (simp_all add: string_bytes_def unat_of_char)

lemma length_string_bytes [simp]: "length (string_bytes s) = length s"
  by (simp add: string_bytes_def)

text \<open>C11: 
  The framing of shares is exact: the decoder accepts precisely the encodings of shares whose
  scheme name is UTF-8 and shorter than \<open>2 ^ 32\<close> bytes, and returns the share that was encoded.
\<close>

theorem share_framing_exact:
  "share_from_bytes d = Inr s \<longleftrightarrow>
     d = share_to_bytes s \<and> utf8_valid (map of_char (share_scheme s)) \<and> length (share_scheme s) < 2 ^ 32"
proof
  assume dec: "share_from_bytes d = Inr s"
  let ?n = "be_nat (take 4 d)"
  have d: "4 \<le> length d" "4 + ?n \<le> length d" "utf8_valid (map unat (take ?n (drop 4 d)))"
    "share_scheme s = bytes_string (take ?n (drop 4 d))" "share_bytes s = drop (4 + ?n) d"
    using dec by (auto simp: share_from_bytes_def Let_def split: if_splits)
  have len: "length (share_scheme s) = ?n" using d(2,4) by (simp add: bytes_string_def)
  have "share_to_bytes s = take 4 d @ take ?n (drop 4 d) @ drop (4 + ?n) d"
    using d(1) u32_be_nat [of "take 4 d"] by (simp add: share_to_bytes_def len) (simp add: d(4,5))
  also have "\<dots> = d" by (metis append_take_drop_id drop_drop add.commute)
  finally have "d = share_to_bytes s" ..
  moreover have "utf8_valid (map of_char (share_scheme s))"
    using d(3) unat_string_bytes [of "share_scheme s"] by (simp add: d(4))
  moreover have "?n < 2 ^ 32" using be_nat_less [of "take 4 d"] d(1) by simp
  ultimately show "d = share_to_bytes s \<and> utf8_valid (map of_char (share_scheme s)) \<and> length (share_scheme s) < 2 ^ 32"
    using len by simp
next
  assume s: "d = share_to_bytes s \<and> utf8_valid (map of_char (share_scheme s)) \<and> length (share_scheme s) < 2 ^ 32"
  let ?h = "u32_to_be_bytes (of_nat (length (share_scheme s)))"
  have v: "utf8_valid (map of_char (share_scheme s))" and l: "length (share_scheme s) < 2 ^ 32" using s by auto
  have d: "d = ?h @ string_bytes (share_scheme s) @ share_bytes s" using s by (simp add: share_to_bytes_def)
  have "length ?h = 4" "be_nat ?h = length (share_scheme s)" using l by (simp_all add: be_nat_u32 unat_of_nat)
  then show "share_from_bytes d = Inr s" using v by (simp add: d share_from_bytes_def Let_def)
qed

section \<open>Envelopes, commitments and nonces\<close>

lemma envelope_roundtrip: "envelope_unwrap mac key (envelope_wrap mac sch q i t n d key) = Inr d"
  by (simp add: envelope_unwrap_def envelope_verify_def envelope_wrap_def compute_tag_def tag_input_def envelope_version_def Let_def)

text \<open>C29: 
  The integrity tag covers the scheme and the quorum identifier without a mark between them: part
  of the scheme name can be moved to the front of the quorum identifier, and the altered envelope
  still verifies under the same tag.
\<close>

theorem envelope_boundary_not_bound:
  "envelope_unwrap mac key
     ((envelope_wrap mac (sch @ u) q i t n d key)\<lparr> env_scheme := sch, env_quorum_id := u @ q \<rparr>) = Inr d"
  by (simp add: envelope_unwrap_def envelope_verify_def envelope_wrap_def compute_tag_def tag_input_def envelope_version_def Let_def
      string_bytes_def)

lemma commitment_binding:
  assumes "commitment_verify sha c d" "commitment_verify sha c d'" "length (randomness d) = 32" "length (randomness d') = 32"
  shows "d = d' \<or> (\<exists>x y. x \<noteq> y \<and> sha x = sha y)"
proof -
  have "sha (randomness d @ committed_value d) = sha (randomness d' @ committed_value d')"
    using assms(1,2) by (simp add: commitment_verify_def commitment_hash_def)
  moreover have "d = d'" if "randomness d @ committed_value d = randomness d' @ committed_value d'"
    using that assms(3,4) by simp
  ultimately show ?thesis by blast
qed

lemma be_nat_Cons: "be_nat (b # bs) = unat b * 256 ^ length bs + be_nat bs"
proof -
  have "le_nat (xs @ [b]) = le_nat xs + 256 ^ length xs * unat b" for xs by (induction xs) (simp_all add: algebra_simps)
  then show ?thesis by (simp add: be_nat_def)
qed

text \<open>
  The reduction of a nonce, for a scalar decoding that accepts exactly the values below the group
  order and an order within \<open>2 ^ 248\<close> of \<open>2 ^ 256\<close>, as that of P-256: the value itself when it is
  below the order and otherwise the value less \<open>2 ^ 248\<close>. The fallback to one is never taken, and a
  value of zero is returned as it is.
\<close>

theorem reduce_mod_order_value:
  assumes "\<And>bs. length bs = 32 \<Longrightarrow> from_repr bs = (if be_nat bs < order then Some (emb (be_nat bs)) else None)"
    and "2 ^ 256 - 2 ^ 248 \<le> order" "length bs = 32"
  shows "reduce_mod_order from_repr one bs = emb (if be_nat bs < order then be_nat bs else be_nat bs - 2 ^ 248)"
proof -
  obtain b r where bs: "bs = b # r" "length r = 31" using assms(3) by (cases bs) auto
  have r: "be_nat r < 2 ^ 248" using be_nat_less [of r] by (simp add: bs(2))
  have v: "be_nat bs = unat b * 2 ^ 248 + be_nat r" by (simp add: bs be_nat_Cons)
  show ?thesis
  proof (cases "be_nat bs < order")
    case False
    have "unat b \<noteq> 0"
    proof
      assume "unat b = 0"
      then show False using False v r assms(2) by simp
    qed
    then have b: "unat (b - 1) = unat b - 1" by (simp add: unat_minus_one unat_eq_zero)
    have "unat b * 2 ^ 248 = 2 ^ 248 + (unat b - 1) * 2 ^ 248" using \<open>unat b \<noteq> 0\<close> by (cases "unat b") simp_all
    then have adj: "be_nat ((b - 1) # r) = be_nat bs - 2 ^ 248" by (simp add: be_nat_Cons bs b v)
    have "unat b < 256" using unsigned_less [of b] by simp
    then have "(unat b - 1) * 2 ^ 248 \<le> 254 * 2 ^ 248" by (intro mult_right_mono) simp_all
    then have "be_nat ((b - 1) # r) < order" using r assms(2) by (simp add: be_nat_Cons bs(2) b)
    then have "from_repr ((b - 1) # r) = Some (emb (be_nat bs - 2 ^ 248))" using assms(1) [of "(b - 1) # r"] bs adj by simp
    then show ?thesis using False assms(1) [OF assms(3)] by (simp add: reduce_mod_order_def bs(1))
  qed (simp add: reduce_mod_order_def assms(1,3))
qed

section \<open>Witnesses\<close>

lemma be_nat_zero: "be_nat (replicate n 0) = 0"
proof -
  have "le_nat (replicate n 0) = 0" by (induction n) simp_all
  then show ?thesis by (simp add: be_nat_def)
qed

definition demo_tc_scheme :: "nat tc_scheme" where
  "demo_tc_scheme = \<lparr> scheme_name = ''demo'', scheme_kind = SignatureKind, create_impl = (\<lambda>_. Inr 0),
     impl_round = (\<lambda>_ n. (Inr \<lparr> outgoing = [], round_complete = False \<rparr>, Suc n)), impl_result = (\<lambda>_. Inr []), impl_destroy = (\<lambda>_. 0) \<rparr>"

definition demo_tc_params :: session_params where
  "demo_tc_params = \<lparr> param_scheme = ''demo'', param_parties = [\<lparr> party_id = ''a'', transport_endpoint = None \<rparr>],
     param_threshold = 1, param_idx = 0, local_share = None, param_message = None \<rparr>"

definition demo_tc_session :: "nat tc_session" where
  "demo_tc_session = \<lparr> session_scheme = demo_tc_scheme, session_threshold = 1, this_party_idx = 0, party_count = 1, session_round = 0,
     session_complete = False, session_impl = 0 \<rparr>"

lemma demo_tc_session_created: "tc_session_create [demo_tc_scheme] demo_tc_params = Inr demo_tc_session"
  by (simp add: tc_session_create_def demo_tc_params_def parties_validate_def registry_find_def demo_tc_session_def) (simp add: demo_tc_scheme_def)

theorem session_well_formed_witness: "session_wf demo_tc_params demo_tc_session"
  by (rule session_well_formed [OF session_created [OF demo_tc_session_created]])

theorem rounds_bounded_witness: "\<exists>e. drive (replicate 256 []) demo_tc_session = Inl e"
  by (rule rounds_bounded) simp

theorem reduce_mod_order_value_witness:
  "reduce_mod_order (\<lambda>bs. if be_nat bs < 2 ^ 256 - 2 ^ 248 then Some (be_nat bs) else None) 1 (replicate 32 0) = 0"
  using reduce_mod_order_value [of "\<lambda>bs. if be_nat bs < 2 ^ 256 - 2 ^ 248 then Some (be_nat bs) else None" "2 ^ 256 - 2 ^ 248" id
      "replicate 32 0" 1]
  by (simp add: be_nat_zero)

end
