(* ===== verification/Attributes.thy ===== *)
theory Attributes
  imports Text_Encoding "HOL-Library.Multiset"
begin

text \<open>
  Attribute predicates over signers (crate \<open>confium-attributes\<close>): the predicate type
  (\<open>ast.rs\<close>), its evaluation (\<open>evaluate.rs\<close>) and the parser of the selection language
  (\<open>dsl.rs\<close>). Source text is a list of Unicode scalar values. Whether a scalar outside ASCII is
  alphanumeric is a table of the standard library and an argument (\<open>uni\<close>) of the parser; white
  space is written out.

  The loop over the operands of \<open>and\<close> and \<open>or\<close> has fuel, one more than the length of the text
  before it, and \<open>None\<close> stands for fuel running out. That never happens.
\<close>

section \<open>Predicates and their evaluation\<close>

type_synonym dsl_text = "nat list"

datatype predicate =
    MinCount dsl_text nat
  | MinDistinct dsl_text nat
  | PNone dsl_text
  | PAny dsl_text
  | PAll dsl_text
  | PAnd "predicate list"
  | POr "predicate list"
  | PNot predicate

type_synonym signer_attributes = "(dsl_text, dsl_text list) hashmap"

definition attributes_new :: signer_attributes where
  "attributes_new = []"

definition attributes_add :: "dsl_text \<Rightarrow> dsl_text \<Rightarrow> signer_attributes \<Rightarrow> signer_attributes" where
  "attributes_add k v a = (let vs = (case hm_get a k of Some vs \<Rightarrow> vs | None \<Rightarrow> [])
     in hm_insert k (if v \<in> set vs then vs else vs @ [v]) a)"

definition attributes_values :: "signer_attributes \<Rightarrow> dsl_text \<Rightarrow> dsl_text list" where
  "attributes_values a k = (case hm_get a k of Some vs \<Rightarrow> vs | None \<Rightarrow> [])"

definition has :: "signer_attributes \<Rightarrow> dsl_text \<Rightarrow> bool" where
  "has a k \<longleftrightarrow> (case hm_get a k of Some vs \<Rightarrow> vs \<noteq> [] | None \<Rightarrow> False)"

fun evaluate :: "predicate \<Rightarrow> signer_attributes list \<Rightarrow> bool" where
  "evaluate (MinCount a n) ss \<longleftrightarrow> n \<le> length (filter (\<lambda>s. has s a) ss)"
| "evaluate (MinDistinct a n) ss \<longleftrightarrow> n \<le> length (remdups (concat (map (\<lambda>s. attributes_values s a) ss)))"
| "evaluate (PNone a) ss \<longleftrightarrow> \<not> list_ex (\<lambda>s. has s a) ss"
| "evaluate (PAny a) ss \<longleftrightarrow> list_ex (\<lambda>s. has s a) ss"
| "evaluate (PAll a) ss \<longleftrightarrow> ss \<noteq> [] \<and> list_all (\<lambda>s. has s a) ss"
| "evaluate (PAnd ps) ss \<longleftrightarrow> list_all (\<lambda>p. evaluate p ss) ps"
| "evaluate (POr ps) ss \<longleftrightarrow> list_ex (\<lambda>p. evaluate p ss) ps"
| "evaluate (PNot p) ss \<longleftrightarrow> \<not> evaluate p ss"

section \<open>The parser\<close>

definition max_dsl_depth :: nat where
  "max_dsl_depth = 32"

datatype parse_error =
    UnexpectedEof dsl_text
  | UnexpectedChar nat nat
  | UnknownFunction dsl_text
  | ArgCount dsl_text
  | NumberParse dsl_text
  | DepthExceeded nat nat

definition codes :: "string \<Rightarrow> dsl_text" where
  "codes s = map of_char s"

definition is_digit :: "nat \<Rightarrow> bool" where
  "is_digit c \<longleftrightarrow> 48 \<le> c \<and> c \<le> 57"

definition is_alphanumeric :: "(nat \<Rightarrow> bool) \<Rightarrow> nat \<Rightarrow> bool" where
  "is_alphanumeric uni c \<longleftrightarrow>
     (if c < 128 then is_digit c \<or> 65 \<le> c \<and> c \<le> 90 \<or> 97 \<le> c \<and> c \<le> 122 else uni c)"

definition trim_start :: "dsl_text \<Rightarrow> dsl_text" where
  "trim_start s = dropWhile is_whitespace s"

definition trim_end :: "dsl_text \<Rightarrow> dsl_text" where
  "trim_end s = rev (dropWhile is_whitespace (rev s))"

definition trim :: "dsl_text \<Rightarrow> dsl_text" where
  "trim s = trim_end (trim_start s)"

definition ident_char :: "(nat \<Rightarrow> bool) \<Rightarrow> nat \<Rightarrow> bool" where
  "ident_char uni c \<longleftrightarrow> is_alphanumeric uni c \<or> c = 95"

definition parse_ident :: "(nat \<Rightarrow> bool) \<Rightarrow> dsl_text \<Rightarrow> parse_error + dsl_text \<times> dsl_text" where
  "parse_ident uni s =
     (let name = takeWhile (ident_char uni) s
      in if name = [] then Inl (UnexpectedEof s) else Inr (name, dropWhile (ident_char uni) s))"

definition eat :: "nat \<Rightarrow> dsl_text \<Rightarrow> parse_error + dsl_text" where
  "eat c s = (case trim_start s of
       [] \<Rightarrow> Inl (UnexpectedChar 32 0)
     | d # t \<Rightarrow> if d = c then Inr t else Inl (UnexpectedChar d 0))"

definition parse_string :: "dsl_text \<Rightarrow> parse_error + dsl_text \<times> dsl_text" where
  "parse_string s =
     try_bind (eat 34 s) (\<lambda>t.
       if 34 \<in> set t then Inr (takeWhile (\<lambda>c. c \<noteq> 34) t, tl (dropWhile (\<lambda>c. c \<noteq> 34) t))
       else Inl (UnexpectedEof t))"

definition parse_number :: "dsl_text \<Rightarrow> parse_error + dsl_text \<times> dsl_text" where
  "parse_number s =
     (let ds = takeWhile is_digit s
      in if ds = [] then Inl (NumberParse s) else Inr (ds, dropWhile is_digit s))"

definition number_value :: "dsl_text \<Rightarrow> nat" where
  "number_value ds = foldl (\<lambda>n c. 10 * n + (c - 48)) 0 ds"

definition parse_usize :: "dsl_text \<Rightarrow> parse_error + nat" where
  "parse_usize ds = (if number_value ds < 2 ^ 64 then Inr (number_value ds) else Inl (NumberParse ds))"

definition parse_counted :: "(dsl_text \<Rightarrow> nat \<Rightarrow> predicate) \<Rightarrow> dsl_text \<Rightarrow> parse_error + predicate \<times> dsl_text" where
  "parse_counted C s =
     try_bind (parse_string s) (\<lambda>(a, r1).
     try_bind (eat 44 (trim_start r1)) (\<lambda>r2.
     try_bind (parse_number (trim_start r2)) (\<lambda>(ds, r3).
     try_bind (eat 41 (trim_start r3)) (\<lambda>r4.
     try_bind (parse_usize ds) (\<lambda>n. Inr (C a n, r4))))))"

definition parse_named :: "(dsl_text \<Rightarrow> predicate) \<Rightarrow> dsl_text \<Rightarrow> parse_error + predicate \<times> dsl_text" where
  "parse_named C s =
     try_bind (parse_string s) (\<lambda>(a, r1).
     try_bind (eat 41 (trim_start r1)) (\<lambda>r2. Inr (C a, r2)))"

fun opt_try :: "('e + 'a) option \<Rightarrow> ('a \<Rightarrow> 'e + 'b) \<Rightarrow> ('e + 'b) option" where
  "opt_try None f = None"
| "opt_try (Some r) f = Some (try_bind r f)"

fun parse_items ::
  "nat \<Rightarrow> (dsl_text \<Rightarrow> (parse_error + predicate \<times> dsl_text) option) \<Rightarrow> dsl_text \<Rightarrow> predicate list
     \<Rightarrow> (parse_error + predicate list \<times> dsl_text) option" where
  "parse_items 0 sub_expr s acc = None"
| "parse_items (Suc n) sub_expr s acc =
     (if take 1 (trim_start s) = [41] then Some (Inr (acc, s))
      else (case sub_expr (trim_start s) of
          None \<Rightarrow> None
        | Some (Inl e) \<Rightarrow> Some (Inl e)
        | Some (Inr (p, rest)) \<Rightarrow>
            (case trim_start rest of
               [] \<Rightarrow> Some (Inl (UnexpectedEof []))
             | c # t \<Rightarrow>
                 if c = 44 then parse_items n sub_expr t (acc @ [p])
                 else if c = 41 then Some (Inr (acc @ [p], c # t))
                 else Some (Inl (UnexpectedEof (c # t))))))"

definition parse_list ::
  "(dsl_text \<Rightarrow> (parse_error + predicate \<times> dsl_text) option) \<Rightarrow> (predicate list \<Rightarrow> predicate) \<Rightarrow> dsl_text
     \<Rightarrow> (parse_error + predicate \<times> dsl_text) option" where
  "parse_list sub_expr C s =
     opt_try (parse_items (Suc (length s)) sub_expr s []) (\<lambda>(ps, t).
       try_bind (eat 41 t) (\<lambda>r. Inr (C ps, r)))"

definition parse_not ::
  "(dsl_text \<Rightarrow> (parse_error + predicate \<times> dsl_text) option) \<Rightarrow> dsl_text \<Rightarrow> (parse_error + predicate \<times> dsl_text) option" where
  "parse_not sub_expr s =
     opt_try (sub_expr s) (\<lambda>(p, t). try_bind (eat 41 (trim_start t)) (\<lambda>r. Inr (PNot p, r)))"

definition parse_call ::
  "(dsl_text \<Rightarrow> (parse_error + predicate \<times> dsl_text) option) \<Rightarrow> dsl_text \<Rightarrow> dsl_text \<Rightarrow> (parse_error + predicate \<times> dsl_text) option" where
  "parse_call sub_expr name s =
     (if name = codes ''min_count'' then Some (parse_counted MinCount s)
      else if name = codes ''min_distinct'' then Some (parse_counted MinDistinct s)
      else if name = codes ''none'' then Some (parse_named PNone s)
      else if name = codes ''any'' then Some (parse_named PAny s)
      else if name = codes ''all'' then Some (parse_named PAll s)
      else if name = codes ''and'' then parse_list sub_expr PAnd s
      else if name = codes ''or'' then parse_list sub_expr POr s
      else if name = codes ''not'' then parse_not sub_expr s
      else Some (Inl (UnknownFunction name)))"

definition parse_head :: "(nat \<Rightarrow> bool) \<Rightarrow> dsl_text \<Rightarrow> parse_error + dsl_text \<times> dsl_text" where
  "parse_head uni s =
     try_bind (parse_ident uni (trim s)) (\<lambda>(name, rest).
     try_bind (eat 40 (trim_start rest)) (\<lambda>t. Inr (name, trim_start t)))"

function parse_expr :: "(nat \<Rightarrow> bool) \<Rightarrow> nat \<Rightarrow> dsl_text \<Rightarrow> (parse_error + predicate \<times> dsl_text) option" where
  "parse_expr uni depth s =
     (if max_dsl_depth \<le> depth then Some (Inl (DepthExceeded depth max_dsl_depth))
      else (case parse_head uni s of
          Inl e \<Rightarrow> Some (Inl e)
        | Inr (name, rest) \<Rightarrow> parse_call (\<lambda>t. parse_expr uni (Suc depth) t) name rest))"
  by pat_completeness auto

termination
  by (relation "measure (\<lambda>(_, d, _). max_dsl_depth - d)") auto

declare parse_expr.simps [simp del]

definition parse :: "(nat \<Rightarrow> bool) \<Rightarrow> dsl_text \<Rightarrow> (parse_error + predicate) option" where
  "parse uni s = opt_try (parse_expr uni 0 (trim s)) (\<lambda>(p, _). Inr p)"

section \<open>Evaluation\<close>

lemma has_add: "has (attributes_add k v a) k' \<longleftrightarrow> k' = k \<or> has a k'"
  by (auto simp: has_def attributes_add_def Let_def split: option.split)

lemma set_values_add:
  "set (attributes_values (attributes_add k v a) k') =
     (if k' = k then insert v (set (attributes_values a k)) else set (attributes_values a k'))"
  by (auto simp: attributes_values_def attributes_add_def Let_def split: option.split)

lemma length_filter_mset: "length (filter P xs) = size (filter_mset P (mset xs))"
  by (simp flip: mset_filter)

lemma set_subseteq_mset: "mset xs \<subseteq># mset ys \<Longrightarrow> set xs \<subseteq> set ys"
  by (metis set_mset_mono set_mset_mset)

fun positive :: "predicate \<Rightarrow> bool" where
  "positive (MinCount _ _) = True"
| "positive (MinDistinct _ _) = True"
| "positive (PAny _) = True"
| "positive (PAnd ps) = list_all positive ps"
| "positive (POr ps) = list_all positive ps"
| "positive _ = False"

text \<open>
  A predicate built from minimum counts, minimum numbers of distinct values, existence, conjunction
  and disjunction stays satisfied when more signers join, in any order.
\<close>

theorem evaluate_monotone:
  assumes "positive p" "mset ss \<subseteq># mset ts" "evaluate p ss"
  shows "evaluate p ts"
  using assms
proof (induction p)
  case (MinCount a n)
  then show ?case using size_mset_mono [OF multiset_filter_mono, of "mset ss" "mset ts" "\<lambda>s. has s a"]
    by (simp add: length_filter_mset)
next
  case (MinDistinct a n)
  let ?v = "\<lambda>ss. concat (map (\<lambda>s. attributes_values s a) ss)"
  have "set (?v ss) \<subseteq> set (?v ts)" using set_subseteq_mset [OF MinDistinct.prems(2)] by auto
  then have "length (remdups (?v ss)) \<le> length (remdups (?v ts))" by (simp add: length_remdups_card_conv card_mono)
  with MinDistinct show ?case by simp
next
  case (PAny a)
  then show ?case using set_subseteq_mset by (auto simp: list_ex_iff)
qed (auto simp: list_all_iff list_ex_iff)

theorem evaluate_monotone_witness:
  "evaluate (PAnd [MinCount [1] 1, MinDistinct [2] 1])
     [attributes_add [2] [3] attributes_new, attributes_add [2] [4] (attributes_add [1] [5] attributes_new)]"
  by (rule evaluate_monotone [of _ "[attributes_add [2] [4] (attributes_add [1] [5] attributes_new)]"]) code_simp+

end
