(* ===== verification/Attribute_Parser.thy ===== *)
theory Attribute_Parser
  imports Attributes
begin

text \<open>
  The parser of the selection language (\<open>confium-attributes/src/dsl.rs\<close>) against the grammar that
  its documentation lists: it accepts exactly the texts with a prefix in the grammar, it always
  returns, and what it accepts is bounded.
\<close>

section \<open>The grammar\<close>

text \<open>
  The texts of the language, as the module documentation of \<open>dsl.rs\<close> lists its forms: \<open>n\<close> bounds
  the nesting. White space may stand before every token, and the operands of \<open>and\<close> and \<open>or\<close> may
  be empty or end in a comma.
\<close>

abbreviation blank :: "dsl_text \<Rightarrow> bool" where
  "blank \<equiv> list_all is_whitespace"

definition counted_forms :: "(dsl_text \<times> (dsl_text \<Rightarrow> nat \<Rightarrow> predicate)) list" where
  "counted_forms = [(codes ''min_count'', MinCount), (codes ''min_distinct'', MinDistinct)]"

definition named_forms :: "(dsl_text \<times> (dsl_text \<Rightarrow> predicate)) list" where
  "named_forms = [(codes ''none'', PNone), (codes ''any'', PAny), (codes ''all'', PAll)]"

definition list_forms :: "(dsl_text \<times> (predicate list \<Rightarrow> predicate)) list" where
  "list_forms = [(codes ''and'', PAnd), (codes ''or'', POr)]"

inductive expr_text :: "nat \<Rightarrow> dsl_text \<Rightarrow> predicate \<Rightarrow> bool" and items_text :: "nat \<Rightarrow> dsl_text \<Rightarrow> predicate list \<Rightarrow> bool" where
  counted: "\<lbrakk>(name, C) \<in> set counted_forms; blank w0; blank w1; blank w2; blank w3; blank w4; blank w5;
      34 \<notin> set a; ds \<noteq> []; list_all is_digit ds; number_value ds < 2 ^ 64\<rbrakk> \<Longrightarrow>
    expr_text (Suc n) (w0 @ name @ w1 @ [40] @ w2 @ [34] @ a @ [34] @ w3 @ [44] @ w4 @ ds @ w5 @ [41])
      (C a (number_value ds))"
| named: "\<lbrakk>(name, C) \<in> set named_forms; blank w0; blank w1; blank w2; blank w3; 34 \<notin> set a\<rbrakk> \<Longrightarrow>
    expr_text (Suc n) (w0 @ name @ w1 @ [40] @ w2 @ [34] @ a @ [34] @ w3 @ [41]) (C a)"
| listed: "\<lbrakk>(name, C) \<in> set list_forms; blank w0; blank w1; items_text n u ps\<rbrakk> \<Longrightarrow>
    expr_text (Suc n) (w0 @ name @ w1 @ [40] @ u @ [41]) (C ps)"
| negated: "\<lbrakk>blank w0; blank w1; expr_text n u p; blank w2\<rbrakk> \<Longrightarrow>
    expr_text (Suc n) (w0 @ codes ''not'' @ w1 @ [40] @ u @ w2 @ [41]) (PNot p)"
| no_items: "blank w \<Longrightarrow> items_text n w []"
| last_item: "\<lbrakk>expr_text n u p; blank w\<rbrakk> \<Longrightarrow> items_text n (u @ w) [p]"
| more_items: "\<lbrakk>expr_text n u p; blank w; items_text n v ps\<rbrakk> \<Longrightarrow> items_text n (u @ w @ [44] @ v) (p # ps)"

section \<open>Lemmas on tokens\<close>

lemma blank_append_trim: "blank w \<Longrightarrow> trim_start (w @ s) = trim_start s"
  by (induction w) (simp_all add: trim_start_def)

lemma trim_start_token [simp]: "\<not> is_whitespace c \<Longrightarrow> trim_start (c # s) = c # s"
  by (simp add: trim_start_def)

lemma trim_start_idem [simp]: "trim_start (trim_start s) = trim_start s"
  by (simp add: trim_start_def)

lemma trim_start_split: "\<exists>w. blank w \<and> s = w @ trim_start s"
  unfolding trim_start_def list_all_iff by (metis set_takeWhileD takeWhile_dropWhile_id)

lemma trim_end_split: "\<exists>w. blank w \<and> s = trim_end s @ w"
proof -
  have "rev s = takeWhile is_whitespace (rev s) @ dropWhile is_whitespace (rev s)" by simp
  then have "s = trim_end s @ rev (takeWhile is_whitespace (rev s))"
    unfolding trim_end_def by (metis rev_append rev_rev_ident)
  moreover have "blank (rev (takeWhile is_whitespace (rev s)))" by (auto simp: list_all_iff dest: set_takeWhileD)
  ultimately show ?thesis by blast
qed

lemma trim_end_token: "\<not> is_whitespace c \<Longrightarrow> trim_end (u @ c # v) = u @ c # trim_end v"
  by (induction v rule: rev_induct) (simp_all add: trim_end_def)

lemma trim_end_idem [simp]: "trim_end (trim_end s) = trim_end s"
  by (simp add: trim_end_def)

lemma trim_idem [simp]: "trim (trim s) = trim s"
proof (cases "trim_start s")
  case (Cons c t)
  then have c: "\<not> is_whitespace c" unfolding trim_start_def by (simp add: dropWhile_eq_Cons_conv)
  then have "trim s = c # trim_end t" using Cons trim_end_token [of c "[]" t] by (simp add: trim_def)
  with c trim_end_token [of c "[]" "trim_end t"] show ?thesis by (simp add: trim_def)
next
  case Nil
  then have "trim s = []" by (simp add: trim_def trim_end_def)
  moreover have "trim [] = []" by (simp add: trim_def trim_end_def trim_start_def)
  ultimately show ?thesis by simp
qed

lemma trim_split: "\<exists>w w'. blank w \<and> blank w' \<and> s = w @ trim s @ w'"
  using trim_start_split [of s] trim_end_split [of "trim_start s"] unfolding trim_def by metis

lemma tokens_not_blank [simp]:
  "\<not> is_whitespace 40" "\<not> is_whitespace 41" "\<not> is_whitespace 34" "\<not> is_whitespace 44"
  by (simp_all add: is_whitespace_def)

lemma digit_not_blank [simp]: "is_digit c \<Longrightarrow> \<not> is_whitespace c"
  by (auto simp: is_whitespace_def is_digit_def)

lemma eat_trim [simp]: "eat c (trim_start s) = eat c s"
  by (simp add: eat_def)

lemma eat_iff:
  assumes "\<not> is_whitespace c"
  shows "eat c s = Inr t \<longleftrightarrow> (\<exists>w. blank w \<and> s = w @ c # t)"
proof
  assume "eat c s = Inr t"
  then have "trim_start s = c # t" by (auto simp: eat_def split: list.splits if_splits)
  then show "\<exists>w. blank w \<and> s = w @ c # t" using trim_start_split [of s] by metis
next
  assume "\<exists>w. blank w \<and> s = w @ c # t"
  then show "eat c s = Inr t" using assms by (auto simp: eat_def blank_append_trim)
qed

lemma eat_token [simp]: "\<not> is_whitespace c \<Longrightarrow> eat c (c # t) = Inr t"
  by (simp add: eat_def)

lemma eat_blank: "blank w \<Longrightarrow> eat c (w @ s) = eat c s"
  by (simp add: eat_def blank_append_trim)

lemma quoted_iff:
  "34 \<in> set t \<and> a = takeWhile (\<lambda>c. c \<noteq> 34) t \<and> r = tl (dropWhile (\<lambda>c. c \<noteq> 34) t) \<longleftrightarrow>
     t = a @ 34 # r \<and> (34 :: nat) \<notin> set a"
proof (induction t arbitrary: a)
  case (Cons c t)
  show ?case
  proof (cases "c = 34")
    case True then show ?thesis by (cases a) auto
  next
    case False
    then show ?thesis using Cons.IH [of "tl a"] by (cases a) auto
  qed
qed simp

lemma parse_string_iff:
  "parse_string s = Inr (a, r) \<longleftrightarrow> (\<exists>w. blank w \<and> s = w @ 34 # a @ 34 # r \<and> 34 \<notin> set a)"
proof -
  have "parse_string s = Inr (a, r) \<longleftrightarrow> (\<exists>t. eat 34 s = Inr t \<and> t = a @ 34 # r \<and> 34 \<notin> set a)"
    unfolding parse_string_def try_bind_Inr_iff quoted_iff [symmetric] by auto
  then show ?thesis by (auto simp: eat_iff)
qed

lemma parse_string_blank: "blank w \<Longrightarrow> parse_string (w @ s) = parse_string s"
  by (simp add: parse_string_def eat_blank)

lemma parse_string_trim [simp]: "parse_string (trim_start s) = parse_string s"
  by (simp add: parse_string_def)

lemma parse_number_iff:
  "parse_number s = Inr (ds, r) \<longleftrightarrow>
     s = ds @ r \<and> ds \<noteq> [] \<and> list_all is_digit ds \<and> (case r of [] \<Rightarrow> True | c # _ \<Rightarrow> \<not> is_digit c)"
proof
  assume "parse_number s = Inr (ds, r)"
  then have "ds = takeWhile is_digit s" "r = dropWhile is_digit s" "ds \<noteq> []"
    by (auto simp: parse_number_def Let_def split: if_splits)
  then show "s = ds @ r \<and> ds \<noteq> [] \<and> list_all is_digit ds \<and> (case r of [] \<Rightarrow> True | c # _ \<Rightarrow> \<not> is_digit c)"
    by (auto simp: list_all_iff dest: set_takeWhileD split: list.split) (metis dropWhile_eq_Cons_conv)
next
  assume *: "s = ds @ r \<and> ds \<noteq> [] \<and> list_all is_digit ds \<and> (case r of [] \<Rightarrow> True | c # _ \<Rightarrow> \<not> is_digit c)"
  then have "takeWhile is_digit s = ds" "dropWhile is_digit s = r"
    by (auto simp: list_all_iff takeWhile_append dropWhile_append split: list.splits)
  with * show "parse_number s = Inr (ds, r)" by (simp add: parse_number_def)
qed

lemma blank_then_token:
  "blank w \<Longrightarrow> \<not> P c \<Longrightarrow> (\<And>d. is_whitespace d \<Longrightarrow> \<not> P d) \<Longrightarrow> (case w @ c # t of [] \<Rightarrow> True | d # _ \<Rightarrow> \<not> P d)"
  by (cases w) auto

lemma blank_then_digit_free: "blank w \<Longrightarrow> (case w @ 41 # t of [] \<Rightarrow> True | c # _ \<Rightarrow> \<not> is_digit c)"
  by (rule blank_then_token) (auto simp: is_digit_def is_whitespace_def)

lemma digits_after_blank:
  "blank w \<Longrightarrow> ds \<noteq> [] \<Longrightarrow> list_all is_digit ds \<Longrightarrow> trim_start (w @ ds @ s) = ds @ s"
  by (cases ds) (simp_all add: blank_append_trim)

lemma parse_counted_iff:
  "parse_counted C s = Inr (p, t) \<longleftrightarrow>
     (\<exists>w2 a w3 w4 ds w5. blank w2 \<and> blank w3 \<and> blank w4 \<and> blank w5 \<and> 34 \<notin> set a \<and> ds \<noteq> [] \<and>
        list_all is_digit ds \<and> number_value ds < 2 ^ 64 \<and> p = C a (number_value ds) \<and>
        s = w2 @ 34 # a @ 34 # w3 @ 44 # w4 @ ds @ w5 @ 41 # t)" (is "?l \<longleftrightarrow> ?r")
proof
  assume ?l
  then obtain a r1 r2 ds r3 where *: "parse_string s = Inr (a, r1)" "eat 44 r1 = Inr r2"
    "parse_number (trim_start r2) = Inr (ds, r3)" "eat 41 r3 = Inr t"
    "number_value ds < 2 ^ 64" "p = C a (number_value ds)"
    by (auto simp: parse_counted_def parse_usize_def try_bind_Inr_iff split: if_splits)
  from trim_start_split [of r2] obtain w4 where "blank w4" "r2 = w4 @ trim_start r2" by blast
  moreover from *(3) have "trim_start r2 = ds @ r3" "ds \<noteq> []" "list_all is_digit ds" by (simp_all add: parse_number_iff)
  ultimately show ?r using * by (auto simp: parse_string_iff eat_iff) (metis append_assoc)
next
  assume ?r
  then obtain w2 a w3 w4 ds w5 where *: "blank w2" "blank w3" "blank w4" "blank w5" "34 \<notin> set a" "ds \<noteq> []"
    "list_all is_digit ds" "number_value ds < 2 ^ 64" "p = C a (number_value ds)"
    and s: "s = w2 @ 34 # a @ 34 # w3 @ 44 # w4 @ ds @ w5 @ 41 # t" by blast
  have "parse_string s = Inr (a, w3 @ 44 # w4 @ ds @ w5 @ 41 # t)" using * s by (auto simp: parse_string_iff)
  moreover have "parse_number (ds @ w5 @ 41 # t) = Inr (ds, w5 @ 41 # t)"
    unfolding parse_number_iff using * blank_then_digit_free by simp
  ultimately show ?l using *
    by (simp add: parse_counted_def eat_blank digits_after_blank parse_usize_def)
qed

lemma parse_named_iff:
  "parse_named C s = Inr (p, t) \<longleftrightarrow>
     (\<exists>w2 a w3. blank w2 \<and> blank w3 \<and> 34 \<notin> set a \<and> p = C a \<and> s = w2 @ 34 # a @ 34 # w3 @ 41 # t)"
  by (auto simp: parse_named_def try_bind_Inr_iff parse_string_iff eat_iff)

section \<open>Lemmas on calls\<close>

definition spaces_apart :: "(nat \<Rightarrow> bool) \<Rightarrow> bool" where
  "spaces_apart uni \<longleftrightarrow> (\<forall>c. is_whitespace c \<longrightarrow> \<not> is_alphanumeric uni c)"

lemma head_sound:
  assumes "parse_head uni s = Inr (name, t)"
  shows "\<exists>w0 w1 w2 w3. blank w0 \<and> blank w1 \<and> blank w2 \<and> blank w3 \<and> s = w0 @ name @ w1 @ 40 # w2 @ t @ w3"
proof -
  from assms obtain rest x where *: "parse_ident uni (trim s) = Inr (name, rest)" "eat 40 rest = Inr x" "t = trim_start x"
    by (auto simp: parse_head_def try_bind_Inr_iff)
  then have "trim s = name @ rest" by (auto simp: parse_ident_def Let_def split: if_splits)
  with * trim_split [of s] trim_start_split [of x] show ?thesis
    by (auto simp: eat_iff) (metis append.assoc append_Cons)
qed

lemma ident_prefix:
  assumes "list_all (ident_char uni) name" "name \<noteq> []" "spaces_apart uni" "blank w"
  shows "parse_ident uni (name @ w @ 40 # x) = Inr (name, w @ 40 # x)"
proof -
  have "\<not> is_alphanumeric uni 40" "\<not> is_whitespace 95"
    by (simp_all add: is_alphanumeric_def is_digit_def is_whitespace_def)
  then have stop: "\<not> ident_char uni 40" "is_whitespace c \<Longrightarrow> \<not> ident_char uni c" for c
    using assms(3) unfolding ident_char_def spaces_apart_def by (auto simp del: One_nat_def)
  then have "takeWhile (ident_char uni) (w @ 40 # x) = []" "dropWhile (ident_char uni) (w @ 40 # x) = w @ 40 # x"
    using assms(4) by (cases w; simp)+
  moreover have "\<forall>c \<in> set name. ident_char uni c" using assms(1) by (simp add: list_all_iff)
  ultimately show ?thesis using assms(2)
    by (simp add: parse_ident_def Let_def takeWhile_append2 dropWhile_append2)
qed

definition form_names :: "dsl_text list" where
  "form_names = map fst counted_forms @ map fst named_forms @ map fst list_forms @ [codes ''not'']"

lemma form_names_eq:
  "form_names = [codes ''min_count'', codes ''min_distinct'', codes ''none'', codes ''any'', codes ''all'',
     codes ''and'', codes ''or'', codes ''not'']"
  by (simp add: form_names_def counted_forms_def named_forms_def list_forms_def)

lemma form_name_chars:
  assumes "name \<in> set form_names"
  shows "name \<noteq> []" "list_all (ident_char uni) name" "\<not> is_whitespace (hd name)" "hd name \<noteq> 41"
  using assms unfolding form_names_eq
  by (auto simp: codes_def ident_char_def is_alphanumeric_def is_digit_def is_whitespace_def)

lemma head_complete:
  assumes "name \<in> set form_names" "spaces_apart uni" "blank w0" "blank w1"
  shows "parse_head uni (w0 @ name @ w1 @ 40 # x) = Inr (name, trim_start (trim_end x))"
proof -
  have "trim_start (w0 @ name @ w1 @ 40 # x) = name @ w1 @ 40 # x"
    using form_name_chars [OF assms(1)] assms(3) by (cases name) (simp_all add: blank_append_trim)
  then have "trim (w0 @ name @ w1 @ 40 # x) = name @ w1 @ 40 # trim_end x"
    using trim_end_token [of 40 "name @ w1" x] by (simp add: trim_def)
  moreover have "parse_ident uni (name @ w1 @ 40 # trim_end x) = Inr (name, w1 @ 40 # trim_end x)"
    using assms form_name_chars [OF assms(1)] by (intro ident_prefix)
  ultimately show ?thesis using assms(4) by (simp add: parse_head_def eat_blank)
qed

lemma codes_eq_iff: "codes s = codes t \<longleftrightarrow> s = t"
  unfolding codes_def by (rule inj_map_eq_map) (simp add: inj_on_def)

lemma parse_call_forms:
  "(name, C1) \<in> set counted_forms \<Longrightarrow> parse_call f name s = Some (parse_counted C1 s)"
  "(name, C2) \<in> set named_forms \<Longrightarrow> parse_call f name s = Some (parse_named C2 s)"
  "(name, C3) \<in> set list_forms \<Longrightarrow> parse_call f name s = parse_list f C3 s"
  "parse_call f (codes ''not'') s = parse_not f s"
  by (auto simp: counted_forms_def named_forms_def list_forms_def parse_call_def codes_eq_iff)

lemma parse_call_cases:
  obtains C1 where "(name, C1) \<in> set counted_forms" "parse_call f name s = Some (parse_counted C1 s)"
  | C2 where "(name, C2) \<in> set named_forms" "parse_call f name s = Some (parse_named C2 s)"
  | C3 where "(name, C3) \<in> set list_forms" "parse_call f name s = parse_list f C3 s"
  | "name = codes ''not''" "parse_call f name s = parse_not f s"
  | "parse_call f name s = Some (Inl (UnknownFunction name))"
proof (cases "name \<in> set form_names")
  case True
  then consider C1 where "(name, C1) \<in> set counted_forms" | C2 where "(name, C2) \<in> set named_forms"
    | C3 where "(name, C3) \<in> set list_forms" | "name = codes ''not''"
    unfolding form_names_def by auto
  then show ?thesis by cases (use that parse_call_forms in blast)+
next
  case False
  then have "parse_call f name s = Some (Inl (UnknownFunction name))" by (simp add: form_names_eq parse_call_def)
  then show ?thesis by (rule that(5))
qed

section \<open>The parser accepts only the grammar\<close>

inductive_cases expr_textE: "expr_text n u p"
inductive_cases items_textE: "items_text n u ps"

lemma form_in_names:
  "(name, C1) \<in> set counted_forms \<Longrightarrow> name \<in> set form_names"
  "(name, C2) \<in> set named_forms \<Longrightarrow> name \<in> set form_names"
  "(name, C3) \<in> set list_forms \<Longrightarrow> name \<in> set form_names"
  "codes ''not'' \<in> set form_names"
  by (force simp: form_names_def)+

lemma expr_text_head:
  assumes "expr_text n u p"
  obtains w0 name v where "u = w0 @ name @ v" "blank w0" "name \<in> set form_names"
  using assms by (cases rule: expr_textE) (use form_in_names in blast)+

lemma expr_text_blank: "expr_text n u p \<Longrightarrow> blank w \<Longrightarrow> expr_text n (w @ u) p"
proof (erule expr_textE, goal_cases)
  case (1 name C w0 w1 w2 w3 w4 w5 a ds n)
  then show ?case using counted [of name C "w @ w0" w1 w2 w3 w4 w5 a ds n] by simp
next
  case (2 name C w0 w1 w2 w3 a n)
  then show ?case using named [of name C "w @ w0" w1 w2 w3 a n] by simp
next
  case (3 name C w0 w1 n v ps)
  then show ?case using listed [of name C "w @ w0" w1 n v ps] by simp
next
  case (4 w0 w1 n v q w2)
  then show ?case using negated [of "w @ w0" w1 n v q w2] by simp
qed

lemma items_text_blank: "items_text n u ps \<Longrightarrow> blank w \<Longrightarrow> items_text n (w @ u) ps"
proof (erule items_textE, goal_cases)
  case 1 then show ?case by (simp add: no_items)
next
  case (2 v p w') then show ?case using last_item [of n "w @ v" p w'] expr_text_blank by simp
next
  case (3 v p w' x qs) then show ?case using more_items [of n "w @ v" p w' x qs] expr_text_blank by simp
qed

lemma expr_text_start:
  assumes "expr_text n u p"
  shows "u \<noteq> []" "take 1 (trim_start (u @ v)) \<noteq> [41]"
proof -
  from assms obtain w0 name x where *: "u = w0 @ name @ x" "blank w0" "name \<in> set form_names" by (rule expr_text_head)
  then show "u \<noteq> []" "take 1 (trim_start (u @ v)) \<noteq> [41]"
    using form_name_chars(1,3,4) [OF *(3)] by (cases name; simp add: blank_append_trim)+
qed

definition sound_parser :: "nat \<Rightarrow> (dsl_text \<Rightarrow> (parse_error + predicate \<times> dsl_text) option) \<Rightarrow> bool" where
  "sound_parser n f \<longleftrightarrow>
     (\<forall>t q r. f t = Some (Inr (q, r)) \<longrightarrow> (\<exists>u w. t = u @ r @ w \<and> blank w \<and> expr_text n u q))"

lemma sound_parserD:
  assumes "sound_parser n f" "f (trim_start s) = Some (Inr (q, r))"
  obtains u w where "s = u @ r @ w" "blank w" "expr_text n u q"
proof -
  obtain w0 where w0: "blank w0" "s = w0 @ trim_start s" using trim_start_split by blast
  obtain u w where "trim_start s = u @ r @ w" "blank w" "expr_text n u q"
    using assms unfolding sound_parser_def by blast
  with w0 that [of "w0 @ u" w] expr_text_blank show ?thesis by simp
qed

lemma items_sound:
  assumes "sound_parser n f" "parse_items k f s acc = Some (Inr (qs, t))"
  shows "\<exists>ps u r w. qs = acc @ ps \<and> eat 41 t = Inr r \<and> blank w \<and> s = u @ 41 # r @ w \<and> items_text n u ps"
  using assms(2)
proof (induction k arbitrary: s acc)
  case (Suc k)
  show ?case
  proof (cases "take 1 (trim_start s) = [41]")
    case True
    then obtain r where r: "trim_start s = 41 # r" by (cases "trim_start s") auto
    obtain w where "blank w" "s = w @ trim_start s" using trim_start_split by blast
    with r True Suc.prems show ?thesis
      by (intro exI [of _ "[]"] exI [of _ w] exI [of _ r] exI [of _ "[]"]) (auto simp: no_items eat_def)
  next
    case False
    with Suc.prems obtain q rest c x where f: "f (trim_start s) = Some (Inr (q, rest))" "trim_start rest = c # x"
      and c: "c = 44 \<and> parse_items k f x (acc @ [q]) = Some (Inr (qs, t)) \<or> c = 41 \<and> qs = acc @ [q] \<and> t = c # x"
      by (auto split: option.splits sum.splits list.splits if_splits)
    from f(1) obtain u w where s: "s = u @ rest @ w" "blank w" "expr_text n u q" by (rule sound_parserD [OF assms(1)])
    obtain w1 where w1: "blank w1" "rest = w1 @ c # x" using trim_start_split [of rest] f(2) by auto
    from c show ?thesis
    proof
      assume "c = 44 \<and> parse_items k f x (acc @ [q]) = Some (Inr (qs, t))"
      with Suc.IH obtain ps v r w2 where "c = 44" "qs = (acc @ [q]) @ ps" "eat 41 t = Inr r" "blank w2"
        "x = v @ 41 # r @ w2" "items_text n v ps" by blast
      with s w1 more_items [of n u q w1 v ps] show ?thesis
        by (intro exI [of _ "q # ps"] exI [of _ "u @ w1 @ [44] @ v"] exI [of _ r] exI [of _ "w2 @ w"]) simp
    next
      assume "c = 41 \<and> qs = acc @ [q] \<and> t = c # x"
      with s w1 last_item [of n u q w1] show ?thesis
        by (intro exI [of _ "[q]"] exI [of _ "u @ w1"] exI [of _ x] exI [of _ w]) simp
    qed
  qed
qed simp

lemma opt_try_Inr_iff: "opt_try x f = Some (Inr z) \<longleftrightarrow> (\<exists>y. x = Some (Inr y) \<and> f y = Inr z)"
  by (cases x) (auto simp: try_bind_Inr_iff)

lemma list_sound:
  assumes "sound_parser n f" "parse_list f C s = Some (Inr (p, r))"
  shows "\<exists>ps u w. p = C ps \<and> blank w \<and> s = u @ 41 # r @ w \<and> items_text n u ps"
proof -
  from assms(2) obtain ps t where i: "parse_items (Suc (length s)) f s [] = Some (Inr (ps, t))"
    and t: "eat 41 t = Inr r" "p = C ps"
    by (auto simp: parse_list_def opt_try_Inr_iff try_bind_Inr_iff simp del: parse_items.simps)
  from items_sound [OF assms(1) i] t show ?thesis by (auto simp del: parse_items.simps)
qed

lemma not_sound:
  assumes "sound_parser n f" "parse_not f s = Some (Inr (p, r))"
  shows "\<exists>q u w w'. p = PNot q \<and> blank w \<and> blank w' \<and> s = u @ w @ 41 # r @ w' \<and> expr_text n u q"
proof -
  from assms(2) obtain q t where *: "f s = Some (Inr (q, t))" "eat 41 t = Inr r" "p = PNot q"
    by (auto simp: parse_not_def opt_try_Inr_iff try_bind_Inr_iff)
  with assms(1) obtain u w where u: "s = u @ t @ w" "blank w" "expr_text n u q" unfolding sound_parser_def by blast
  from *(2) obtain w' where "blank w'" "t = w' @ 41 # r" by (auto simp: eat_iff)
  with u *(3) show ?thesis by (intro exI [of _ q] exI [of _ u] exI [of _ w'] exI [of _ w]) simp
qed

lemma call_sound:
  assumes f: "sound_parser n f" and c: "parse_call f name s = Some (Inr (p, r))"
    and w: "blank w0" "blank w1" "blank w2"
  shows "\<exists>u w. w0 @ name @ w1 @ 40 # w2 @ s = u @ r @ w \<and> blank w \<and> expr_text (Suc n) u p"
proof (rule parse_call_cases [of name f s])
  fix C assume C: "(name, C) \<in> set counted_forms" "parse_call f name s = Some (parse_counted C s)"
  with c obtain v2 a w3 w4 ds w5 where *: "blank v2" "blank w3" "blank w4" "blank w5" "34 \<notin> set a" "ds \<noteq> []"
    "list_all is_digit ds" "number_value ds < 2 ^ 64" "p = C a (number_value ds)"
    "s = v2 @ 34 # a @ 34 # w3 @ 44 # w4 @ ds @ w5 @ 41 # r" by (auto simp: parse_counted_iff)
  with w counted [OF C(1), of w0 w1 "w2 @ v2" w3 w4 w5 a ds n] show ?thesis
    by (intro exI [of _ "w0 @ name @ w1 @ [40] @ (w2 @ v2) @ [34] @ a @ [34] @ w3 @ [44] @ w4 @ ds @ w5 @ [41]"]
        exI [of _ "[]"]) simp
next
  fix C assume C: "(name, C) \<in> set named_forms" "parse_call f name s = Some (parse_named C s)"
  with c obtain v2 a w3 where "blank v2" "blank w3" "34 \<notin> set a" "p = C a" "s = v2 @ 34 # a @ 34 # w3 @ 41 # r"
    by (auto simp: parse_named_iff)
  with w named [OF C(1), of w0 w1 "w2 @ v2" w3 a n] show ?thesis
    by (intro exI [of _ "w0 @ name @ w1 @ [40] @ (w2 @ v2) @ [34] @ a @ [34] @ w3 @ [41]"] exI [of _ "[]"]) simp
next
  fix C assume C: "(name, C) \<in> set list_forms" "parse_call f name s = parse_list f C s"
  with c list_sound [OF f] obtain ps u w' where *: "p = C ps" "blank w'" "s = u @ 41 # r @ w'" "items_text n u ps"
    by metis
  with w listed [OF C(1), of w0 w1 n "w2 @ u" ps] items_text_blank show ?thesis
    by (intro exI [of _ "w0 @ name @ w1 @ [40] @ (w2 @ u) @ [41]"] exI [of _ w']) simp
next
  assume C: "name = codes ''not''" "parse_call f name s = parse_not f s"
  with c not_sound [OF f] obtain q u w3 w' where *: "p = PNot q" "blank w3" "blank w'" "s = u @ w3 @ 41 # r @ w'"
    "expr_text n u q" by metis
  with w C(1) negated [of w0 w1 n "w2 @ u" q w3] expr_text_blank show ?thesis
    by (intro exI [of _ "w0 @ name @ w1 @ [40] @ (w2 @ u) @ w3 @ [41]"] exI [of _ w']) simp
next
  assume "parse_call f name s = Some (Inl (UnknownFunction name))" with c show ?thesis by simp
qed

lemma expr_sound: "sound_parser (max_dsl_depth - d) (parse_expr uni d)"
proof (induction "max_dsl_depth - d" arbitrary: d)
  case 0 then show ?case by (simp add: sound_parser_def parse_expr.simps)
next
  case (Suc n)
  then have sub: "sound_parser n (parse_expr uni (Suc d))" by (metis Suc_diff_Suc diff_Suc_1 diff_Suc_Suc zero_less_Suc zero_less_diff)
  show ?case unfolding sound_parser_def
  proof (intro allI impI)
    fix s q r assume "parse_expr uni d s = Some (Inr (q, r))"
    with Suc.hyps(2) obtain name t where "parse_head uni s = Inr (name, t)"
      and c: "parse_call (parse_expr uni (Suc d)) name t = Some (Inr (q, r))"
      by (auto simp: parse_expr.simps [of uni d s] split: sum.splits if_splits)
    then obtain w0 w1 w2 w3 where w: "blank w0" "blank w1" "blank w2" "blank w3"
      and s: "s = w0 @ name @ w1 @ 40 # w2 @ t @ w3" using head_sound by blast
    obtain u w where "w0 @ name @ w1 @ 40 # w2 @ t = u @ r @ w" "blank w" and u: "expr_text (Suc n) u q"
      using call_sound [OF sub c w(1-3)] by blast
    moreover have "s = (w0 @ name @ w1 @ 40 # w2 @ t) @ w3" using s by simp
    ultimately have "s = u @ r @ (w @ w3)" "blank (w @ w3)" using w(4) by (metis append.assoc, simp)
    then show "\<exists>u w. s = u @ r @ w \<and> blank w \<and> expr_text (max_dsl_depth - d) u q"
      using u unfolding Suc.hyps(2) by blast
  qed
qed

section \<open>The parser accepts the whole grammar\<close>

definition complete_parser :: "nat \<Rightarrow> (dsl_text \<Rightarrow> (parse_error + predicate \<times> dsl_text) option) \<Rightarrow> bool" where
  "complete_parser n f \<longleftrightarrow>
     (\<forall>s. f (trim_start s) = f s) \<and>
     (\<forall>u p v. expr_text n u p \<longrightarrow> f (u @ v) = Some (Inr (p, trim_end v)))"

lemma item_step:
  assumes "complete_parser n f" "expr_text n u p" "\<not> is_whitespace c" "blank w" "trim_end v = v"
  shows "parse_items (Suc k) f (u @ w @ c # v) acc =
    (if c = 44 then parse_items k f v (acc @ [p])
     else if c = 41 then Some (Inr (acc @ [p], c # v)) else Some (Inl (UnexpectedEof (c # v))))"
proof -
  have "f (trim_start (u @ w @ c # v)) = Some (Inr (p, trim_end (w @ c # v)))"
    using assms(1,2) unfolding complete_parser_def by metis
  moreover have "trim_start (trim_end (w @ c # v)) = c # v"
    using assms(3-5) by (simp add: trim_end_token blank_append_trim)
  ultimately show ?thesis using expr_text_start(2) [OF assms(2), of "w @ c # v"] by simp
qed

lemma items_complete:
  assumes f: "complete_parser n f" and v: "trim_end v = v" and u: "items_text n u ps" "length u < k"
  shows "\<exists>t. parse_items k f (u @ 41 # v) acc = Some (Inr (acc @ ps, t)) \<and> eat 41 t = Inr v"
  using u
proof (induction "length u" arbitrary: u ps k acc rule: less_induct)
  case less
  from less.prems(2) obtain k' where k: "k = Suc k'" by (rule lessE) blast+
  show ?case
  proof (rule items_textE [OF less.prems(1)], goal_cases)
    case 1
    then have "take 1 (trim_start (u @ 41 # v)) = [41]" "eat 41 (u @ 41 # v) = Inr v"
      by (simp_all add: blank_append_trim eat_blank)
    with 1 show ?case by (simp add: k)
  next
    case (2 u' p w)
    then have "parse_items k f (u @ 41 # v) acc = Some (Inr (acc @ ps, 41 # v))"
      using item_step [OF f, of u' p 41 w v k' acc] v by (simp add: k del: parse_items.simps)
    then show ?case by auto
  next
    case (3 u' p w x qs)
    have x: "trim_end (x @ 41 # v) = x @ 41 # v" using v by (simp add: trim_end_token)
    have "parse_items k f (u @ 41 # v) acc = parse_items k' f (x @ 41 # v) (acc @ [p])"
      using item_step [OF f 3(3), of 44 w "x @ 41 # v" k' acc] 3(1,4) x by (simp add: k del: parse_items.simps)
    moreover have "\<exists>t. parse_items k' f (x @ 41 # v) (acc @ [p]) = Some (Inr ((acc @ [p]) @ qs, t)) \<and> eat 41 t = Inr v"
      by (rule less.hyps) (use 3 less.prems(2) k in auto)
    ultimately show ?case using 3(2) by simp
  qed
qed

lemma trim_start_name:
  "name \<in> set form_names \<Longrightarrow> blank w \<Longrightarrow> trim_start (w @ name @ v) = name @ v"
  using form_name_chars(1,3) [of name] by (cases name) (simp_all add: blank_append_trim)

lemma expr_text_trim: "expr_text n u p \<Longrightarrow> expr_text n (trim_start u) p"
proof (erule expr_textE, goal_cases)
  case (1 name C w0 w1 w2 w3 w4 w5 a ds n)
  then show ?case using counted [of name C "[]" w1 w2 w3 w4 w5 a ds n] by (simp add: trim_start_name form_in_names(1))
next
  case (2 name C w0 w1 w2 w3 a n)
  then show ?case using named [of name C "[]" w1 w2 w3 a n] by (simp add: trim_start_name form_in_names(2))
next
  case (3 name C w0 w1 n v ps)
  then show ?case using listed [of name C "[]" w1 n v ps] by (simp add: trim_start_name form_in_names(3))
next
  case (4 w0 w1 n v q w2)
  then show ?case using negated [of "[]" w1 n v q w2] by (simp add: trim_start_name form_in_names(4))
qed

lemma expr_text_trim_append: "expr_text n u p \<Longrightarrow> trim_start (u @ v) = trim_start u @ v"
  by (erule expr_text_head) (simp add: trim_start_name)

lemma items_text_trim: "items_text n u ps \<Longrightarrow> items_text n (trim_start u) ps"
proof (erule items_textE, goal_cases)
  case 1
  moreover from this have "trim_start u = []" using blank_append_trim [of u "[]"] by (simp add: trim_start_def)
  ultimately show ?case by (simp add: no_items)
next
  case (2 v p w)
  then show ?case using last_item [of n "trim_start v" p w] expr_text_trim by (simp add: expr_text_trim_append)
next
  case (3 v p w x qs)
  then show ?case using more_items [of n "trim_start v" p w x qs] expr_text_trim by (simp add: expr_text_trim_append)
qed

lemma trim_start_mid: "\<not> is_whitespace c \<Longrightarrow> trim_start (u @ c # v) = trim_start u @ c # v"
  by (induction u) (simp_all add: trim_start_def)

lemma list_complete:
  assumes "complete_parser n f" "items_text n u ps" "trim_end v = v"
  shows "parse_list f C (trim_start (u @ 41 # v)) = Some (Inr (C ps, v))"
proof -
  let ?u = "trim_start u"
  obtain t where "parse_items (Suc (length (?u @ 41 # v))) f (?u @ 41 # v) [] = Some (Inr ([] @ ps, t))" "eat 41 t = Inr v"
    using items_complete [OF assms(1,3) items_text_trim [OF assms(2)], of "Suc (length (?u @ 41 # v))" "[]"] by auto
  then show ?thesis by (simp add: trim_start_mid parse_list_def del: parse_items.simps)
qed

lemma not_complete:
  assumes "complete_parser n f" "expr_text n u p" "blank w" "trim_end v = v"
  shows "parse_not f (trim_start (u @ w @ 41 # v)) = Some (Inr (PNot p, v))"
proof -
  have "f (trim_start (u @ w @ 41 # v)) = Some (Inr (p, w @ 41 # v))"
    using assms unfolding complete_parser_def by (simp add: trim_end_token)
  then show ?thesis using assms(3) by (simp add: parse_not_def eat_blank)
qed

lemma expr_trims: "parse_expr uni d (trim_start s) = parse_expr uni d s"
  by (simp add: parse_expr.simps parse_head_def trim_def)

lemma parse_counted_trim: "parse_counted C (trim_start s) = parse_counted C s"
  by (simp add: parse_counted_def)

lemma parse_named_trim: "parse_named C (trim_start s) = parse_named C s"
  by (simp add: parse_named_def)

lemma expr_step:
  assumes "name \<in> set form_names" "spaces_apart uni" "blank w0" "blank w1" "d < max_dsl_depth"
  shows "parse_expr uni d (w0 @ name @ w1 @ 40 # x) = parse_call (parse_expr uni (Suc d)) name (trim_start (trim_end x))"
  using assms by (simp add: parse_expr.simps [of uni d] head_complete)

lemma expr_complete:
  assumes uni: "spaces_apart uni"
  shows "d + n \<le> max_dsl_depth \<Longrightarrow> complete_parser n (parse_expr uni d)"
proof (induction n arbitrary: d)
  case 0
  then show ?case by (auto simp: complete_parser_def expr_trims elim: expr_textE)
next
  case (Suc n)
  then have sub: "complete_parser n (parse_expr uni (Suc d))" and d: "d < max_dsl_depth" by simp_all
  note step = expr_step [OF _ uni _ _ d]
  have "parse_expr uni d (u @ v) = Some (Inr (p, trim_end v))" if "expr_text (Suc n) u p" for u p v
  proof (rule expr_textE [OF that], goal_cases)
    case (1 name C w0 w1 w2 w3 w4 w5 a ds)
    have "trim_end (w2 @ 34 # a @ 34 # w3 @ 44 # w4 @ ds @ w5 @ 41 # v) =
        w2 @ 34 # a @ 34 # w3 @ 44 # w4 @ ds @ w5 @ 41 # trim_end v"
      using trim_end_token [of 41 "w2 @ 34 # a @ 34 # w3 @ 44 # w4 @ ds @ w5" v] by simp
    moreover have "parse_counted C (w2 @ 34 # a @ 34 # w3 @ 44 # w4 @ ds @ w5 @ 41 # trim_end v) = Inr (p, trim_end v)"
      unfolding parse_counted_iff using 1
      by - (rule exI [of _ w2], rule exI [of _ a], rule exI [of _ w3], rule exI [of _ w4],
          rule exI [of _ ds], rule exI [of _ w5], simp)
    ultimately show ?case using 1 form_in_names(1)
      by (simp add: step parse_call_forms(1) parse_counted_trim)
  next
    case (2 name C w0 w1 w2 w3 a)
    have "trim_end (w2 @ 34 # a @ 34 # w3 @ 41 # v) = w2 @ 34 # a @ 34 # w3 @ 41 # trim_end v"
      using trim_end_token [of 41 "w2 @ 34 # a @ 34 # w3" v] by simp
    moreover have "parse_named C (w2 @ 34 # a @ 34 # w3 @ 41 # trim_end v) = Inr (p, trim_end v)"
      unfolding parse_named_iff using 2
      by - (rule exI [of _ w2], rule exI [of _ a], rule exI [of _ w3], simp)
    ultimately show ?case using 2 form_in_names(2)
      by (simp add: step parse_call_forms(2) parse_named_trim)
  next
    case (3 name C w0 w1 m x ps)
    then show ?case using form_in_names(3) list_complete [OF sub, of x ps "trim_end v" C]
      by (simp add: step parse_call_forms(3) trim_end_token)
  next
    case (4 w0 w1 m x q w2)
    have "trim_end (x @ w2 @ 41 # v) = x @ w2 @ 41 # trim_end v" using trim_end_token [of 41 "x @ w2" v] by simp
    then show ?case using 4 form_in_names(4) not_complete [OF sub, of x q w2 "trim_end v"]
      by (simp add: step parse_call_forms(4))
  qed
  then show ?case by (simp add: complete_parser_def expr_trims)
qed

section \<open>The parser returns\<close>

lemma item_shorter:
  assumes "sound_parser n f" "f (trim_start s) = Some (Inr (p, r))" "trim_start r = c # t"
  shows "length t < length s - 1"
proof -
  obtain u w where u: "s = u @ r @ w" "expr_text n u p" using assms(1,2) by (rule sound_parserD)
  obtain w' where "r = w' @ c # t" using trim_start_split [of r] assms(3) by metis
  moreover have "length u > 0" using expr_text_start(1) [OF u(2)] by simp
  ultimately show ?thesis using u(1) by simp
qed

lemma items_total:
  assumes "sound_parser n f" "\<And>s. f s \<noteq> None"
  shows "length s < k \<Longrightarrow> parse_items k f s acc \<noteq> None"
proof (induction k arbitrary: s acc)
  case (Suc k)
  have *: "parse_items k f t acc' \<noteq> None" if "f (trim_start s) = Some (Inr (p, r))" "trim_start r = c # t" for p r c t acc'
    using item_shorter [OF assms(1) that] Suc.prems by (intro Suc.IH) simp
  obtain x where "f (trim_start s) = Some x" using assms(2) by auto
  then show ?case using * by (cases x) (auto split: list.split)
qed simp

lemma opt_try_None_iff: "opt_try x g = None \<longleftrightarrow> x = None"
  by (cases x) simp_all

lemma expr_total: "parse_expr uni d s \<noteq> None"
proof (induction "max_dsl_depth - d" arbitrary: d s)
  case 0 then show ?case by (simp add: parse_expr.simps)
next
  case (Suc n)
  let ?f = "parse_expr uni (Suc d)"
  from Suc have sub: "?f t \<noteq> None" for t by (intro Suc.hyps(1)) simp
  then have "parse_items (Suc (length t)) ?f t [] \<noteq> None" for t by (intro items_total [OF expr_sound]) simp_all
  with sub have "parse_list ?f C t \<noteq> None" "parse_not ?f t \<noteq> None" for C t
    unfolding parse_list_def parse_not_def opt_try_None_iff by blast+
  then have "parse_call ?f name t \<noteq> None" for name t
    by (cases rule: parse_call_cases [of name ?f t]) simp_all
  then show ?case by (simp add: parse_expr.simps [of uni d] split: sum.split)
qed

section \<open>Properties\<close>

lemma parse_iff:
  assumes "spaces_apart uni"
  shows "parse uni s = Some (Inr p) \<longleftrightarrow> (\<exists>u v. s = u @ v \<and> expr_text max_dsl_depth u p)"
proof
  assume "parse uni s = Some (Inr p)"
  then obtain r where "parse_expr uni 0 (trim s) = Some (Inr (p, r))"
    by (auto simp: parse_def opt_try_Inr_iff)
  with expr_sound [of 0 uni] obtain u w where "trim s = u @ r @ w" "expr_text max_dsl_depth u p"
    unfolding sound_parser_def diff_zero by blast
  moreover obtain w0 w1 where "blank w0" "s = w0 @ trim s @ w1" using trim_split by blast
  ultimately have "s = (w0 @ u) @ (r @ w @ w1)" "expr_text max_dsl_depth (w0 @ u) p"
    using expr_text_blank by (metis append.assoc, blast)
  then show "\<exists>u v. s = u @ v \<and> expr_text max_dsl_depth u p" by blast
next
  assume "\<exists>u v. s = u @ v \<and> expr_text max_dsl_depth u p"
  then obtain u v where s: "s = u @ v" "expr_text max_dsl_depth u p" by blast
  then have "parse_expr uni 0 s = Some (Inr (p, trim_end v))"
    using expr_complete [OF assms, of 0 max_dsl_depth] unfolding complete_parser_def by simp
  moreover have "parse_expr uni 0 (trim s) = parse_expr uni 0 s"
    by (simp add: parse_expr.simps parse_head_def trim_idem)
  ultimately show "parse uni s = Some (Inr p)" by (simp add: parse_def)
qed

text \<open>C9: 
  The parser of the selection language always returns. It accepts a text exactly when some prefix of
  it is an expression of the documented grammar nested at most 32 deep, and then returns the
  predicate that the grammar gives that prefix.
\<close>

theorem parse_exact:
  assumes "spaces_apart uni"
  shows "(\<exists>r. parse uni s = Some r) \<and>
     (parse uni s = Some (Inr p) \<longleftrightarrow> (\<exists>u v. s = u @ v \<and> expr_text max_dsl_depth u p))"
proof
  have "parse uni s \<noteq> None" using expr_total unfolding parse_def opt_try_None_iff .
  then show "\<exists>r. parse uni s = Some r" by blast
qed (rule parse_iff [OF assms])

lemma ascii_spaces_apart: "spaces_apart (\<lambda>_. False)"
  by (auto simp: spaces_apart_def is_alphanumeric_def is_digit_def is_whitespace_def)

lemmas parser_defs = parse_def parse_expr.simps parse_head_def parse_call_def parse_ident_def trim_def trim_start_def
  trim_end_def parse_named_def parse_not_def parse_string_def eat_def codes_def ident_char_def is_alphanumeric_def
  is_digit_def is_whitespace_def Let_def max_dsl_depth_def

lemma parse_example:
  "parse (\<lambda>_. False) (codes ''not(any( \"a\" )) all(\"b\")'') = Some (Inr (PNot (PAny (codes ''a''))))"
  by (simp add: parser_defs)

theorem parse_exact_witness:
  "\<exists>u v. codes ''not(any( \"a\" )) all(\"b\")'' = u @ v \<and> expr_text max_dsl_depth u (PNot (PAny (codes ''a'')))"
  using parse_exact [OF ascii_spaces_apart, of "codes ''not(any( \"a\" )) all(\"b\")''" "PNot (PAny (codes ''a''))"]
    parse_example by blast

text \<open>
  Whatever follows a complete expression is ignored: text appended to an accepted input never
  changes the predicate.
\<close>

theorem trailing_text_ignored:
  assumes "spaces_apart uni" "parse uni s = Some (Inr p)"
  shows "parse uni (s @ t) = Some (Inr p)"
  using assms(2) unfolding parse_iff [OF assms(1)] by (metis append.assoc)

theorem trailing_text_ignored_witness:
  "parse (\<lambda>_. False) (codes ''not(any( \"a\" )) all(\"b\")'' @ codes '' or \"'') = Some (Inr (PNot (PAny (codes ''a''))))"
  using trailing_text_ignored [OF ascii_spaces_apart parse_example] .

fun nesting :: "predicate \<Rightarrow> nat" where
  "nesting (PAnd ps) = Suc (fold max (map nesting ps) 0)"
| "nesting (POr ps) = Suc (fold max (map nesting ps) 0)"
| "nesting (PNot p) = Suc (nesting p)"
| "nesting _ = 1"

fun counts_fit :: "predicate \<Rightarrow> bool" where
  "counts_fit (MinCount _ n) = (n < 2 ^ 64)"
| "counts_fit (MinDistinct _ n) = (n < 2 ^ 64)"
| "counts_fit (PAnd ps) = list_all counts_fit ps"
| "counts_fit (POr ps) = list_all counts_fit ps"
| "counts_fit (PNot p) = counts_fit p"
| "counts_fit _ = True"

lemma fold_max_le: "fold max ns (m :: nat) \<le> k \<longleftrightarrow> m \<le> k \<and> list_all (\<lambda>n. n \<le> k) ns"
  by (induction ns arbitrary: m) auto

lemma grammar_bounds:
  "expr_text n u p \<Longrightarrow> nesting p \<le> n \<and> counts_fit p"
  "items_text n u ps \<Longrightarrow> list_all (\<lambda>p. nesting p \<le> n \<and> counts_fit p) ps"
  by (induction rule: expr_text_items_text.inducts)
    (auto simp: counted_forms_def named_forms_def list_forms_def fold_max_le list_all_iff)

text \<open>
  An accepted predicate is nested at most 32 deep and its counts fit into 64 bits, whatever the
  input.
\<close>

theorem parsed_predicate_bounded:
  assumes "spaces_apart uni" "parse uni s = Some (Inr p)"
  shows "nesting p \<le> max_dsl_depth \<and> counts_fit p"
  using assms(2) unfolding parse_iff [OF assms(1)] by (auto dest: grammar_bounds(1))

theorem parsed_predicate_bounded_witness: "nesting (PNot (PAny (codes ''a''))) \<le> max_dsl_depth"
  using parsed_predicate_bounded [OF ascii_spaces_apart parse_example] by simp

end
