(* ===== verification/Data_Structures.thy ===== *)
theory Data_Structures
  imports Confium_Base
begin

unbundle bit_operations_syntax

text \<open>
  The data structures and key utilities of
  \<open>confium-observability/src/data_structures_and_utils.rs\<close>: Bloom filter, count-min sketch, ring
  buffer, HKDF, key wrapping, secure buffer, entropy monitor and the bounded channel. SHA-256,
  HMAC-SHA-256 and random bytes are arguments. The sizes that \<open>BloomFilter::new\<close> computes with
  floating-point logarithms are arguments of \<open>bloom_new\<close>, before the lower bounds the code puts on
  them.
\<close>

type_synonym hash = "bytes \<Rightarrow> bytes"
type_synonym mac = "bytes \<Rightarrow> bytes \<Rightarrow> bytes"

section \<open>Bloom filter\<close>

record bloom_filter =
  bits :: "u64 list"
  num_bits :: nat
  num_hashes :: nat
  item_count :: u64

definition bloom_new :: "nat \<Rightarrow> nat \<Rightarrow> bloom_filter" where
  "bloom_new nb nh =
     \<lparr> bits = replicate ((max nb 64 + 63) div 64) 0, num_bits = max nb 64, num_hashes = max nh 1, item_count = 0 \<rparr>"

definition ascii :: "string \<Rightarrow> bytes" where
  "ascii s = map of_char s"

definition double_hash :: "hash \<Rightarrow> bytes \<Rightarrow> u64 \<times> u64" where
  "double_hash sha d = (of_nat (be_nat (take 8 (sha (ascii ''h1'' @ d)))), of_nat (be_nat (take 8 (sha (ascii ''h2'' @ d)))))"

definition bloom_index :: "hash \<Rightarrow> bloom_filter \<Rightarrow> bytes \<Rightarrow> nat \<Rightarrow> nat" where
  "bloom_index sha b d i = (let (h1, h2) = double_hash sha d in unat (h1 + of_nat i * h2) mod num_bits b)"

definition set_index :: "nat \<Rightarrow> u64 list \<Rightarrow> u64 list" where
  "set_index idx ws = ws[idx div 64 := ws ! (idx div 64) OR push_bit (idx mod 64) 1]"

definition bloom_insert :: "hash \<Rightarrow> bytes \<Rightarrow> bloom_filter \<Rightarrow> bloom_filter" where
  "bloom_insert sha d b =
     b\<lparr> bits := fold (\<lambda>i. set_index (bloom_index sha b d i)) [0..<num_hashes b] (bits b),
        item_count := item_count b + 1 \<rparr>"

definition test_index :: "u64 list \<Rightarrow> nat \<Rightarrow> bool" where
  "test_index ws idx \<longleftrightarrow> ws ! (idx div 64) AND push_bit (idx mod 64) 1 \<noteq> 0"

definition bloom_contains :: "hash \<Rightarrow> bloom_filter \<Rightarrow> bytes \<Rightarrow> bool" where
  "bloom_contains sha b d \<longleftrightarrow> list_all (\<lambda>i. test_index (bits b) (bloom_index sha b d i)) [0..<num_hashes b]"

definition bloom_wf :: "bloom_filter \<Rightarrow> bool" where
  "bloom_wf b \<longleftrightarrow> 0 < num_bits b \<and> num_bits b \<le> 64 * length (bits b) \<and> 0 < num_hashes b"

lemma bloom_new_wf: "bloom_wf (bloom_new nb nh)"
  by (auto simp: bloom_wf_def bloom_new_def)

lemma length_set_index [simp]: "length (set_index idx ws) = length ws"
  by (simp add: set_index_def)

lemma length_fold_set [simp]: "length (fold (\<lambda>i. set_index (f i)) is ws) = length ws"
  by (induction "is" arbitrary: ws) simp_all

lemma bloom_insert_wf: "bloom_wf b \<Longrightarrow> bloom_wf (bloom_insert sha d b)"
  by (simp add: bloom_wf_def bloom_insert_def)

text \<open>Every index the filter computes lies inside its words, so no access panics.\<close>

lemma bloom_index_in_range:
  assumes "bloom_wf b" shows "bloom_index sha b d i div 64 < length (bits b)"
proof -
  have "bloom_index sha b d i < num_bits b" using assms by (simp add: bloom_wf_def bloom_index_def Let_def split: prod.split)
  then show ?thesis using assms by (simp add: bloom_wf_def less_mult_imp_div_less mult.commute)
qed

lemma test_index_bit: "test_index ws idx \<longleftrightarrow> bit (ws ! (idx div 64)) (idx mod 64)"
proof -
  have "(w AND push_bit k 1 = 0) \<longleftrightarrow> \<not> bit w k" for w :: u64 and k
    using bit_eq_iff [of "w AND push_bit k 1" 0] bit_imp_le_length [of w k] by (auto simp: bit_simps)
  then show ?thesis by (simp add: test_index_def)
qed

lemma bit_push_bit_1: "k < 64 \<Longrightarrow> bit (2 ^ k :: u64) n \<longleftrightarrow> n = k"
  by (auto simp: bit_simps)

lemma test_set_index:
  assumes "idx div 64 < length ws"
  shows "test_index (set_index idx ws) j \<longleftrightarrow> j = idx \<or> test_index ws j"
proof (cases "j div 64 = idx div 64")
  case True
  then have "j = idx \<longleftrightarrow> j mod 64 = idx mod 64" by (metis div_mult_mod_eq)
  with True assms show ?thesis by (auto simp: test_index_bit set_index_def bit_or_iff bit_push_bit_1)
next
  case False
  then have "j \<noteq> idx" by auto
  with False show ?thesis by (simp add: test_index_bit set_index_def)
qed

lemma test_fold_set:
  "\<forall>i \<in> set is. f i div 64 < length ws \<Longrightarrow>
     test_index (fold (\<lambda>i. set_index (f i)) is ws) j \<longleftrightarrow> j \<in> f ` set is \<or> test_index ws j"
  by (induction "is" arbitrary: ws) (auto simp: test_set_index)

lemma index_insert [simp]: "bloom_index sha (bloom_insert sha' d b) = bloom_index sha b"
  by (simp add: fun_eq_iff bloom_index_def bloom_insert_def)

lemma insert_fields [simp]:
  "bits (bloom_insert sha d b) = fold (\<lambda>i. set_index (bloom_index sha b d i)) [0..<num_hashes b] (bits b)"
  "num_hashes (bloom_insert sha d b) = num_hashes b"
  by (simp_all add: bloom_insert_def)

lemma contains_insert:
  assumes "bloom_wf b"
  shows "bloom_contains sha (bloom_insert sha d b) e \<longleftrightarrow>
    list_all (\<lambda>i. bloom_index sha b e i \<in> bloom_index sha b d ` {0..<num_hashes b} \<or>
      test_index (bits b) (bloom_index sha b e i)) [0..<num_hashes b]"
  using test_fold_set [of "[0..<num_hashes b]" "bloom_index sha b d" "bits b"] bloom_index_in_range [OF assms]
  by (simp add: bloom_contains_def)

lemma insert_contains: "bloom_wf b \<Longrightarrow> bloom_contains sha (bloom_insert sha d b) d"
  by (auto simp: contains_insert list_all_iff)

lemma insert_keeps: "bloom_wf b \<Longrightarrow> bloom_contains sha b e \<Longrightarrow> bloom_contains sha (bloom_insert sha d b) e"
  by (auto simp: contains_insert bloom_contains_def [of sha b] list_all_iff)

lemma inserts_wf: "bloom_wf b \<Longrightarrow> bloom_wf (fold (bloom_insert sha) ds b)"
  by (induction ds arbitrary: b) (simp_all add: bloom_insert_wf)

lemma inserts_keep:
  "bloom_wf b \<Longrightarrow> bloom_contains sha b e \<Longrightarrow> bloom_contains sha (fold (bloom_insert sha) ds b) e"
  by (induction ds arbitrary: b) (simp_all add: bloom_insert_wf insert_keeps)

text \<open>
  The Bloom filter has no false negatives: whatever was inserted is reported as contained after any
  further insertions. A fresh filter contains nothing.
\<close>

theorem bloom_no_false_negatives:
  assumes "d \<in> set ds"
  shows "bloom_contains sha (fold (bloom_insert sha) ds (bloom_new nb nh)) d \<and> \<not> bloom_contains sha (bloom_new nb nh) e"
proof
  from assms obtain xs ys where "ds = xs @ d # ys" by (auto dest: split_list)
  then show "bloom_contains sha (fold (bloom_insert sha) ds (bloom_new nb nh)) d"
    by (simp add: inserts_keep insert_contains bloom_insert_wf inserts_wf bloom_new_wf)
  have "\<not> test_index (bits (bloom_new nb nh)) (bloom_index sha (bloom_new nb nh) e 0)"
    using bloom_index_in_range [OF bloom_new_wf, of sha nb nh e 0] by (simp add: test_index_bit bloom_new_def)
  then show "\<not> bloom_contains sha (bloom_new nb nh) e"
    by (auto simp: bloom_contains_def list_all_iff bloom_new_def)
qed

theorem bloom_no_false_negatives_witness:
  "bloom_contains (\<lambda>d. d) (fold (bloom_insert (\<lambda>d. d)) [[1], [2, 3]] (bloom_new 100 3)) [2, 3]"
  using bloom_no_false_negatives [of "[2, 3]" "[[1], [2, 3]]" "\<lambda>d. d" 100 3] by simp

section \<open>Count-min sketch\<close>

record count_min_sketch =
  cms_table :: "u64 list list"
  cms_width :: nat
  cms_depth :: nat

definition cms_new :: "nat \<Rightarrow> nat \<Rightarrow> count_min_sketch" where
  "cms_new w d = \<lparr> cms_table = replicate d (replicate w 0), cms_width = w, cms_depth = d \<rparr>"

definition hash_at_depth :: "hash \<Rightarrow> bytes \<Rightarrow> nat \<Rightarrow> nat \<Rightarrow> nat" where
  "hash_at_depth sha x d w = unat (of_nat (be_nat (take 8 (sha (be_bytes 8 d @ x)))) :: u64) mod w"

text \<open>A remainder by the width zero panics; it is reached as soon as there is a row.\<close>

definition cms_add :: "hash \<Rightarrow> bytes \<Rightarrow> u64 \<Rightarrow> count_min_sketch \<Rightarrow> count_min_sketch option" where
  "cms_add sha x n s =
     (if cms_table s \<noteq> [] \<and> cms_width s = 0 then None
      else Some (s\<lparr> cms_table := map (\<lambda>(d, row). let i = hash_at_depth sha x d (cms_width s) in row[i := row ! i + n])
                     (enumerate 0 (cms_table s)) \<rparr>))"

definition cms_cells :: "hash \<Rightarrow> bytes \<Rightarrow> count_min_sketch \<Rightarrow> u64 list" where
  "cms_cells sha x s = map (\<lambda>(d, row). row ! hash_at_depth sha x d (cms_width s)) (enumerate 0 (cms_table s))"

definition cms_estimate :: "hash \<Rightarrow> bytes \<Rightarrow> count_min_sketch \<Rightarrow> u64 option" where
  "cms_estimate sha x s =
     (if cms_table s \<noteq> [] \<and> cms_width s = 0 then None
      else Some (if cms_table s = [] then 0 else fold min (tl (cms_cells sha x s)) (hd (cms_cells sha x s))))"

fun cms_adds :: "hash \<Rightarrow> (bytes \<times> u64) list \<Rightarrow> count_min_sketch \<Rightarrow> count_min_sketch option" where
  "cms_adds sha [] s = Some s"
| "cms_adds sha ((x, n) # xs) s = (case cms_add sha x n s of None \<Rightarrow> None | Some s' \<Rightarrow> cms_adds sha xs s')"

definition cms_wf :: "count_min_sketch \<Rightarrow> bool" where
  "cms_wf s \<longleftrightarrow> 0 < cms_width s \<and> length (cms_table s) = cms_depth s \<and> list_all (\<lambda>row. length row = cms_width s) (cms_table s)"

text \<open>The number of additions that meet \<open>x\<close> in row \<open>d\<close>, and the number of those of \<open>x\<close> itself.\<close>

definition met :: "hash \<Rightarrow> nat \<Rightarrow> nat \<Rightarrow> (bytes \<times> u64) list \<Rightarrow> nat \<Rightarrow> nat" where
  "met sha w d xs i = (\<Sum>(y, n) \<leftarrow> xs. if hash_at_depth sha y d w = i then unat n else 0)"

definition added :: "(bytes \<times> u64) list \<Rightarrow> bytes \<Rightarrow> nat" where
  "added xs x = (\<Sum>(y, n) \<leftarrow> xs. if y = x then unat n else 0)"

definition all_counts :: "(bytes \<times> u64) list \<Rightarrow> nat" where
  "all_counts xs = (\<Sum>(y, n) \<leftarrow> xs. unat n)"

lemma hash_in_width: "0 < w \<Longrightarrow> hash_at_depth sha x d w < w"
  by (simp add: hash_at_depth_def)

lemma cms_add_wf:
  assumes "cms_wf s"
  obtains s' where "cms_add sha x n s = Some s'" "cms_wf s'" "cms_width s' = cms_width s" "cms_depth s' = cms_depth s"
    "\<And>d i. d < cms_depth s \<Longrightarrow> i < cms_width s \<Longrightarrow>
       cms_table s' ! d ! i = cms_table s ! d ! i + (if hash_at_depth sha x d (cms_width s) = i then n else 0)"
proof -
  let ?t = "map (\<lambda>(d, row). let i = hash_at_depth sha x d (cms_width s) in row[i := row ! i + n]) (enumerate 0 (cms_table s))"
  have "cms_add sha x n s = Some (s\<lparr> cms_table := ?t \<rparr>)" using assms by (simp add: cms_add_def cms_wf_def)
  moreover have "cms_wf (s\<lparr> cms_table := ?t \<rparr>)"
    using assms by (auto simp: cms_wf_def list_all_length nth_enumerate_eq Let_def)
  moreover have "?t ! d ! i = cms_table s ! d ! i + (if hash_at_depth sha x d (cms_width s) = i then n else 0)"
    if "d < cms_depth s" "i < cms_width s" for d i
    using assms that by (auto simp: cms_wf_def list_all_length nth_enumerate_eq Let_def nth_list_update)
  ultimately show thesis by (intro that [of "s\<lparr> cms_table := ?t \<rparr>"]) (simp_all del: map_eq_conv)
qed

lemma cms_adds_cells:
  assumes "cms_wf s"
  shows "\<exists>s'. cms_adds sha xs s = Some s' \<and> cms_wf s' \<and> cms_width s' = cms_width s \<and> cms_depth s' = cms_depth s \<and>
    (\<forall>d < cms_depth s. \<forall>i < cms_width s.
       cms_table s' ! d ! i = cms_table s ! d ! i + of_nat (met sha (cms_width s) d xs i))"
  using assms
proof (induction xs arbitrary: s)
  case Nil then show ?case by (simp add: met_def)
next
  case (Cons p xs)
  obtain x n where p: "p = (x, n)" by (cases p)
  obtain t where t: "cms_add sha x n s = Some t" "cms_wf t" "cms_width t = cms_width s" "cms_depth t = cms_depth s"
    "\<And>d i. d < cms_depth s \<Longrightarrow> i < cms_width s \<Longrightarrow>
       cms_table t ! d ! i = cms_table s ! d ! i + (if hash_at_depth sha x d (cms_width s) = i then n else 0)"
    using cms_add_wf [OF Cons.prems] by blast
  obtain u where "cms_adds sha xs t = Some u" "cms_wf u" "cms_width u = cms_width s" "cms_depth u = cms_depth s"
    "\<forall>d < cms_depth s. \<forall>i < cms_width s. cms_table u ! d ! i = cms_table t ! d ! i + of_nat (met sha (cms_width s) d xs i)"
    using Cons.IH [OF t(2)] t(3,4) by auto
  then show ?case using t p by (intro exI [of _ u]) (auto simp: met_def)
qed

lemma added_le_met: "added xs x \<le> met sha w d xs (hash_at_depth sha x d w)"
  by (induction xs) (auto simp: added_def met_def)

lemma met_le_all: "met sha w d xs i \<le> all_counts xs"
  by (induction xs) (auto simp: met_def all_counts_def)

lemma cms_new_wf: "0 < w \<Longrightarrow> cms_wf (cms_new w d)"
  by (simp add: cms_wf_def cms_new_def list_all_length)

lemma fold_min_Min: "ws \<noteq> [] \<Longrightarrow> fold min (tl ws) (hd ws) = Min (set ws)" for ws :: "u64 list"
  by (cases ws) (simp_all add: Min.set_eq_fold del: list.set)

lemma unat_Min: "finite A \<Longrightarrow> A \<noteq> {} \<Longrightarrow> unat (Min A) = Min (unat ` A)" for A :: "u64 set"
  by (rule mono_Min_commute) (simp_all add: mono_def word_le_nat_alt)

text \<open>
  The estimate of the count-min sketch is the smallest, over its rows, of the sums of the counts
  whose items fall into the same cell. It therefore never falls below the true count, as long as
  the counts together fit into 64 bits.
\<close>

theorem cms_never_underestimates:
  assumes "0 < w" "0 < d" "all_counts xs < 2 ^ 64"
  shows "\<exists>s e. cms_adds sha xs (cms_new w d) = Some s \<and> cms_estimate sha x s = Some e \<and>
     unat e = Min ((\<lambda>r. met sha w r xs (hash_at_depth sha x r w)) ` {..<d}) \<and>
     added xs x \<le> unat e \<and> unat e \<le> all_counts xs"
proof -
  let ?m = "\<lambda>r. met sha w r xs (hash_at_depth sha x r w)"
  obtain s where s: "cms_adds sha xs (cms_new w d) = Some s" "cms_wf s" "cms_width s = w" "cms_depth s = d"
    "\<forall>r < d. \<forall>i < w. cms_table s ! r ! i = of_nat (met sha w r xs i)"
    using cms_adds_cells [OF cms_new_wf [OF assms(1)], of sha xs d] by (auto simp: cms_new_def)
  then have len: "length (cms_table s) = d" by (simp add: cms_wf_def)
  have cells: "cms_cells sha x s = map (\<lambda>r. of_nat (?m r)) [0..<d]"
    by (rule nth_equalityI) (use s len hash_in_width [OF assms(1)] in \<open>auto simp: cms_cells_def nth_enumerate_eq\<close>)
  have small: "unat (of_nat (?m r) :: u64) = ?m r" for r
    using le_less_trans [OF met_le_all assms(3)] by (simp add: unat_of_nat)
  let ?e = "Min (set (cms_cells sha x s))"
  have "cms_cells sha x s \<noteq> []" using cells assms(2) by simp
  then have "cms_estimate sha x s = Some ?e"
    using s(3) assms(1) len assms(2) by (auto simp: cms_estimate_def fold_min_Min)
  moreover have e: "unat ?e = Min (?m ` {..<d})"
    using assms(2) by (simp add: cells unat_Min image_image small lessThan_atLeast0 lessThan_empty_iff)
  moreover have "added xs x \<le> unat ?e"
    unfolding e using assms(2) by (intro Min.boundedI) (auto simp: added_le_met)
  moreover have "unat ?e \<le> all_counts xs"
    unfolding e using assms(2) by (intro order_trans [OF Min_le met_le_all]) auto
  ultimately show ?thesis using s(1) by blast
qed

theorem cms_never_underestimates_witness:
  "\<exists>s e. cms_adds (\<lambda>d. d) [([1], 2), ([3], 1), ([1], 4)] (cms_new 3 2) = Some s \<and>
     cms_estimate (\<lambda>d. d) [1] s = Some e \<and> 6 \<le> unat e"
  using cms_never_underestimates [of 3 2 "[([1], 2), ([3], 1), ([1], 4)]" "\<lambda>d. d" "[1]"]
  by (auto simp: all_counts_def added_def)

section \<open>Ring buffer\<close>

record 'a ring_buffer =
  ring :: "'a list"
  ring_capacity :: nat

definition ring_new :: "nat \<Rightarrow> 'a ring_buffer" where
  "ring_new n = \<lparr> ring = [], ring_capacity = n \<rparr>"

definition ring_push :: "'a \<Rightarrow> 'a ring_buffer \<Rightarrow> 'a ring_buffer" where
  "ring_push x r = r\<lparr> ring := (if ring_capacity r \<le> length (ring r) then drop 1 (ring r) else ring r) @ [x] \<rparr>"

definition ring_latest :: "'a ring_buffer \<Rightarrow> 'a option" where
  "ring_latest r = (if ring r = [] then None else Some (last (ring r)))"

definition ring_oldest :: "'a ring_buffer \<Rightarrow> 'a option" where
  "ring_oldest r = (if ring r = [] then None else Some (hd (ring r)))"

definition ring_full :: "'a ring_buffer \<Rightarrow> bool" where
  "ring_full r \<longleftrightarrow> length (ring r) = ring_capacity r"

definition ring_clear :: "'a ring_buffer \<Rightarrow> 'a ring_buffer" where
  "ring_clear r = r\<lparr> ring := [] \<rparr>"

lemma ring_pushes:
  "0 < n \<Longrightarrow> fold ring_push xs \<lparr> ring = [], ring_capacity = n \<rparr> = \<lparr> ring = drop (length xs - n) xs, ring_capacity = n \<rparr>"
proof (induction xs rule: rev_induct)
  case (snoc x xs)
  have "drop 1 (drop (length xs - n) xs) = drop (Suc (length xs) - n) xs" if "n \<le> length xs"
    using that by (simp add: Suc_diff_le)
  with snoc show ?case by (auto simp: ring_push_def)
qed simp

text \<open>
  A ring buffer of positive capacity holds exactly the most recent items, in order: the last item
  pushed is the latest one, and the buffer never grows past its capacity.
\<close>

theorem ring_keeps_most_recent:
  assumes "0 < n"
  shows "ring (fold ring_push xs (ring_new n)) = drop (length xs - n) xs \<and>
     length (ring (fold ring_push xs (ring_new n))) \<le> n \<and>
     ring_latest (fold ring_push (xs @ [x]) (ring_new n)) = Some x"
  using ring_pushes [OF assms, of xs] by (auto simp: ring_new_def ring_latest_def ring_push_def)

theorem ring_keeps_most_recent_witness: "ring (fold ring_push [1, 2, 3, 4] (ring_new 3)) = [2, 3, 4 :: nat]"
  using ring_keeps_most_recent [of 3 "[1, 2, 3, 4 :: nat]" 0] by simp

section \<open>HKDF\<close>

definition hkdf_sha256_max_output :: nat where
  "hkdf_sha256_max_output = 255 * 32"

datatype hkdf_error = OutputTooLong nat nat

definition hkdf_extract :: "mac \<Rightarrow> bytes \<Rightarrow> bytes \<Rightarrow> bytes" where
  "hkdf_extract hmac salt ikm = hmac (if salt = [] then replicate 32 0 else salt) ikm"

text \<open>The loop with its 16-bit counter. It has fuel; \<open>None\<close> stands for fuel running out.\<close>

fun hkdf_loop :: "nat \<Rightarrow> mac \<Rightarrow> bytes \<Rightarrow> bytes \<Rightarrow> nat \<Rightarrow> bytes \<Rightarrow> bytes \<Rightarrow> 16 word \<Rightarrow> bytes option" where
  "hkdf_loop 0 hmac prk info len out prev counter = None"
| "hkdf_loop (Suc k) hmac prk info len out prev counter =
     (if length out < len then
        (let block = hmac prk (prev @ info @ [ucast counter])
         in hkdf_loop k hmac prk info len (out @ take (min (length block) (len - length out)) block) block (counter + 1))
      else Some out)"

definition hkdf_expand :: "mac \<Rightarrow> bytes \<Rightarrow> bytes \<Rightarrow> nat \<Rightarrow> (hkdf_error + bytes) option" where
  "hkdf_expand hmac prk info len =
     (if hkdf_sha256_max_output < len then Some (Inl (OutputTooLong len hkdf_sha256_max_output))
      else map_option Inr (hkdf_loop 256 hmac prk info len [] [] 1))"

definition hkdf :: "mac \<Rightarrow> bytes \<Rightarrow> bytes \<Rightarrow> bytes \<Rightarrow> nat \<Rightarrow> (hkdf_error + bytes) option" where
  "hkdf hmac salt ikm info len = hkdf_expand hmac (hkdf_extract hmac salt ikm) info len"

text \<open>The blocks of RFC 5869: \<open>T(0)\<close> is empty and \<open>T(i) = HMAC(prk, T(i - 1) | info | i)\<close>.\<close>

fun hkdf_block :: "mac \<Rightarrow> bytes \<Rightarrow> bytes \<Rightarrow> nat \<Rightarrow> bytes" where
  "hkdf_block hmac prk info 0 = []"
| "hkdf_block hmac prk info (Suc i) = hmac prk (hkdf_block hmac prk info i @ info @ [of_nat (Suc i)])"

definition hkdf_blocks :: "mac \<Rightarrow> bytes \<Rightarrow> bytes \<Rightarrow> nat \<Rightarrow> bytes" where
  "hkdf_blocks hmac prk info n = concat (map (\<lambda>i. hkdf_block hmac prk info (Suc i)) [0..<n])"

lemma hkdf_blocks_Suc:
  "hkdf_blocks hmac prk info (Suc n) = hkdf_blocks hmac prk info n @ hkdf_block hmac prk info (Suc n)"
  by (simp add: hkdf_blocks_def)

lemma length_hkdf_blocks:
  assumes "\<And>k m. length (hmac k m) = 32" shows "length (hkdf_blocks hmac prk info n) = 32 * n"
  by (induction n) (simp_all add: hkdf_blocks_Suc assms, simp add: hkdf_blocks_def)

lemma counter_byte: "i < 256 \<Longrightarrow> (ucast (of_nat i :: 16 word) :: u8) = of_nat i"
  by (simp add: unsigned_of_nat take_bit_eq_mod)

lemma hkdf_loop_blocks:
  assumes h: "\<And>k m. length (hmac k m) = 32" and "n \<le> 255" "len \<le> 32 * 255" "255 - n < k"
  shows "hkdf_loop k hmac prk info len (take len (hkdf_blocks hmac prk info n)) (hkdf_block hmac prk info n) (of_nat (Suc n))
    = Some (take len (hkdf_blocks hmac prk info 255))"
  using assms(2-)
proof (induction k arbitrary: n)
  case (Suc k)
  let ?b = "hkdf_blocks hmac prk info n"
  have len: "length ?b = 32 * n" using h by (rule length_hkdf_blocks)
  show ?case
  proof (cases "32 * n < len")
    case True
    with Suc.prems have n: "n < 255" by linarith
    let ?block = "hmac prk (hkdf_block hmac prk info n @ info @ [ucast (of_nat (Suc n) :: 16 word)])"
    have b: "?block = hkdf_block hmac prk info (Suc n)" using n counter_byte [of "Suc n"] by simp
    have "take len ?b @ take (min (length ?block) (len - length (take len ?b))) ?block =
        take len (hkdf_blocks hmac prk info (Suc n))"
      unfolding b hkdf_blocks_Suc using len True by (simp add: min_def)
    with Suc.IH [of "Suc n"] Suc.prems n True len b show ?thesis by (simp add: Let_def add.commute)
  next
    case False
    have "\<exists>r. hkdf_blocks hmac prk info 255 = ?b @ r"
      unfolding hkdf_blocks_def using Suc.prems(1) upt_add_eq_append [of 0 n "255 - n"] by auto
    with False len show ?thesis by auto
  qed
qed simp

text \<open>C32: 
  HKDF expansion always returns. It rejects exactly the lengths above the limit of RFC 5869, and
  otherwise yields the first \<open>len\<close> bytes of the blocks \<open>T(1)\<close> to \<open>T(255)\<close> of the standard; the
  block counter never wraps.
\<close>

theorem hkdf_expand_meets_rfc:
  assumes "\<And>k m. length (hmac k m) = 32"
  shows "hkdf_expand hmac prk info len =
     Some (if 8160 < len then Inl (OutputTooLong len 8160) else Inr (take len (hkdf_blocks hmac prk info 255))) \<and>
     (len \<le> 8160 \<longrightarrow> length (take len (hkdf_blocks hmac prk info 255)) = len)"
proof -
  have "hkdf_loop 256 hmac prk info len [] [] 1 = Some (take len (hkdf_blocks hmac prk info 255))" if "len \<le> 8160"
    using hkdf_loop_blocks [where hmac = hmac and n = 0 and len = len and k = 256 and prk = prk and info = info] assms that by (simp add: hkdf_blocks_def)
  then show ?thesis using length_hkdf_blocks [of hmac prk info 255] assms
    by (simp add: hkdf_expand_def hkdf_sha256_max_output_def del: hkdf_loop.simps)
qed

theorem hkdf_expand_meets_rfc_witness:
  "hkdf_expand (\<lambda>k m. replicate 32 7) [] [] 40 = Some (Inr (take 40 (hkdf_blocks (\<lambda>k m. replicate 32 7) [] [] 255)))"
  using hkdf_expand_meets_rfc [of "\<lambda>k m. replicate 32 7" "[]" "[]" 40] by simp

section \<open>Key wrapping\<close>

definition mask_key :: "bytes \<Rightarrow> bytes \<Rightarrow> bytes" where
  "mask_key kek xs = map (\<lambda>(i, b). b XOR kek ! (i mod 32)) (enumerate 0 xs)"

definition key_wrap :: "mac \<Rightarrow> bytes \<Rightarrow> bytes \<Rightarrow> bytes" where
  "key_wrap hmac kek plaintext = mask_key kek plaintext @ take 16 (hmac kek plaintext)"

definition key_unwrap :: "mac \<Rightarrow> bytes \<Rightarrow> bytes \<Rightarrow> bytes option" where
  "key_unwrap hmac kek wrapped =
     (if length wrapped < 16 then None
      else let body = take (length wrapped - 16) wrapped;
               tag = drop (length wrapped - 16) wrapped;
               unwrapped = mask_key kek body
           in if tag = take 16 (hmac kek unwrapped) then Some unwrapped else None)"

lemma length_mask [simp]: "length (mask_key kek xs) = length xs"
  by (simp add: mask_key_def)

lemma nth_mask: "i < length xs \<Longrightarrow> mask_key kek xs ! i = xs ! i XOR kek ! (i mod 32)"
  by (simp add: mask_key_def nth_enumerate_eq)

lemma mask_mask [simp]: "mask_key kek (mask_key kek xs) = xs"
  by (rule nth_equalityI) (simp_all add: nth_mask xor.assoc)

text \<open>C33: 
  Unwrapping returns a key exactly when the input is the wrapping of that key, so wrapping and
  unwrapping are inverse and every other input is rejected.
\<close>

theorem key_unwrap_iff:
  assumes "\<And>k m. length (hmac k m) = 32"
  shows "key_unwrap hmac kek w = Some p \<longleftrightarrow> w = key_wrap hmac kek p"
proof
  assume "key_unwrap hmac kek w = Some p"
  then have "p = mask_key kek (take (length w - 16) w)" "drop (length w - 16) w = take 16 (hmac kek p)"
    by (auto simp: key_unwrap_def Let_def split: if_splits)
  then show "w = key_wrap hmac kek p" by (metis append_take_drop_id key_wrap_def mask_mask)
qed (simp add: key_unwrap_def key_wrap_def assms)

theorem key_unwrap_iff_witness:
  "key_unwrap (\<lambda>k m. replicate 32 7) (replicate 32 1) (key_wrap (\<lambda>k m. replicate 32 7) (replicate 32 1) [3, 4]) = Some [3, 4]"
  using key_unwrap_iff [of "\<lambda>k m. replicate 32 7" "replicate 32 1"
      "key_wrap (\<lambda>k m. replicate 32 7) (replicate 32 1) [3, 4]" "[3, 4]"] by simp

text \<open>
  The mask is the wrapping key itself: wrapping 32 zero bytes yields the wrapping key in the clear,
  and the wrappings of two keys differ exactly where the keys do.
\<close>

theorem key_wrap_reveals_kek:
  assumes "length kek = 32" "length p = length q"
  shows "take 32 (key_wrap hmac kek (replicate 32 0)) = kek \<and>
     map2 (XOR) (take (length p) (key_wrap hmac kek p)) (take (length q) (key_wrap hmac kek q)) = map2 (XOR) p q"
proof
  show "take 32 (key_wrap hmac kek (replicate 32 0)) = kek"
    using assms(1) by (intro nth_equalityI) (simp_all add: key_wrap_def nth_append nth_mask)
  show "map2 (XOR) (take (length p) (key_wrap hmac kek p)) (take (length q) (key_wrap hmac kek q)) = map2 (XOR) p q"
    using assms(2) by (intro nth_equalityI) (simp_all add: key_wrap_def nth_mask bit_eq_iff bit_xor_iff, blast)
qed

theorem key_wrap_reveals_kek_witness: "take 32 (key_wrap (\<lambda>k m. []) (replicate 32 9) (replicate 32 0)) = replicate 32 9"
  using key_wrap_reveals_kek [of "replicate 32 9" "[]" "[]" "\<lambda>k m. []"] by simp

section \<open>Secure buffer and entropy monitor\<close>

definition secure_overwrite :: "bytes \<Rightarrow> bytes \<Rightarrow> bytes" where
  "secure_overwrite rnd data = take (length data) rnd"

record secure_buffer =
  secret :: bytes
  zeroized :: bool

definition buffer_new :: "bytes \<Rightarrow> secure_buffer" where
  "buffer_new data = \<lparr> secret = data, zeroized = False \<rparr>"

definition zeroize :: "bytes \<Rightarrow> secure_buffer \<Rightarrow> secure_buffer" where
  "zeroize rnd b = (if zeroized b then b else \<lparr> secret = secure_overwrite rnd (secret b), zeroized = True \<rparr>)"

lemma zeroize_idem: "zeroize r' (zeroize r b) = zeroize r b"
  by (simp add: zeroize_def)

lemma zeroize_forgets: "length x = length y \<Longrightarrow> zeroize r (buffer_new x) = zeroize r (buffer_new y)"
  by (simp add: zeroize_def buffer_new_def secure_overwrite_def)

record entropy_monitor =
  samples :: "u32 list"
  max_samples :: nat
  min_threshold :: u32
  alerts :: u64

definition monitor_new :: "nat \<Rightarrow> u32 \<Rightarrow> entropy_monitor" where
  "monitor_new n t = \<lparr> samples = [], max_samples = n, min_threshold = t, alerts = 0 \<rparr>"

definition record_entropy :: "u32 \<Rightarrow> entropy_monitor \<Rightarrow> entropy_monitor" where
  "record_entropy e m =
     m\<lparr> samples := (if max_samples m \<le> length (samples m) then drop 1 (samples m) else samples m) @ [e],
        alerts := (if e < min_threshold m then alerts m + 1 else alerts m) \<rparr>"

definition monitor_latest :: "entropy_monitor \<Rightarrow> u32 option" where
  "monitor_latest m = (if samples m = [] then None else Some (last (samples m)))"

definition is_low :: "entropy_monitor \<Rightarrow> bool" where
  "is_low m = (case monitor_latest m of Some e \<Rightarrow> e < min_threshold m | None \<Rightarrow> False)"

lemma record_entropies:
  "alerts (fold record_entropy es m) = alerts m + of_nat (length (filter (\<lambda>e. e < min_threshold m) es)) \<and>
   min_threshold (fold record_entropy es m) = min_threshold m"
  by (induction es arbitrary: m) (auto simp: record_entropy_def)

section \<open>The bounded channel\<close>

text \<open>
  One sender and one receiver share a buffer behind a lock. The receiver takes an item under the
  lock and counts it afterwards, so the two are separate steps that the sender can come between.
\<close>

record 'a spsc =
  spsc_buffer :: "'a list"
  spsc_capacity :: nat
  total_sent :: u64
  total_received :: u64
  uncounted :: bool

definition spsc_channel :: "nat \<Rightarrow> 'a spsc" where
  "spsc_channel n = \<lparr> spsc_buffer = [], spsc_capacity = n, total_sent = 0, total_received = 0, uncounted = False \<rparr>"

definition spsc_send :: "'a \<Rightarrow> 'a spsc \<Rightarrow> bool \<times> 'a spsc" where
  "spsc_send x c =
     (if spsc_capacity c \<le> length (spsc_buffer c) then (False, c)
      else (True, c\<lparr> spsc_buffer := spsc_buffer c @ [x], total_sent := total_sent c + 1 \<rparr>))"

definition spsc_take :: "'a spsc \<Rightarrow> 'a option \<times> 'a spsc" where
  "spsc_take c =
     (case spsc_buffer c of
        [] \<Rightarrow> (None, c)
      | x # xs \<Rightarrow> (Some x, c\<lparr> spsc_buffer := xs, uncounted := True \<rparr>))"

definition spsc_count :: "'a spsc \<Rightarrow> 'a spsc" where
  "spsc_count c = c\<lparr> total_received := total_received c + 1, uncounted := False \<rparr>"

text \<open>Histories: the channel with the items sent and the items received so far.\<close>

inductive spsc_run :: "nat \<Rightarrow> 'a list \<Rightarrow> 'a list \<Rightarrow> 'a spsc \<Rightarrow> bool" for n where
  start: "spsc_run n [] [] (spsc_channel n)"
| sent: "spsc_run n ss rs c \<Longrightarrow> spsc_send x c = (True, c') \<Longrightarrow> spsc_run n (ss @ [x]) rs c'"
| refused: "spsc_run n ss rs c \<Longrightarrow> spsc_send x c = (False, c') \<Longrightarrow> spsc_run n ss rs c'"
| taken: "spsc_run n ss rs c \<Longrightarrow> \<not> uncounted c \<Longrightarrow> spsc_take c = (Some x, c') \<Longrightarrow> spsc_run n ss (rs @ [x]) c'"
| none_taken: "spsc_run n ss rs c \<Longrightarrow> \<not> uncounted c \<Longrightarrow> spsc_take c = (None, c') \<Longrightarrow> spsc_run n ss rs c'"
| counted: "spsc_run n ss rs c \<Longrightarrow> uncounted c \<Longrightarrow> spsc_run n ss rs (spsc_count c)"

text \<open>C35: 
  In every interleaving the receiver gets the items the sender sent, in order and without loss or
  duplication; the items not yet received are the buffer, which never exceeds the capacity; and
  the counters count them, the receiver's lagging by at most the item just taken.
\<close>

theorem spsc_fifo:
  assumes "spsc_run n ss rs c"
  shows "ss = rs @ spsc_buffer c \<and> length (spsc_buffer c) \<le> n \<and> total_sent c = of_nat (length ss) \<and>
     total_received c + of_bool (uncounted c) = of_nat (length rs) \<and> spsc_capacity c = n"
  using assms
proof induction
  case start show ?case by (simp add: spsc_channel_def)
qed (auto simp: spsc_send_def spsc_take_def spsc_count_def split: if_splits list.splits)

theorem spsc_fifo_witness: "[1] = [1 :: nat] @ spsc_buffer (snd (spsc_take (snd (spsc_send 1 (spsc_channel 2)))))"
proof -
  have "spsc_run 2 ([] @ [1 :: nat]) [] (snd (spsc_send 1 (spsc_channel 2)))"
    by (rule sent [OF start]) (simp add: spsc_send_def spsc_channel_def)
  then have "spsc_run 2 [1 :: nat] ([] @ [1]) (snd (spsc_take (snd (spsc_send 1 (spsc_channel 2)))))"
    by - (rule taken, simp, simp_all add: spsc_send_def spsc_channel_def spsc_take_def)
  from spsc_fifo [OF this] show ?thesis by simp
qed

end
