(* ===== verification/Ordered_Map.thy ===== *)
theory Ordered_Map
  imports Confium_Base "HOL-Library.Char_ord" "HOL-Library.List_Lexorder"
begin

text \<open>
  Rust's ordered map \<open>BTreeMap\<close>, which the trust model iterates in key order.  It is kept as the
  list of its bindings in strictly increasing key order: lookup is \<^const>\<open>map_of\<close>, iteration is the list
  itself, and \<open>bt_insert\<close> puts a binding at its place, replacing an equal key.  Strings compare
  lexicographically by character code, as Rust's \<open>Ord for str\<close> does on the bytes.
\<close>

type_synonym ('k, 'v) btree_map = "('k \<times> 'v) list"

fun bt_insert :: "'k :: linorder \<Rightarrow> 'v \<Rightarrow> ('k, 'v) btree_map \<Rightarrow> ('k, 'v) btree_map" where
  "bt_insert k v [] = [(k, v)]"
| "bt_insert k v ((k', v') # m) =
     (if k < k' then (k, v) # (k', v') # m
      else if k = k' then (k, v) # m
      else (k', v') # bt_insert k v m)"

definition bt_wf :: "('k :: linorder, 'v) btree_map \<Rightarrow> bool" where
  "bt_wf m \<longleftrightarrow> sorted_wrt (<) (map fst m)"

lemma bt_wf_Nil [simp, intro]: "bt_wf []"
  by (simp add: bt_wf_def)

lemma bt_keys_insert: "set (map fst (bt_insert k v m)) = insert k (set (map fst m))"
  by (induction k v m rule: bt_insert.induct) auto

lemma bt_wf_insert [simp, intro]: "bt_wf m \<Longrightarrow> bt_wf (bt_insert k v m)"
proof (induction k v m rule: bt_insert.induct)
  case (2 k v k' v' m)
  then show ?case
    using bt_keys_insert [of k v m] by (auto simp: bt_wf_def)
qed (simp add: bt_wf_def)

lemma bt_wf_hm: "bt_wf m \<Longrightarrow> hm_wf m"
  unfolding bt_wf_def hm_wf_def by (simp add: strict_sorted_iff)

lemma bt_get_insert:
  "bt_wf m \<Longrightarrow> hm_get (bt_insert k v m) k' = (if k' = k then Some v else hm_get m k')"
proof (induction k v m rule: bt_insert.induct)
  case (2 k v a b m)
  then show ?case
    by (auto simp: bt_wf_def split: if_splits)
qed auto

lemma bt_length_insert:
  "bt_wf m \<Longrightarrow> length (bt_insert k v m) = (if hm_get m k = None then Suc (length m) else length m)"
proof (induction k v m rule: bt_insert.induct)
  case (2 k v a b m)
  then show ?case
    by (auto simp: bt_wf_def map_of_eq_None_iff)
qed auto

end
