(* ===== verification/Scope.thy ===== *)
theory Scope
  imports Ordered_Map "HOL-Library.FSet"
begin

text \<open>
  The authorization scopes of \<open>confium-signatif/src/scope.rs\<close>: values of one dimension and their lattice
  order, scopes with five named dimensions and a map of extension dimensions, and the narrowing check
  applied at each delegation link.  The scope conditions are JSON values of an external crate and stay a
  type parameter.
\<close>

section \<open>One dimension\<close>

datatype scope_value = Wildcard | ScopeSet "string fset" | Single string

fun value_narrows_within :: "scope_value \<Rightarrow> scope_value \<Rightarrow> bool" where
  "value_narrows_within _ Wildcard = True"
| "value_narrows_within (Single a) (Single b) = (a = b)"
| "value_narrows_within (Single a) (ScopeSet parents) = (a |\<in>| parents)"
| "value_narrows_within (ScopeSet members) (ScopeSet parents) = (members |\<subseteq>| parents)"
| "value_narrows_within (ScopeSet _) (Single _) = False"
| "value_narrows_within Wildcard _ = False"

text \<open>The values a dimension admits.\<close>

fun admits :: "scope_value \<Rightarrow> string set" where
  "admits Wildcard = UNIV"
| "admits (ScopeSet s) = fset s"
| "admits (Single a) = {a}"

lemma infinite_UNIV_string: "infinite (UNIV :: string set)"
  by (simp add: infinite_UNIV_listI)

lemma fset_neq_UNIV: "fset (s :: string fset) \<noteq> UNIV"
  using infinite_UNIV_string finite_fset by metis

lemma singleton_neq_UNIV_string: "{a :: string} \<noteq> UNIV"
  using infinite_UNIV_string by (metis finite.emptyI finite_insert)

lemma value_narrows_iff:
  "value_narrows_within c p \<longleftrightarrow>
     admits c \<subseteq> admits p \<and> \<not> (\<exists>s a. c = ScopeSet s \<and> p = Single a)"
  using fset_neq_UNIV singleton_neq_UNIV_string
  by (cases c; cases p) (auto simp: less_eq_fset.rep_eq top.extremum_unique)

instantiation scope_value :: order_top
begin

definition less_eq_scope_value :: "scope_value \<Rightarrow> scope_value \<Rightarrow> bool" where
  "less_eq_scope_value = value_narrows_within"

definition less_scope_value :: "scope_value \<Rightarrow> scope_value \<Rightarrow> bool" where
  "less_scope_value c p \<longleftrightarrow> c \<le> p \<and> \<not> p \<le> c"

definition top_scope_value :: scope_value where
  "top_scope_value = Wildcard"

instance
proof
  fix x y z :: scope_value
  show "x < y \<longleftrightarrow> x \<le> y \<and> \<not> y \<le> x"
    by (rule less_scope_value_def)
  show "x \<le> x"
    unfolding less_eq_scope_value_def by (cases x) auto
  show "x \<le> z" if "x \<le> y" "y \<le> z"
    using that unfolding less_eq_scope_value_def by (cases x; cases y; cases z) auto
  show "x = y" if "x \<le> y" "y \<le> x"
    using that unfolding less_eq_scope_value_def by (cases x; cases y) auto
  show "x \<le> top"
    unfolding less_eq_scope_value_def top_scope_value_def by simp
qed

end

section \<open>Scopes\<close>

record 'j scope_dimensions =
  domain :: scope_value
  subdomain :: scope_value
  class_dim :: scope_value
  instance_dim :: scope_value
  identity :: scope_value
  extra :: "(string, scope_value) btree_map"
  conditions :: "'j list"

definition unconstrained :: "'j scope_dimensions" where
  "unconstrained =
     \<lparr> domain = Wildcard, subdomain = Wildcard, class_dim = Wildcard, instance_dim = Wildcard,
       identity = Wildcard, extra = [], conditions = [] \<rparr>"

definition dimensions :: "'j scope_dimensions \<Rightarrow> (string \<times> scope_value) list" where
  "dimensions s =
     [(''domain'', domain s), (''subdomain'', subdomain s), (''class'', class_dim s),
      (''instance'', instance_dim s), (''identity'', identity s)]"

definition scope_get :: "'j scope_dimensions \<Rightarrow> string \<Rightarrow> scope_value option" where
  "scope_get s d =
     (if d = ''domain'' then Some (domain s)
      else if d = ''subdomain'' then Some (subdomain s)
      else if d = ''class'' then Some (class_dim s)
      else if d = ''instance'' then Some (instance_dim s)
      else if d = ''identity'' then Some (identity s)
      else hm_get (extra s) d)"

definition scope_set :: "string \<Rightarrow> scope_value \<Rightarrow> 'j scope_dimensions \<Rightarrow> 'j scope_dimensions" where
  "scope_set d v s =
     (if d = ''domain'' then s\<lparr>domain := v\<rparr>
      else if d = ''subdomain'' then s\<lparr>subdomain := v\<rparr>
      else if d = ''class'' then s\<lparr>class_dim := v\<rparr>
      else if d = ''instance'' then s\<lparr>instance_dim := v\<rparr>
      else if d = ''identity'' then s\<lparr>identity := v\<rparr>
      else s\<lparr>extra := bt_insert d v (extra s)\<rparr>)"

fun first_widened :: "(string \<times> scope_value) list \<Rightarrow> 'j scope_dimensions \<Rightarrow> string option" where
  "first_widened [] parent = None"
| "first_widened ((name, child_value) # ds) parent =
     (case scope_get parent name of
        None \<Rightarrow> first_widened ds parent
      | Some parent_value \<Rightarrow>
          if \<not> value_narrows_within child_value parent_value then Some name
          else first_widened ds parent)"

definition first_widened_dimension :: "'j scope_dimensions \<Rightarrow> 'j scope_dimensions \<Rightarrow> string option" where
  "first_widened_dimension child parent =
     (case first_widened (dimensions child) parent of
        Some name \<Rightarrow> Some name
      | None \<Rightarrow> first_widened (extra child) parent)"

definition narrows_within :: "'j scope_dimensions \<Rightarrow> 'j scope_dimensions \<Rightarrow> bool" where
  "narrows_within child parent \<longleftrightarrow> first_widened_dimension child parent = None"

section \<open>Narrowing, dimension by dimension\<close>

definition named :: "string list" where
  "named = [''domain'', ''subdomain'', ''class'', ''instance'', ''identity'']"

text \<open>Extension dimensions are a map in key order and do not reuse a named dimension.\<close>

definition scope_wf :: "'j scope_dimensions \<Rightarrow> bool" where
  "scope_wf s \<longleftrightarrow> bt_wf (extra s) \<and> list_all (\<lambda>d. d \<notin> set (map fst (extra s))) named"

lemma map_fst_dimensions: "map fst (dimensions s) = named"
  by (simp add: dimensions_def named_def)

lemma scope_get_named: "d \<in> set named \<Longrightarrow> scope_get s d = map_of (dimensions s) d"
  by (auto simp: named_def scope_get_def dimensions_def)

lemma scope_get_extra: "d \<notin> set named \<Longrightarrow> scope_get s d = hm_get (extra s) d"
  by (auto simp: named_def scope_get_def)

lemma scope_get_total: "d \<in> set named \<Longrightarrow> \<exists>v. scope_get s d = Some v"
  by (auto simp: named_def scope_get_def)

lemma scope_get_eq:
  assumes "scope_wf s"
  shows "scope_get s d = Some v \<longleftrightarrow> (d, v) \<in> set (dimensions s) \<union> set (extra s)"
proof -
  have dist: "distinct (map fst (dimensions s))"
    by (simp add: dimensions_def)
  have keys: "d \<in> set named" if "(d, v) \<in> set (dimensions s)" for d v
    using that by (auto simp: dimensions_def named_def)
  have wf: "hm_wf (extra s)" and disj: "d \<in> set named \<Longrightarrow> (d, v) \<notin> set (extra s)"
    using assms bt_wf_hm [of "extra s"] by (auto simp: scope_wf_def list_all_iff image_iff)
  show ?thesis
  proof (cases "d \<in> set named")
    case True
    then show ?thesis
      using scope_get_named [OF True, of s] map_of_eq_Some_iff [OF dist] disj by auto
  next
    case False
    then show ?thesis
      using scope_get_extra [OF False, of s] keys hm_get_iff [OF wf] by auto
  qed
qed

lemma first_widened_None:
  "first_widened ds parent = None \<longleftrightarrow>
     (\<forall>d v p. (d, v) \<in> set ds \<longrightarrow> scope_get parent d = Some p \<longrightarrow> v \<le> p)"
proof (induction ds)
  case (Cons b ds)
  then show ?case
    by (cases b) (auto simp: less_eq_scope_value_def split: option.splits)
qed simp

lemma narrows_within_entries:
  "narrows_within child parent \<longleftrightarrow>
     (\<forall>d v p. (d, v) \<in> set (dimensions child) \<union> set (extra child) \<longrightarrow>
        scope_get parent d = Some p \<longrightarrow> v \<le> p)"
proof -
  have "narrows_within child parent \<longleftrightarrow>
      first_widened (dimensions child) parent = None \<and> first_widened (extra child) parent = None"
    by (simp add: narrows_within_def first_widened_dimension_def split: option.split)
  then show ?thesis
    unfolding first_widened_None Un_iff by blast
qed

lemma narrows_within_iff:
  assumes "scope_wf child"
  shows "narrows_within child parent \<longleftrightarrow>
     (\<forall>d v p. scope_get child d = Some v \<longrightarrow> scope_get parent d = Some p \<longrightarrow> v \<le> p)"
  by (simp add: narrows_within_entries scope_get_eq [OF assms])

lemma named_entry: "d \<in> set named \<Longrightarrow> (d, the (scope_get s d)) \<in> set (dimensions s)"
  using scope_get_total [of d s] scope_get_named [of d s] by (metis map_of_SomeD option.sel)

lemma narrows_named:
  assumes "narrows_within a b" "d \<in> set named"
  shows "the (scope_get a d) \<le> the (scope_get b d)"
  using assms named_entry [OF assms(2), of a] scope_get_total [OF assms(2), of b]
  unfolding narrows_within_entries by auto

lemma scope_wf_set: "scope_wf s \<Longrightarrow> scope_wf (scope_set d v s)"
  using bt_keys_insert [of d v "extra s"]
  by (auto simp: scope_wf_def scope_set_def named_def)

lemma scope_get_set:
  "scope_wf s \<Longrightarrow> scope_get (scope_set d v s) d' = (if d' = d then Some v else scope_get s d')"
  by (auto simp: scope_wf_def scope_set_def scope_get_def bt_get_insert)

section \<open>Properties\<close>

text \<open>The comparison of two values of a dimension (\<open>ScopeValue::narrows_within\<close>) is inclusion of the
  admitted values, except that a set never narrows within a single value, not even the singleton of that
  value.\<close>

theorem scope_value_order:
  "value_narrows_within c p \<longleftrightarrow>
     admits c \<subseteq> admits p \<and> \<not> (\<exists>s a. c = ScopeSet s \<and> p = Single a)"
  by (rule value_narrows_iff)

text \<open>A scope narrows within another exactly when every dimension constrained by both, named or
  extension, compares value by value; an absent dimension of either side constrains nothing.\<close>

theorem narrows_within_dimensionwise:
  assumes "scope_wf child"
  shows "narrows_within child parent \<longleftrightarrow>
     (\<forall>d v p. scope_get child d = Some v \<longrightarrow> scope_get parent d = Some p \<longrightarrow> value_narrows_within v p)"
  using narrows_within_iff [OF assms] unfolding less_eq_scope_value_def .

definition leaf_scope :: "nat scope_dimensions" where
  "leaf_scope = scope_set ''region'' Wildcard (scope_set ''domain'' (Single ''steel'') unconstrained)"

definition mid_scope :: "nat scope_dimensions" where
  "mid_scope = scope_set ''domain'' (ScopeSet {|''steel'', ''iron''|}) unconstrained"

definition top_scope :: "nat scope_dimensions" where
  "top_scope = scope_set ''region'' (Single ''EU'') unconstrained"

lemma leaf_scope_wf: "scope_wf leaf_scope"
  unfolding leaf_scope_def by (intro scope_wf_set) (simp add: scope_wf_def unconstrained_def list_all_iff)

theorem narrows_within_dimensionwise_witness: "narrows_within leaf_scope mid_scope"
  unfolding narrows_within_dimensionwise [OF leaf_scope_wf]
  by (auto simp: leaf_scope_def mid_scope_def scope_set_def scope_get_def unconstrained_def split: if_splits)


end
