(* ===== verification/Signatif_Error.thy ===== *)
theory Signatif_Error
  imports Confium_Base
begin

text \<open>
  The error type of the trust framework (\<open>confium-signatif/src/error.rs\<close>) and the text it displays.
\<close>

datatype signatif_error =
    NoPath
  | ScopeWidening string string string
  | BadSignature string
  | BundleValidity
  | ArtifactFormat string
  | HardCheck string
  | RegistryEntry string string
  | Revocation string
  | Ceremony string
  | Encoding string

fun display_error :: "signatif_error \<Rightarrow> string" where
  "display_error NoPath = ''no verification path to a trusted root''"
| "display_error (ScopeWidening p c d) =
     ''scope widening at delegation link '' @ p @ '' -> '' @ c @ '' on dimension '' @ d"
| "display_error (BadSignature context) = ''signature verification failed for '' @ context"
| "display_error BundleValidity = ''anchor bundle not valid at the evaluation time''"
| "display_error (ArtifactFormat m) = ''artifact format error: '' @ m"
| "display_error (HardCheck m) = ''hard check failed: '' @ m"
| "display_error (RegistryEntry r e) = ''registry '' @ r @ '' has no usable entry '' @ e"
| "display_error (Revocation m) = ''revocation error: '' @ m"
| "display_error (Ceremony m) = ''ceremony audit failure: '' @ m"
| "display_error (Encoding m) = ''encoding error: '' @ m"

end
