(* ===== verification/Federation.thy ===== *)
theory Federation
  imports Trust_Graph Text_Encoding
begin

text \<open>
  Federated trust authorities (\<open>confium-signatif/src/fta.rs\<close>) and the quorums over logs and
  witnesses (\<open>multilog.rs\<close>). Signature verification and SHA-256 are parameters; the ordered maps
  that the code collects contributions in are those of theory \<open>Ordered_Map\<close>.
\<close>

section \<open>Quorums over logs and witnesses\<close>

record multi_log_policy =
  policy_m :: nat
  policy_k :: nat

definition policy_validate :: "multi_log_policy \<Rightarrow> signatif_error + unit" where
  "policy_validate p =
     (if policy_m p = 0 \<or> policy_k p < policy_m p
      then Inl (Encoding (''invalid multi-log policy '' @ decimal (policy_m p) @ '' of '' @ decimal (policy_k p)))
      else Inr ())"

record log_inclusion =
  inclusion_log :: string
  included :: bool

definition log_satisfies :: "log_inclusion list \<Rightarrow> multi_log_policy \<Rightarrow> signatif_error + bool" where
  "log_satisfies incs p = try_bind (policy_validate p) (\<lambda>_. Inr (policy_m p \<le> length (filter included incs)))"

record witness_cosignature =
  co_witness :: string
  tree_head_bytes :: bytes
  co_signature :: bytes
  co_public_key :: bytes

definition by_head :: "witness_cosignature list \<Rightarrow> (bytes, witness_cosignature list) btree_map" where
  "by_head cs = fold (\<lambda>c m.
     bt_insert (tree_head_bytes c) ((case hm_get m (tree_head_bytes c) of Some ws \<Rightarrow> ws | None \<Rightarrow> []) @ [c]) m) cs []"

text \<open>The distinct witnesses of one group, or \<open>None\<close> when a signature fails.\<close>

fun group_witnesses :: "verifier \<Rightarrow> witness_cosignature list \<Rightarrow> (string, unit) btree_map \<Rightarrow> (string, unit) btree_map option" where
  "group_witnesses verify [] ds = Some ds"
| "group_witnesses verify (w # ws) ds =
     (if \<not> verify (co_public_key w) (tree_head_bytes w) (co_signature w) then None
      else group_witnesses verify ws (bt_insert (co_witness w) () ds))"

fun check_groups :: "verifier \<Rightarrow> nat \<Rightarrow> (bytes \<times> witness_cosignature list) list \<Rightarrow> signatif_error + bool" where
  "check_groups verify n [] = Inr False"
| "check_groups verify n ((_, ws) # gs) =
     (case group_witnesses verify ws [] of
        Some ds \<Rightarrow> if n \<le> length ds then Inr True else check_groups verify n gs
      | None \<Rightarrow> check_groups verify n gs)"

definition gossip_check :: "verifier \<Rightarrow> nat \<Rightarrow> witness_cosignature list \<Rightarrow> signatif_error + bool" where
  "gossip_check verify min_sources cs = check_groups verify min_sources (by_head cs)"

section \<open>Federated authorities\<close>

record member_org =
  org_id :: string
  org_public_key :: bytes
  inner_quorum :: "quorum option"

record federated_trust_authority =
  fta_id :: string
  members :: "member_org list"
  org_quorum :: quorum
  fta_aggregate_key :: bytes
  hierarchy_spanning :: bool

fun check_members :: "string \<Rightarrow> member_org list \<Rightarrow> string list \<Rightarrow> signatif_error + unit" where
  "check_members i [] seen = Inr ()"
| "check_members i (m # ms) seen =
     (if org_id m \<in> set seen then Inl (Encoding (''FTA '' @ i @ '': duplicate member '' @ org_id m))
      else try_bind (case inner_quorum m of Some q \<Rightarrow> try_bind (quorum_new (quorum_t q) (quorum_n q)) (\<lambda>_. Inr ()) | None \<Rightarrow> Inr ())
        (\<lambda>_. check_members i ms (org_id m # seen)))"

definition fta_validate :: "federated_trust_authority \<Rightarrow> signatif_error + unit" where
  "fta_validate a =
     (let t = quorum_t (org_quorum a); n = quorum_n (org_quorum a); k = length (members a)
      in if t = 0 \<or> k < unat t
         then Inl (Encoding (''FTA '' @ fta_id a @ '': org quorum '' @ decimal (unat t) @ '' of '' @ decimal (unat n)
                @ '' inconsistent with '' @ decimal k @ '' members''))
         else if unat n \<noteq> k
         then Inl (Encoding (''FTA '' @ fta_id a @ '': K ('' @ decimal (unat n) @ '') must equal member count ('' @ decimal k @ '')''))
         else check_members (fta_id a) (members a) [])"

definition requires_inner_quorum :: "federated_trust_authority \<Rightarrow> string \<Rightarrow> quorum option" where
  "requires_inner_quorum a org = Option.bind (List.find (\<lambda>m. org_id m = org) (members a)) inner_quorum"

record proof_of_possession =
  pop_member :: string
  pop_key :: bytes
  pop_signature :: bytes

record fta_session =
  fta_authority :: string
  session_nonce :: bytes
  ceremony_type :: string

definition pop_bytes :: "fta_session \<Rightarrow> string \<Rightarrow> bytes \<Rightarrow> bytes" where
  "pop_bytes s member key =
     string_bytes (fta_authority s) @ [0] @ session_nonce s @ [0] @ string_bytes member @ [0] @ key"

definition verify_pop :: "verifier \<Rightarrow> fta_session \<Rightarrow> proof_of_possession \<Rightarrow> bool" where
  "verify_pop verify s p = verify (pop_key p) (pop_bytes s (pop_member p) (pop_key p)) (pop_signature p)"

fun verify_pops :: "verifier \<Rightarrow> fta_session \<Rightarrow> proof_of_possession list \<Rightarrow> (string, unit) btree_map
    \<Rightarrow> signatif_error + (string, unit) btree_map" where
  "verify_pops verify s [] ds = Inr ds"
| "verify_pops verify s (p # ps) ds =
     (if \<not> verify_pop verify s p
      then Inl (Ceremony (''rogue-key defense: member '' @ pop_member p @ '' failed proof of possession''))
      else verify_pops verify s ps (bt_insert (pop_member p) () ds))"

definition verify_contributions :: "verifier \<Rightarrow> fta_session \<Rightarrow> proof_of_possession list \<Rightarrow> quorum \<Rightarrow> signatif_error + unit" where
  "verify_contributions verify s ps q =
     try_bind (verify_pops verify s ps []) (\<lambda>ds.
       if length ds < unat (quorum_t q)
       then Inl (Ceremony (''quorum not met: '' @ decimal (unat (quorum_t q)) @ '' of '' @ decimal (unat (quorum_n q))
              @ '' required, '' @ decimal (length ds) @ '' contributed''))
       else Inr ())"

record nonce_commitment =
  nc_member :: string
  nc_commitment :: bytes

record nonce_reveal =
  nr_member :: string
  nr_nonce :: bytes

definition nonce_commit :: "(bytes \<Rightarrow> bytes) \<Rightarrow> string \<Rightarrow> bytes \<Rightarrow> nonce_commitment" where
  "nonce_commit sha member nonce = \<lparr> nc_member = member, nc_commitment = sha nonce \<rparr>"

definition nonce_verify :: "(bytes \<Rightarrow> bytes) \<Rightarrow> nonce_commitment \<Rightarrow> nonce_reveal \<Rightarrow> bool" where
  "nonce_verify sha c r \<longleftrightarrow> nc_member c = nr_member r \<and> nc_commitment c = sha (nr_nonce r)"

datatype abort_reason = BadProofOfPossession | NonceCommitmentMismatch | Timeout | MalformedContribution

record abort_attribution =
  faulty_member :: string
  abort_reason_of :: abort_reason

definition index_by :: "('a \<Rightarrow> string) \<Rightarrow> 'a list \<Rightarrow> (string, 'a) btree_map" where
  "index_by f xs = fold (\<lambda>x. bt_insert (f x) x) xs []"

fun check_pops :: "verifier \<Rightarrow> fta_session \<Rightarrow> (string, proof_of_possession) btree_map \<Rightarrow> member_org list \<Rightarrow> abort_attribution + unit" where
  "check_pops verify s m [] = Inr ()"
| "check_pops verify s m (org # orgs) =
     (case hm_get m (org_id org) of
        None \<Rightarrow> Inl \<lparr> faulty_member = org_id org, abort_reason_of = Timeout \<rparr>
      | Some p \<Rightarrow>
          if \<not> verify_pop verify s p then Inl \<lparr> faulty_member = org_id org, abort_reason_of = BadProofOfPossession \<rparr>
          else check_pops verify s m orgs)"

fun check_reveals :: "(bytes \<Rightarrow> bytes) \<Rightarrow> (string, nonce_reveal) btree_map \<Rightarrow> (string \<times> nonce_commitment) list \<Rightarrow> abort_attribution + unit" where
  "check_reveals sha m [] = Inr ()"
| "check_reveals sha m ((member, c) # cs) =
     (case hm_get m member of
        None \<Rightarrow> Inl \<lparr> faulty_member = member, abort_reason_of = Timeout \<rparr>
      | Some r \<Rightarrow>
          if \<not> nonce_verify sha c r then Inl \<lparr> faulty_member = member, abort_reason_of = NonceCommitmentMismatch \<rparr>
          else check_reveals sha m cs)"

definition attribute_dkg_failure ::
  "verifier \<Rightarrow> (bytes \<Rightarrow> bytes) \<Rightarrow> fta_session \<Rightarrow> member_org list \<Rightarrow> proof_of_possession list \<Rightarrow> nonce_commitment list \<Rightarrow> nonce_reveal list
     \<Rightarrow> abort_attribution + unit" where
  "attribute_dkg_failure verify sha s expected pops commitments reveals =
     try_bind (check_pops verify s (index_by pop_member pops) expected) (\<lambda>_.
       check_reveals sha (index_by nr_member reveals) (index_by nc_member commitments))"

datatype membership_change_kind = Join member_org | Leave string | Dissolve

record membership_change =
  change_kind :: membership_change_kind
  key_before :: bytes
  key_after :: bytes

definition change_validate :: "membership_change \<Rightarrow> signatif_error + unit" where
  "change_validate c =
     (case change_kind c of
        Dissolve \<Rightarrow> Inr ()
      | _ \<Rightarrow> if key_before c \<noteq> key_after c
          then Inl (Encoding (''membership change altered the aggregate key '' @ map char_of [0xE2 :: nat, 0x80, 0x94]
                 @ '' join/leave must re-share while preserving it''))
          else Inr ())"

section \<open>Quorum properties\<close>

lemma bt_names:
  assumes "bt_wf ds"
  shows "bt_wf (fold (\<lambda>n. bt_insert n ()) ns ds) \<and>
    set (map fst (fold (\<lambda>n. bt_insert n ()) ns ds)) = set (map fst ds) \<union> set ns"
  using assms
proof (induction ns arbitrary: ds)
  case (Cons n ns)
  then show ?case using bt_keys_insert [of n "()" ds] Cons.IH [OF bt_wf_insert [of ds n "()"]] by simp
qed simp

lemma bt_length: "bt_wf m \<Longrightarrow> length m = card (set (map fst m))"
  using bt_wf_hm [of m] distinct_card [of "map fst m"] by (simp add: hm_wf_def)

lemma length_bt_names: "length (fold (\<lambda>n. bt_insert n ()) ns []) = card (set ns)"
  using bt_names [of "[]" ns] bt_length by fastforce

lemma by_head_groups:
  "bt_wf (by_head cs) \<and> hm_get (by_head cs) h =
     (let g = filter (\<lambda>c. tree_head_bytes c = h) cs in if g = [] then None else Some g)"
proof (induction cs arbitrary: h rule: rev_induct)
  case Nil
  show ?case by (simp add: by_head_def)
next
  case (snoc c cs)
  let ?g = "(case hm_get (by_head cs) (tree_head_bytes c) of Some ws \<Rightarrow> ws | None \<Rightarrow> []) @ [c]"
  have step: "by_head (cs @ [c]) = bt_insert (tree_head_bytes c) ?g (by_head cs)" by (simp add: by_head_def)
  show ?case
    unfolding step using snoc [of h] snoc [of "tree_head_bytes c"] by (auto simp: bt_get_insert Let_def)
qed

lemma group_witnesses_fold:
  "group_witnesses verify ws ds =
     (if list_all (\<lambda>w. verify (co_public_key w) (tree_head_bytes w) (co_signature w)) ws
      then Some (fold (\<lambda>n. bt_insert n ()) (map co_witness ws) ds) else None)"
  by (induction ws arbitrary: ds) simp_all

lemma check_groups_iff:
  "check_groups verify n gs = Inr True \<longleftrightarrow>
     (\<exists>(h, ws) \<in> set gs. list_all (\<lambda>w. verify (co_public_key w) (tree_head_bytes w) (co_signature w)) ws \<and>
        n \<le> card (set (map co_witness ws)))"
  by (induction verify n gs rule: check_groups.induct) (auto simp: group_witnesses_fold length_bt_names)

lemma filter_key_ex: "filter (\<lambda>c. f c = h) cs \<noteq> [] \<longleftrightarrow> h \<in> set (map f cs)"
  by (force simp: filter_empty_conv)

lemma graph_image: "(\<And>h ws. (h, ws) \<in> S \<longleftrightarrow> h \<in> H \<and> ws = F h) \<Longrightarrow> S = (\<lambda>h. (h, F h)) ` H"
  by auto

lemma set_by_head: "set (by_head cs) = (\<lambda>h. (h, filter (\<lambda>c. tree_head_bytes c = h) cs)) ` set (map tree_head_bytes cs)"
proof (rule graph_image)
  fix h ws
  have "(h, ws) \<in> set (by_head cs) \<longleftrightarrow> hm_get (by_head cs) h = Some ws"
    by (rule hm_get_iff [OF bt_wf_hm [OF conjunct1 [OF by_head_groups]], symmetric])
  also have "\<dots> \<longleftrightarrow> filter (\<lambda>c. tree_head_bytes c = h) cs \<noteq> [] \<and> ws = filter (\<lambda>c. tree_head_bytes c = h) cs"
    unfolding conjunct2 [OF by_head_groups] Let_def by auto
  finally show "(h, ws) \<in> set (by_head cs) \<longleftrightarrow> h \<in> set (map tree_head_bytes cs) \<and> ws = filter (\<lambda>c. tree_head_bytes c = h) cs"
    unfolding filter_key_ex .
qed

lemma gossip_groups:
  "gossip_check verify n cs = Inr True \<longleftrightarrow>
     (\<exists>h \<in> set (map tree_head_bytes cs).
        list_all (\<lambda>w. verify (co_public_key w) (tree_head_bytes w) (co_signature w)) (filter (\<lambda>c. tree_head_bytes c = h) cs) \<and>
        n \<le> card (set (map co_witness (filter (\<lambda>c. tree_head_bytes c = h) cs))))"
  unfolding gossip_check_def check_groups_iff set_by_head Set.bex_simps(7) prod.case by (rule refl)

text \<open>
  The gossip quorum: the check succeeds exactly when, for some tree head among the cosignatures,
  every cosignature of that head verifies and at least the required number of distinct witness
  names cosigned it.
\<close>

theorem gossip_quorum_iff:
  "gossip_check verify n cs = Inr True \<longleftrightarrow>
     (\<exists>h \<in> set (map tree_head_bytes cs).
        list_all (\<lambda>c. tree_head_bytes c = h \<longrightarrow> verify (co_public_key c) h (co_signature c)) cs \<and>
        n \<le> card (set (map co_witness (filter (\<lambda>c. tree_head_bytes c = h) cs))))"
proof -
  have "list_all (\<lambda>w. verify (co_public_key w) (tree_head_bytes w) (co_signature w)) (filter (\<lambda>c. tree_head_bytes c = h) cs) \<longleftrightarrow>
      list_all (\<lambda>c. tree_head_bytes c = h \<longrightarrow> verify (co_public_key c) h (co_signature c)) cs" for h
    by (auto simp: list_all_iff)
  then show ?thesis unfolding gossip_groups by simp
qed

text \<open>C27: 
  The quorum counts names, not keys: one key holder who cosigns under as many names as are
  required reaches every quorum alone.
\<close>

theorem one_key_reaches_quorum:
  assumes "distinct names" "names \<noteq> []" "verify key head_bytes sig"
  shows "gossip_check verify (length names)
    (map (\<lambda>n. \<lparr> co_witness = n, tree_head_bytes = head_bytes, co_signature = sig, co_public_key = key \<rparr>) names) = Inr True"
proof -
  let ?c = "\<lambda>n. \<lparr> co_witness = n, tree_head_bytes = head_bytes, co_signature = sig, co_public_key = key \<rparr>"
  have "filter (\<lambda>c. tree_head_bytes c = head_bytes) (map ?c names) = map ?c names" by (simp add: filter_map comp_def)
  moreover have "head_bytes \<in> set (map tree_head_bytes (map ?c names))" using assms(2) by (cases names) auto
  moreover have "length names \<le> card (set (map co_witness (map ?c names)))" using assms(1) by (simp add: comp_def distinct_card)
  ultimately show ?thesis
    unfolding gossip_groups by (intro bexI [of _ head_bytes]) (use assms(3) in \<open>simp_all add: list_all_iff\<close>)
qed

section \<open>Authority properties\<close>

lemma check_members_iff:
  "check_members i ms seen = Inr () \<longleftrightarrow>
     distinct (map org_id ms) \<and> set (map org_id ms) \<inter> set seen = {} \<and>
     list_all (\<lambda>m. case inner_quorum m of Some q \<Rightarrow> 1 \<le> unat (quorum_t q) \<and> quorum_t q \<le> quorum_n q | None \<Rightarrow> True) ms"
proof (induction ms arbitrary: seen)
  case (Cons m ms)
  have "unat t = 0 \<longleftrightarrow> t = 0" for t :: u32 by (simp add: unat_eq_zero)
  with Cons show ?case
    by (cases "inner_quorum m") (auto simp: quorum_new_def Suc_le_eq)
qed simp

text \<open>
  A federated authority is accepted exactly when its quorum is between one and the number of its
  members, the total it declares is that number, no member occurs twice, and every nested quorum
  is itself consistent.
\<close>

theorem fta_validate_iff:
  "fta_validate a = Inr () \<longleftrightarrow>
     1 \<le> unat (quorum_t (org_quorum a)) \<and> quorum_t (org_quorum a) \<le> quorum_n (org_quorum a) \<and>
     unat (quorum_n (org_quorum a)) = length (members a) \<and> distinct (map org_id (members a)) \<and>
     list_all (\<lambda>m. case inner_quorum m of Some q \<Rightarrow> 1 \<le> unat (quorum_t q) \<and> quorum_t q \<le> quorum_n q | None \<Rightarrow> True) (members a)"
proof -
  have "unat t = 0 \<longleftrightarrow> t = 0" for t :: u32 by (simp add: unat_eq_zero)
  then show ?thesis
    by (auto simp: fta_validate_def Let_def check_members_iff word_le_nat_alt Suc_le_eq)
qed

text \<open>
  What a proof of possession signs determines everything it is bound to, the authority, the
  ceremony's nonce, the member and the key, as long as no name contains a zero byte.
\<close>

theorem pop_bytes_bind:
  assumes "pop_bytes s m k = pop_bytes s' m' k'"
    and "CHR 0x00 \<notin> set (fta_authority s)" "CHR 0x00 \<notin> set (fta_authority s')" "CHR 0x00 \<notin> set m" "CHR 0x00 \<notin> set m'"
    and "length (session_nonce s) = 32" "length (session_nonce s') = 32"
  shows "fta_authority s = fta_authority s' \<and> session_nonce s = session_nonce s' \<and> m = m' \<and> k = k'"
proof -
  have "string_bytes (fta_authority s) @ 0 # (session_nonce s @ 0 # string_bytes m @ 0 # k) =
      string_bytes (fta_authority s') @ 0 # (session_nonce s' @ 0 # string_bytes m' @ 0 # k')"
    using assms(1) by (simp add: pop_bytes_def)
  from split_at_nul [OF _ _ this] have a: "fta_authority s = fta_authority s'"
    and r: "session_nonce s @ 0 # string_bytes m @ 0 # k = session_nonce s' @ 0 # string_bytes m' @ 0 # k'"
    using assms(2,3) by (simp_all add: string_bytes_nul)
  from r have n: "session_nonce s = session_nonce s'" and q: "string_bytes m @ 0 # k = string_bytes m' @ 0 # k'"
    using assms(6,7) by simp_all
  from split_at_nul [OF _ _ q] show ?thesis using a n assms(4,5) by (simp add: string_bytes_nul)
qed

lemma index_by_snoc: "index_by f (xs @ [x]) = bt_insert (f x) x (index_by f xs)"
  by (simp add: index_by_def)

lemma bt_wf_index [simp]: "bt_wf (index_by f xs)"
  by (induction xs rule: rev_induct) (simp_all add: index_by_snoc, simp add: index_by_def)

lemma index_by_snoc_get: "hm_get (index_by f (xs @ [x])) k = (if k = f x then Some x else hm_get (index_by f xs) k)"
  by (simp add: index_by_snoc bt_get_insert)

lemma index_by_None: "hm_get (index_by f xs) k = None \<longleftrightarrow> k \<notin> f ` set xs"
  by (induction xs rule: rev_induct) (simp_all add: index_by_snoc_get, simp add: index_by_def)

lemma index_by_Some: "hm_get (index_by f xs) k = Some x \<Longrightarrow> x \<in> set xs \<and> f x = k"
proof (induction xs rule: rev_induct)
  case (snoc y xs)
  then show ?case by (cases "k = f y") (simp_all add: index_by_snoc_get)
qed (simp add: index_by_def)

lemma index_by_in: "(k, x) \<in> set (index_by f xs) \<Longrightarrow> x \<in> set xs \<and> f x = k"
  by (rule index_by_Some, rule iffD2 [OF hm_get_iff [OF bt_wf_hm [OF bt_wf_index]]])

lemma index_by_keys: "k \<in> f ` set xs \<Longrightarrow> \<exists>x. (k, x) \<in> set (index_by f xs)"
  using index_by_None [of f xs k] hm_get_in [of "index_by f xs" k] by (cases "hm_get (index_by f xs) k") auto

lemma check_pops_cases:
  "case check_pops verify s m orgs of
     Inr _ \<Rightarrow> list_all (\<lambda>org. \<exists>p. hm_get m (org_id org) = Some p \<and> verify_pop verify s p) orgs
   | Inl a \<Rightarrow> faulty_member a \<in> set (map org_id orgs) \<and>
       (case hm_get m (faulty_member a) of
          None \<Rightarrow> abort_reason_of a = Timeout
        | Some p \<Rightarrow> abort_reason_of a = BadProofOfPossession \<and> \<not> verify_pop verify s p)"
proof (induction orgs)
  case (Cons org orgs)
  then show ?case
    by (cases "hm_get m (org_id org)"; cases "check_pops verify s m orgs") auto
qed simp

lemma check_reveals_cases:
  "case check_reveals sha m cs of
     Inr _ \<Rightarrow> list_all (\<lambda>(k, c). \<exists>r. hm_get m k = Some r \<and> nonce_verify sha c r) cs
   | Inl a \<Rightarrow> \<exists>c. (faulty_member a, c) \<in> set cs \<and>
       (case hm_get m (faulty_member a) of
          None \<Rightarrow> abort_reason_of a = Timeout
        | Some r \<Rightarrow> abort_reason_of a = NonceCommitmentMismatch \<and> \<not> nonce_verify sha c r)"
proof (induction cs)
  case (Cons kc cs)
  obtain k c where kc: "kc = (k, c)" by (cases kc)
  show ?case
  proof (cases "hm_get m k")
    case None
    then show ?thesis by (auto simp: kc)
  next
    case (Some r)
    show ?thesis
    proof (cases "nonce_verify sha c r")
      case True
      with Some Cons show ?thesis by (cases "check_reveals sha m cs") (auto simp: kc)
    next
      case False
      with Some show ?thesis by (auto simp: kc)
    qed
  qed
qed simp

text \<open>What a member did when it is blamed for a reason.\<close>

definition misbehaved ::
  "verifier \<Rightarrow> (bytes \<Rightarrow> bytes) \<Rightarrow> fta_session \<Rightarrow> member_org list \<Rightarrow> proof_of_possession list \<Rightarrow> nonce_commitment list \<Rightarrow> nonce_reveal list
     \<Rightarrow> string \<Rightarrow> abort_reason \<Rightarrow> bool" where
  "misbehaved verify sha s expected pops commitments reveals m reason =
     (case reason of
        Timeout \<Rightarrow> m \<in> org_id ` set expected \<and> m \<notin> pop_member ` set pops \<or>
                   m \<in> nc_member ` set commitments \<and> m \<notin> nr_member ` set reveals
      | BadProofOfPossession \<Rightarrow> (\<exists>p \<in> set pops. pop_member p = m \<and> \<not> verify_pop verify s p)
      | NonceCommitmentMismatch \<Rightarrow>
          (\<exists>c \<in> set commitments. \<exists>r \<in> set reveals. nc_member c = m \<and> nr_member r = m \<and> nc_commitment c \<noteq> sha (nr_nonce r))
      | MalformedContribution \<Rightarrow> False)"

lemma check_pops_blame:
  assumes "check_pops verify s (index_by pop_member pops) expected = Inl a"
  shows "misbehaved verify sha s expected pops commitments reveals (faulty_member a) (abort_reason_of a)"
proof (cases "hm_get (index_by pop_member pops) (faulty_member a)")
  case None
  then have "faulty_member a \<notin> pop_member ` set pops" unfolding index_by_None .
  then show ?thesis
    using check_pops_cases [where verify = verify and s = s and m = "index_by pop_member pops" and orgs = expected] assms None by (simp add: misbehaved_def)
next
  case (Some p)
  then have "p \<in> set pops \<and> pop_member p = faulty_member a" by (rule index_by_Some)
  then show ?thesis
    using check_pops_cases [where verify = verify and s = s and m = "index_by pop_member pops" and orgs = expected] assms Some by (auto simp: misbehaved_def)
qed

lemma check_reveals_blame:
  assumes "check_reveals sha (index_by nr_member reveals) (index_by nc_member commitments) = Inl a"
  shows "misbehaved verify sha s expected pops commitments reveals (faulty_member a) (abort_reason_of a)"
proof -
  from check_reveals_cases [where sha = sha and m = "index_by nr_member reveals" and cs = "index_by nc_member commitments"] assms
  obtain c where c: "(faulty_member a, c) \<in> set (index_by nc_member commitments)"
    "case hm_get (index_by nr_member reveals) (faulty_member a) of
          None \<Rightarrow> abort_reason_of a = Timeout
        | Some r \<Rightarrow> abort_reason_of a = NonceCommitmentMismatch \<and> \<not> nonce_verify sha c r" by auto
  have m: "c \<in> set commitments" "nc_member c = faulty_member a" using index_by_in [OF c(1)] by auto
  show ?thesis
  proof (cases "hm_get (index_by nr_member reveals) (faulty_member a)")
    case None
    then have "faulty_member a \<notin> nr_member ` set reveals" unfolding index_by_None .
    moreover have "faulty_member a \<in> nc_member ` set commitments" using m by (metis imageI)
    ultimately show ?thesis using c(2) None by (simp add: misbehaved_def)
  next
    case (Some r)
    then have "r \<in> set reveals \<and> nr_member r = faulty_member a" by (rule index_by_Some)
    then show ?thesis using m c(2) Some by (auto simp: misbehaved_def nonce_verify_def)
  qed
qed

text \<open>C23: 
  Identifiable abort: when the attribution names a member, a contribution in that member's name is
  missing or bad, in the way the reason says; and when it names none, every expected member has a
  proof of possession that verifies and every member that committed to a nonce has a commitment
  that its reveal opens.
\<close>

theorem abort_blames_misbehaviour:
  "case attribute_dkg_failure verify sha s expected pops commitments reveals of
     Inl a \<Rightarrow> misbehaved verify sha s expected pops commitments reveals (faulty_member a) (abort_reason_of a)
   | Inr _ \<Rightarrow>
       list_all (\<lambda>org. \<exists>p \<in> set pops. pop_member p = org_id org \<and> verify_pop verify s p) expected \<and>
       list_all (\<lambda>m. \<exists>c \<in> set commitments. \<exists>r \<in> set reveals. nc_member c = m \<and> nonce_verify sha c r) (map nc_member commitments)"
proof (cases "check_pops verify s (index_by pop_member pops) expected")
  case (Inl a)
  then show ?thesis using check_pops_blame by (simp add: attribute_dkg_failure_def)
next
  case pops: (Inr u)
  have p: "\<exists>p \<in> set pops. pop_member p = org_id org \<and> verify_pop verify s p" if o: "org \<in> set expected" for org
  proof -
    obtain p where "hm_get (index_by pop_member pops) (org_id org) = Some p" "verify_pop verify s p"
      using check_pops_cases [where verify = verify and s = s and m = "index_by pop_member pops" and orgs = expected] pops o
      by (auto simp: list_all_iff)
    then show ?thesis using index_by_Some [of pop_member pops "org_id org" p] by blast
  qed
  show ?thesis
  proof (cases "check_reveals sha (index_by nr_member reveals) (index_by nc_member commitments)")
    case (Inl a)
    then show ?thesis using check_reveals_blame pops by (simp add: attribute_dkg_failure_def)
  next
    case (Inr v)
    have "\<exists>c \<in> set commitments. \<exists>r \<in> set reveals. nc_member c = m \<and> nonce_verify sha c r" if m: "m \<in> nc_member ` set commitments" for m
    proof -
      obtain c where c: "(m, c) \<in> set (index_by nc_member commitments)" using index_by_keys [OF m] by blast
      then obtain r where "hm_get (index_by nr_member reveals) m = Some r" "nonce_verify sha c r"
        using check_reveals_cases [where sha = sha and m = "index_by nr_member reveals" and cs = "index_by nc_member commitments"] Inr
        by (auto simp: list_all_iff)
      then show ?thesis using index_by_in [OF c] index_by_Some [of nr_member reveals m r] by blast
    qed
    then show ?thesis using p pops Inr by (simp add: attribute_dkg_failure_def list_all_iff)
  qed
qed

lemma verify_pops_fold:
  "verify_pops verify s ps ds = Inr ds' \<longleftrightarrow>
     list_all (verify_pop verify s) ps \<and> ds' = fold (\<lambda>n. bt_insert n ()) (map pop_member ps) ds"
  by (induction ps arbitrary: ds) auto

lemma verify_contributions_iff:
  "verify_contributions verify s ps q = Inr () \<longleftrightarrow>
     list_all (verify_pop verify s) ps \<and> unat (quorum_t q) \<le> card (set (map pop_member ps))"
  unfolding verify_contributions_def try_bind_Inr_iff verify_pops_fold by (auto simp: length_bt_names simp del: set_map)

text \<open>
  The key of a contribution is never compared with the member's registered key: a proof of
  possession for any other key, in the name of a member, passes both checks of the ceremony.
\<close>

theorem registered_key_not_checked:
  assumes "verify key (pop_bytes s (org_id org) key) sig" "key \<noteq> org_public_key org"
  shows "let pop = \<lparr> pop_member = org_id org, pop_key = key, pop_signature = sig \<rparr> in
    verify_contributions verify s [pop] \<lparr> quorum_t = 1, quorum_n = 1 \<rparr> = Inr () \<and>
    attribute_dkg_failure verify sha s [org] [pop] [] [] = Inr ()"
  using assms(1) by (simp add: verify_contributions_iff verify_pop_def attribute_dkg_failure_def index_by_def)

section \<open>Witnesses\<close>

definition demo_cosignature :: "string \<Rightarrow> witness_cosignature" where
  "demo_cosignature n = \<lparr> co_witness = n, tree_head_bytes = [1], co_signature = [2], co_public_key = [3] \<rparr>"

theorem gossip_quorum_iff_witness:
  "gossip_check (\<lambda>k m s. k = [3] \<and> m = [1] \<and> s = [2]) 2 [demo_cosignature ''a'', demo_cosignature ''b''] = Inr True"
  unfolding gossip_quorum_iff by (intro bexI [of _ "[1]"]) (simp_all add: demo_cosignature_def)

theorem one_key_reaches_quorum_witness:
  "gossip_check (\<lambda>k m s. k = [3] \<and> m = [1] \<and> s = [2]) 2 [demo_cosignature ''a'', demo_cosignature ''b''] = Inr True"
  using one_key_reaches_quorum [of "[''a'', ''b'']" "\<lambda>k m s. k = [3] \<and> m = [1] \<and> s = [2]" "[3]" "[1]" "[2]"]
  by (simp add: demo_cosignature_def numeral_2_eq_2)

definition demo_fta_session :: fta_session where
  "demo_fta_session = \<lparr> fta_authority = ''auth'', session_nonce = replicate 32 7, ceremony_type = ''dkg'' \<rparr>"

theorem pop_bytes_bind_witness: "pop_bytes demo_fta_session ''a'' [1] \<noteq> pop_bytes demo_fta_session ''b'' [1]"
  using pop_bytes_bind [of demo_fta_session "''a''" "[1]" demo_fta_session "''b''" "[1]"] by (auto simp: demo_fta_session_def)

theorem registered_key_not_checked_witness:
  "let pop = \<lparr> pop_member = ''a'', pop_key = [2], pop_signature = [] \<rparr> in
     verify_contributions (\<lambda>k m s. k = [2]) demo_fta_session [pop] \<lparr> quorum_t = 1, quorum_n = 1 \<rparr> = Inr () \<and>
     attribute_dkg_failure (\<lambda>k m s. k = [2]) id demo_fta_session [\<lparr> org_id = ''a'', org_public_key = [1], inner_quorum = None \<rparr>] [pop] [] [] = Inr ()"
  using registered_key_not_checked [of "\<lambda>k m s. k = [2]" "[2]" demo_fta_session "\<lparr> org_id = ''a'', org_public_key = [1], inner_quorum = None \<rparr>" "[]" id]
  by simp

end
