(* ===== verification/Trust_Graph_Proofs.thy ===== *)
theory Trust_Graph_Proofs
  imports Trust_Graph
begin

text \<open>
  Correctness of the trust graph: the depth-first cycle check decides acyclicity, every graph built by the
  public operations is acyclic, and the path search returns exactly the paths to anchored roots, all of
  whose links it has checked.
\<close>

section \<open>The cycle check decides acyclicity\<close>

text \<open>Black nodes are closed under parents and lie on no cycle.\<close>

definition black_inv :: "'j trust_graph \<Rightarrow> marks \<Rightarrow> bool" where
  "black_inv g m \<longleftrightarrow>
     (\<forall>v p. v \<in> blacks m \<longrightarrow> (v, p) \<in> edge_rel g \<longrightarrow> p \<in> blacks m) \<and>
     (\<forall>v \<in> blacks m. (v, v) \<notin> (edge_rel g)\<^sup>+)"

lemma black_closed:
  assumes "black_inv g m" "v \<in> blacks m" "(v, w) \<in> (edge_rel g)\<^sup>*"
  shows "w \<in> blacks m"
  using assms(3,2) by induction (use assms(1) in \<open>auto simp: black_inv_def\<close>)

lemma black_inv_blacken:
  assumes inv: "black_inv g m" and grey: "m i = Some Grey"
    and ps: "\<And>p. (i, p) \<in> edge_rel g \<Longrightarrow> p \<in> blacks m"
  shows "black_inv g (m(i \<mapsto> Black))"
proof -
  have b: "blacks (m(i \<mapsto> Black)) = insert i (blacks m)"
    by (auto simp: blacks_def)
  have "i \<notin> blacks m"
    using grey by (simp add: blacks_def)
  have "(i, i) \<notin> (edge_rel g)\<^sup>+"
  proof
    assume "(i, i) \<in> (edge_rel g)\<^sup>+"
    then obtain p where "(i, p) \<in> edge_rel g" "(p, i) \<in> (edge_rel g)\<^sup>*"
      by (meson tranclD)
    then show False
      using black_closed [OF inv] ps \<open>i \<notin> blacks m\<close> by blast
  qed
  then show ?thesis
    using inv ps unfolding black_inv_def b by blast
qed

definition visit_post :: "'j trust_graph \<Rightarrow> marks \<Rightarrow> bool \<Rightarrow> marks \<Rightarrow> bool" where
  "visit_post g m b m' \<longleftrightarrow>
     (if b then black_inv g m' \<and> greys m' = greys m \<and> blacks m \<subseteq> blacks m' else \<not> acyclic (edge_rel g))"

lemma visit_correct:
  "visit n g i m = Some (b, m') \<Longrightarrow> black_inv g m \<Longrightarrow> (\<forall>v \<in> greys m. (v, i) \<in> (edge_rel g)\<^sup>+) \<Longrightarrow>
     visit_post g m b m' \<and> (b \<longrightarrow> i \<in> blacks m')"
  "visit_parents n g es m = Some (b, m') \<Longrightarrow> black_inv g m \<Longrightarrow>
     (\<forall>v \<in> greys m. \<forall>e \<in> set es. (v, parent e) \<in> (edge_rel g)\<^sup>+) \<Longrightarrow>
     visit_post g m b m' \<and> (b \<longrightarrow> parent ` set es \<subseteq> blacks m')"
proof (induction n g i m and n g es m arbitrary: b m' and b m' rule: visit_visit_parents.induct)
  case (2 n g i m)
  consider "m i = Some Grey" | "m i = Some Black" | "m i \<noteq> Some Grey" "m i \<noteq> Some Black"
    by blast
  then show ?case
  proof cases
    case 1
    then have "(i, i) \<in> (edge_rel g)\<^sup>+"
      using 2 by (auto simp: greys_def)
    then show ?thesis
      using 1 2 by (auto simp: visit_post_def acyclic_def)
  next
    case 2
    then show ?thesis
      using "2.prems" by (auto simp: visit_post_def blacks_def)
  next
    case 3
    then obtain b1 m1 where vp: "visit_parents n g (parents_of g i) (m(i \<mapsto> Grey)) = Some (b1, m1)"
      and res: "b = b1" "m' = (if b1 then m1(i \<mapsto> Black) else m1)"
      using "2.prems" by (auto split: option.splits bool.splits)
    have g: "greys (m(i \<mapsto> Grey)) = insert i (greys m)" "blacks (m(i \<mapsto> Grey)) = blacks m"
      using 3 by (auto simp: greys_def blacks_def)
    have "black_inv g (m(i \<mapsto> Grey))"
      using "2.prems"(2) unfolding black_inv_def g .
    moreover have "\<forall>v \<in> greys (m(i \<mapsto> Grey)). \<forall>e \<in> set (parents_of g i). (v, parent e) \<in> (edge_rel g)\<^sup>+"
      unfolding g using "2.prems" by (auto intro: edge_relI trancl_into_trancl)
    ultimately have post: "visit_post g (m(i \<mapsto> Grey)) b1 m1"
      and ps: "b1 \<longrightarrow> parent ` set (parents_of g i) \<subseteq> blacks m1"
      using "2.IH" [OF 3 vp] by blast+
    show ?thesis
    proof (cases b1)
      case True
      then have m1: "black_inv g m1" "greys m1 = insert i (greys m)" "blacks m \<subseteq> blacks m1"
        using post g by (auto simp: visit_post_def)
      then have "m1 i = Some Grey"
        by (auto simp: greys_def)
      then have "black_inv g (m1(i \<mapsto> Black))"
        using m1 ps True by (auto elim!: edge_relE intro!: black_inv_blacken)
      moreover have "greys (m1(i \<mapsto> Black)) = greys m"
        using m1(2) 3 by (auto simp: greys_def split: if_splits)
      moreover have "blacks (m1(i \<mapsto> Black)) = insert i (blacks m1)"
        by (auto simp: blacks_def)
      ultimately have "visit_post g m True (m1(i \<mapsto> Black)) \<and> i \<in> blacks (m1(i \<mapsto> Black))"
        using m1 unfolding visit_post_def by auto
      then show ?thesis
        unfolding res using True by (simp del: fun_upd_apply)
    next
      case False
      then show ?thesis
        using post res by (simp add: visit_post_def)
    qed
  qed
next
  case (4 n g e es m)
  then obtain b1 m1 where v: "visit n g (parent e) m = Some (b1, m1)"
    by (auto split: option.splits)
  have post: "visit_post g m b1 m1" "b1 \<longrightarrow> parent e \<in> blacks m1"
    using "4.IH"(1) [OF v] 4(4,5) by auto
  show ?case
  proof (cases b1)
    case True
    then have m1: "black_inv g m1" "greys m1 = greys m" "blacks m \<subseteq> blacks m1"
      using post by (auto simp: visit_post_def)
    have "visit_post g m1 b m' \<and> (b \<longrightarrow> parent ` set es \<subseteq> blacks m')"
      using 4 v True m1 by simp
    then show ?thesis
      using m1 post True by (cases b) (simp_all add: visit_post_def, blast)
  next
    case False
    then show ?thesis
      using 4 v post by (auto simp: visit_post_def)
  qed
qed (auto simp: visit_post_def)

lemma visit_all_correct:
  "black_inv g m \<Longrightarrow> greys m = {} \<Longrightarrow> set is \<subseteq> universe g \<Longrightarrow> card (universe g - marked m) < n \<Longrightarrow>
     \<exists>b. visit_all n g is m = Some b \<and>
       (if b then \<forall>i \<in> set is. (i, i) \<notin> (edge_rel g)\<^sup>+ else \<not> acyclic (edge_rel g))"
proof (induction "is" arbitrary: m)
  case (Cons i "is")
  obtain b m' where v: "visit n g i m = Some (b, m')" "marked m \<subseteq> marked m'"
    using visit_total(1) [of i g m n] Cons.prems by auto
  have post: "visit_post g m b m' \<and> (b \<longrightarrow> i \<in> blacks m')"
    using visit_correct(1) [OF v(1)] Cons.prems by simp
  show ?case
  proof (cases b)
    case True
    then have m': "black_inv g m'" "greys m' = {}" "i \<in> blacks m'"
      using post Cons.prems by (auto simp: visit_post_def)
    have "card (universe g - marked m') \<le> card (universe g - marked m)"
      using v by (intro card_mono) auto
    then obtain b' where "visit_all n g is m' = Some b'"
      "if b' then \<forall>i \<in> set is. (i, i) \<notin> (edge_rel g)\<^sup>+ else \<not> acyclic (edge_rel g)"
      using Cons.IH [OF m'(1,2)] Cons.prems by auto
    then show ?thesis
      using v True m' by (auto simp: black_inv_def)
  next
    case False
    then show ?thesis
      using v post by (auto simp: visit_post_def)
  qed
qed auto

definition edges_known :: "'j trust_graph \<Rightarrow> bool" where
  "edges_known g \<longleftrightarrow> list_all (\<lambda>e. node g (parent e) \<noteq> None \<and> node g (child e) \<noteq> None) (edges g)"

lemma node_known: "node g i \<noteq> None \<longleftrightarrow> i \<in> set (map fst (nodes g))"
  unfolding node_def by (metis hm_keys_iff)

lemma is_acyclic_iff:
  assumes "edges_known g"
  shows "is_acyclic g = Some (acyclic (edge_rel g))"
proof -
  have "black_inv g Map.empty" "greys Map.empty = {}" "marked Map.empty = {}"
    by (auto simp: black_inv_def mark_defs)
  moreover have "set (map fst (nodes g)) \<subseteq> universe g"
    by (auto simp: universe_def)
  moreover have "card (universe g) < visit_fuel g"
    using card_universe [of g] by (simp add: visit_fuel_def)
  ultimately obtain b where b: "is_acyclic g = Some b"
    "if b then \<forall>i \<in> set (map fst (nodes g)). (i, i) \<notin> (edge_rel g)\<^sup>+ else \<not> acyclic (edge_rel g)"
    using visit_all_correct [of g Map.empty "map fst (nodes g)" "visit_fuel g"] by (auto simp: is_acyclic_def)
  have "i \<in> set (map fst (nodes g))" if cycle: "(i, i) \<in> (edge_rel g)\<^sup>+" for i
  proof -
    obtain e where "e \<in> set (edges g)" "child e = i"
      using tranclD [OF cycle] by (auto simp: edge_rel_def)
    then show ?thesis
      using assms unfolding node_known [symmetric] by (auto simp: edges_known_def list_all_iff)
  qed
  then have "b \<longleftrightarrow> acyclic (edge_rel g)"
    using b(2) by (auto simp: acyclic_def split: if_splits)
  then show ?thesis
    using b(1) by simp
qed

section \<open>The invariant of the graph\<close>

definition graph_inv :: "'j trust_graph \<Rightarrow> bool" where
  "graph_inv g \<longleftrightarrow>
     bt_wf (nodes g) \<and> list_all (\<lambda>(i, n). node_id n = i) (nodes g) \<and> edges_known g \<and> acyclic (edge_rel g)"

lemma set_bt_insert: "set (bt_insert k v m) \<subseteq> insert (k, v) (set m)"
  by (induction k v m rule: bt_insert.induct) auto

lemma graph_inv_new: "graph_inv graph_new"
  by (simp add: graph_inv_def graph_new_def edges_known_def edge_rel_def acyclic_def)

lemma node_add_node:
  "graph_inv g \<Longrightarrow> node (add_node n g) i = (if i = node_id n then Some n else node g i)"
  by (simp add: graph_inv_def node_def add_node_def bt_get_insert)

lemma graph_inv_add_node:
  assumes "graph_inv g"
  shows "graph_inv (add_node n g)"
proof -
  have "list_all (\<lambda>(i, n). node_id n = i) (nodes (add_node n g))"
    using assms set_bt_insert [of "node_id n" n "nodes g"]
    by (fastforce simp: graph_inv_def add_node_def list_all_iff)
  moreover have "edges_known (add_node n g)"
    using assms node_add_node [OF assms] by (auto simp: graph_inv_def edges_known_def list_all_iff add_node_def)
  ultimately show ?thesis
    using assms by (simp add: graph_inv_def add_node_def edge_rel_def)
qed

lemma edges_known_snoc:
  "edges_known g \<Longrightarrow> node g (parent e) \<noteq> None \<Longrightarrow> node g (child e) \<noteq> None \<Longrightarrow>
     edges_known (g\<lparr>edges := edges g @ [e]\<rparr>)"
  by (auto simp: edges_known_def node_def)

lemma edge_rel_snoc: "edge_rel (g\<lparr>edges := edges g @ [e]\<rparr>) = insert (child e, parent e) (edge_rel g)"
  by (simp add: edge_rel_def)

lemma add_delegation_eq:
  assumes "edges_known g"
  shows "add_delegation e g =
     (if node g (parent e) = None \<or> node g (child e) = None
      then (Inl (Encoding (''delegation references unknown node(s) '' @ parent e @ '' -> '' @ child e)), g)
      else if acyclic (insert (child e, parent e) (edge_rel g)) then (Inr (), g\<lparr>edges := edges g @ [e]\<rparr>)
      else (Inl (Encoding ''delegation would create a cycle in the trust graph''), g))"
  using is_acyclic_iff [OF edges_known_snoc [OF assms, of e]]
  by (auto simp: add_delegation_def Let_def edge_rel_snoc)

lemma graph_inv_add_delegation:
  assumes "graph_inv g"
  shows "graph_inv (snd (add_delegation e g))"
proof -
  have k: "edges_known g"
    using assms by (simp add: graph_inv_def)
  show ?thesis
    using assms edges_known_snoc [OF k, of e]
    unfolding add_delegation_eq [OF k] by (auto simp: graph_inv_def edge_rel_snoc)
qed

datatype 'j graph_op = AddNode "'j authority_node" | AddDelegation delegation_edge

fun graph_exec :: "'j graph_op \<Rightarrow> 'j trust_graph \<Rightarrow> 'j trust_graph" where
  "graph_exec (AddNode n) g = add_node n g"
| "graph_exec (AddDelegation e) g = snd (add_delegation e g)"

interpretation graph_ops: op_invariant graph_exec graph_inv
proof unfold_locales
  show "graph_inv (graph_exec a s)" if "graph_inv s" for a and s :: "'j trust_graph"
    using that by (cases a) (auto simp: graph_inv_add_node graph_inv_add_delegation)
qed

section \<open>The path search\<close>

text \<open>The paths of the graph from an authority to an anchored root, and the links met on the way up.\<close>

inductive path_from for b :: "'l trust_anchor_bundle" and g :: "'j trust_graph" where
  path_root: "kind nd = Root \<Longrightarrow> matches_root b (public_key nd) \<Longrightarrow> path_from b g nd [] nd"
| path_step: "kind nd \<noteq> Root \<Longrightarrow> e \<in> set (parents_of g (node_id nd)) \<Longrightarrow> node g (parent e) = Some p \<Longrightarrow>
    path_from b g p ls r \<Longrightarrow> path_from b g nd (link_of p nd e # ls) r"

inductive link_from for g :: "'j trust_graph" where
  link_here: "kind nd \<noteq> Root \<Longrightarrow> e \<in> set (parents_of g (node_id nd)) \<Longrightarrow> node g (parent e) = Some p \<Longrightarrow>
    link_from g nd (link_of p nd e)"
| link_up: "kind nd \<noteq> Root \<Longrightarrow> e \<in> set (parents_of g (node_id nd)) \<Longrightarrow> node g (parent e) = Some p \<Longrightarrow>
    link_from g p l \<Longrightarrow> link_from g nd l"

inductive_simps path_from_Root: "path_from b g nd ls r"
inductive_simps link_from_unfold: "link_from g nd l"

lemma path_links: "path_from b g nd ls r \<Longrightarrow> l \<in> set ls \<Longrightarrow> link_from g nd l"
  by (induction rule: path_from.induct) (auto intro: link_from.intros)

definition through :: "'l trust_anchor_bundle \<Rightarrow> 'j trust_graph \<Rightarrow> 'j authority_node \<Rightarrow> delegation_edge list
    \<Rightarrow> ('j path_link list \<times> 'j authority_node) set" where
  "through b g nd es = {(link_of p nd e # ls, r) | e p ls r.
     e \<in> set es \<and> node g (parent e) = Some p \<and> path_from b g p ls r}"

definition links_via :: "'j trust_graph \<Rightarrow> 'j authority_node \<Rightarrow> delegation_edge list \<Rightarrow> 'j path_link set" where
  "links_via g nd es = {l. \<exists>e p. e \<in> set es \<and> node g (parent e) = Some p \<and> (l = link_of p nd e \<or> link_from g p l)}"

lemma through_Cons:
  "through b g nd (e # es) =
     (case node g (parent e) of
        None \<Rightarrow> {}
      | Some p \<Rightarrow> (\<lambda>(ls, r). (link_of p nd e # ls, r)) ` {(ls, r). path_from b g p ls r}) \<union> through b g nd es"
  unfolding through_def by (auto split: option.splits)

lemma links_via_Cons:
  "links_via g nd (e # es) =
     (case node g (parent e) of None \<Rightarrow> {} | Some p \<Rightarrow> insert (link_of p nd e) {l. link_from g p l})
     \<union> links_via g nd es"
  unfolding links_via_def by (auto split: option.splits)

lemma paths_eq:
  "{(ls, r). path_from b g nd ls r} =
     (if kind nd = Root then if matches_root b (public_key nd) then {([], nd)} else {}
      else through b g nd (parents_of g (node_id nd)))"
  unfolding through_def by (auto simp: path_from_Root [of b g nd])

lemma links_eq:
  "{l. link_from g nd l} = (if kind nd = Root then {} else links_via g nd (parents_of g (node_id nd)))"
  unfolding links_via_def by (auto simp: link_from_unfold [of g nd])

definition extend_path :: "'j path_link list \<Rightarrow> 'j path_link list \<times> 'j authority_node \<Rightarrow> 'j verification_path" where
  "extend_path pre p = \<lparr> links = pre @ fst p, root = snd p \<rparr>"

lemma extend_path_link: "extend_path pre ` (\<lambda>(ls, r). (l # ls, r)) ` P = extend_path (pre @ [l]) ` P"
  by (simp add: image_image extend_path_def case_prod_beta)

definition walk_spec ::
  "('j authority_node \<Rightarrow> signatif_error + bytes) \<Rightarrow> verifier \<Rightarrow> 'j path_link list \<Rightarrow> 'j verification_path list
     \<Rightarrow> signatif_error + 'j verification_path list \<Rightarrow> ('j path_link list \<times> 'j authority_node) set
     \<Rightarrow> 'j path_link set \<Rightarrow> bool" where
  "walk_spec bb verify pre out res ps ls \<longleftrightarrow>
     (case res of
        Inl err \<Rightarrow> \<exists>l \<in> ls. check_link bb verify l = Inl err
      | Inr out' \<Rightarrow> set out' = set out \<union> extend_path pre ` ps \<and> (\<forall>l \<in> ls. check_link bb verify l = Inr ()))"

lemma walk_correct:
  "walk n bb verify b g nd pre out = Some res \<Longrightarrow>
     walk_spec bb verify pre out res {(ls, r). path_from b g nd ls r} {l. link_from g nd l}"
  "walk_parents n bb verify b g nd es pre out = Some res \<Longrightarrow>
     walk_spec bb verify pre out res (through b g nd es) (links_via g nd es)"
proof (induction n bb verify b g nd pre out and n bb verify b g nd es pre out
    arbitrary: res and res rule: walk_walk_parents.induct)
  case (2 n bb verify b g nd pre out)
  then show ?case
    unfolding paths_eq links_eq by (auto simp: walk_spec_def extend_path_def split: if_splits)
next
  case (3 n bb verify b g nd pre out)
  then show ?case
    by (auto simp: walk_spec_def through_def links_via_def)
next
  case (4 n bb verify b g nd e es pre out)
  show ?case
  proof (cases "node g (parent e)")
    case None
    then show ?thesis
      using 4 by (simp add: through_Cons links_via_Cons)
  next
    case (Some p)
    note p = Some
    show ?thesis
    proof (cases "check_link bb verify (link_of p nd e)")
      case (Inl err)
      then show ?thesis
        using 4 p by (auto simp: walk_spec_def links_via_Cons)
    next
      case (Inr u)
      note c = Inr
      then obtain res1 where w: "walk n bb verify b g p (pre @ [link_of p nd e]) out = Some res1"
        using 4 p by (auto split: option.splits)
      have spec: "walk_spec bb verify (pre @ [link_of p nd e]) out res1
          {(ls, r). path_from b g p ls r} {l. link_from g p l}"
        using 4(2) [OF p Inr w] .
      show ?thesis
      proof (cases res1)
        case (Inl err)
        then show ?thesis
          using "4.prems" p c w spec by (auto simp: walk_spec_def links_via_Cons)
      next
        case (Inr out1)
        then have "walk_parents n bb verify b g nd es pre out1 = Some res"
          using "4.prems" p c w by simp
        then have "walk_spec bb verify pre out1 res (through b g nd es) (links_via g nd es)"
          using 4(3) [OF p c w Inr] by simp
        then show ?thesis
          using spec Inr p c
          by (auto simp: walk_spec_def through_Cons links_via_Cons image_Un extend_path_link split: sum.splits)
      qed
    qed
  qed
qed auto

text \<open>Enough fuel: each step up an acyclic graph has fewer ancestors left.\<close>

definition ancestors :: "'j trust_graph \<Rightarrow> string \<Rightarrow> string set" where
  "ancestors g i = {v. (i, v) \<in> (edge_rel g)\<^sup>+}"

lemma ancestors_nodes:
  assumes "graph_inv g"
  shows "ancestors g i \<subseteq> set (map fst (nodes g))"
proof
  fix v
  assume "v \<in> ancestors g i"
  then obtain w where "(w, v) \<in> edge_rel g"
    unfolding ancestors_def using tranclD2 by fast
  then have "node g v \<noteq> None"
    using assms by (auto simp: graph_inv_def edges_known_def edge_rel_def list_all_iff)
  then show "v \<in> set (map fst (nodes g))"
    unfolding node_known .
qed

lemma finite_ancestors: "graph_inv g \<Longrightarrow> finite (ancestors g i)"
  using ancestors_nodes finite_subset by blast

lemma ancestors_step:
  assumes "graph_inv g" "e \<in> set (parents_of g i)"
  shows "card (ancestors g (parent e)) < card (ancestors g i)"
proof (rule psubset_card_mono)
  have step: "(i, parent e) \<in> edge_rel g"
    using assms(2) by (rule edge_relI)
  then have "ancestors g (parent e) \<subseteq> ancestors g i" "parent e \<in> ancestors g i"
    by (auto simp: ancestors_def intro: trancl_into_trancl2)
  moreover have "parent e \<notin> ancestors g (parent e)"
    using assms(1) by (simp add: ancestors_def graph_inv_def acyclic_def)
  ultimately show "ancestors g (parent e) \<subset> ancestors g i"
    by blast
qed (use assms finite_ancestors in blast)

lemma node_key: "graph_inv g \<Longrightarrow> node g i = Some nd \<Longrightarrow> node_id nd = i"
  by (auto simp: graph_inv_def node_def list_all_iff dest!: map_of_SomeD)

lemma walk_total:
  "graph_inv g \<Longrightarrow> card (ancestors g (node_id nd)) < n \<Longrightarrow>
     walk n bb verify b g nd pre out \<noteq> None"
  "graph_inv g \<Longrightarrow> (\<forall>e \<in> set es. card (ancestors g (parent e)) < n) \<Longrightarrow>
     walk_parents n bb verify b g nd es pre out \<noteq> None"
proof (induction n bb verify b g nd pre out and n bb verify b g nd es pre out rule: walk_walk_parents.induct)
  case (2 n bb verify b g nd pre out)
  have "\<forall>e \<in> set (parents_of g (node_id nd)). card (ancestors g (parent e)) < n"
    using ancestors_step [OF "2.prems"(1)] "2.prems"(2) by (meson less_Suc_eq_le less_le_trans)
  then show ?case
    using 2 by simp
next
  case (4 n bb verify b g nd e es pre out)
  then show ?case
    using node_key [OF "4.prems"(1), of "parent e"] by (auto split: option.splits sum.splits)
qed auto

end
