(* ===== verification/Json.thy ===== *)
theory Json
  imports Ordered_Map Signatif_Error Text_Encoding "HOL-Library.Multiset"
begin

text \<open>
  JSON values and their canonical text (\<open>confium-signatif/src/jcs.rs\<close>, RFC 8785).  A value is a datatype over
  a type of numbers; an object is its list of members in iteration order.  Strings are their UTF-8 bytes, so
  \<open>utf16\<close> decodes them before object keys are compared.  The text of a floating-point number (the JSON and
  float crates) is a parameter.
\<close>

section \<open>Values\<close>

datatype 'n json =
    JNull
  | JBool bool
  | JNumber 'n
  | JString string
  | JArray "'n json list"
  | JObject "(string \<times> 'n json) list"

text \<open>The numbers of the JSON crate: unsigned, negative and floating.\<close>

datatype 'f number = PosInt u64 | NegInt int | Float 'f

record 'f float_ops =
  is_finite :: "'f \<Rightarrow> bool"
  is_zero :: "'f \<Rightarrow> bool"
  float_text :: "'f \<Rightarrow> string"

section \<open>Strings\<close>

definition hex_digit :: "nat \<Rightarrow> char" where
  "hex_digit n = (if n < 10 then char_of (48 + n) else char_of (87 + n))"

definition escape :: "char \<Rightarrow> string" where
  "escape c =
     (if c = CHR 0x22 then [CHR 0x5C, CHR 0x22]
      else if c = CHR 0x5C then [CHR 0x5C, CHR 0x5C]
      else if c = CHR 0x08 then [CHR 0x5C, CHR ''b'']
      else if c = CHR 0x09 then [CHR 0x5C, CHR ''t'']
      else if c = CHR 0x0A then [CHR 0x5C, CHR ''n'']
      else if c = CHR 0x0C then [CHR 0x5C, CHR ''f'']
      else if c = CHR 0x0D then [CHR 0x5C, CHR ''r'']
      else if (of_char c :: nat) < 0x20
      then [CHR 0x5C, CHR ''u'', CHR ''0'', CHR ''0'', hex_digit (of_char c div 16), hex_digit (of_char c mod 16)]
      else [c])"

definition write_string :: "string \<Rightarrow> string" where
  "write_string s = CHR 0x22 # concat (map escape s) @ [CHR 0x22]"

text \<open>The UTF-16 code units of a code point.\<close>

definition code_units :: "nat \<Rightarrow> nat list" where
  "code_units p =
     (if p < 0x10000 then [p] else [0xD800 + (p - 0x10000) div 1024, 0xDC00 + (p - 0x10000) mod 1024])"

definition utf16 :: "string \<Rightarrow> nat list" where
  "utf16 s = concat (map code_units (code_points (map of_char s)))"

section \<open>The canonical text\<close>

fun write_number :: "'f float_ops \<Rightarrow> 'f number \<Rightarrow> signatif_error + string" where
  "write_number fo (PosInt n) = Inr (decimal (unat n))"
| "write_number fo (NegInt i) =
     Inr (if i < 0 then CHR ''-'' # decimal (nat (- i)) else decimal (nat i))"
| "write_number fo (Float f) =
     (if \<not> is_finite fo f then Inl (Encoding ''NaN and Infinity are not allowed'')
      else if is_zero fo f then Inr ''0''
      else Inr (float_text fo f))"

lemma size_list_sort_key [simp]: "size_list f (sort_key g xs) = size_list f xs"
  by (simp add: size_list_conv_sum_list flip: sum_mset_sum_list)

function (sequential) write_value :: "'f float_ops \<Rightarrow> 'f number json \<Rightarrow> signatif_error + string"
  and write_items :: "'f float_ops \<Rightarrow> bool \<Rightarrow> 'f number json list \<Rightarrow> signatif_error + string"
  and write_members :: "'f float_ops \<Rightarrow> bool \<Rightarrow> (string \<times> 'f number json) list \<Rightarrow> signatif_error + string" where
  "write_value fo JNull = Inr ''null''"
| "write_value fo (JBool b) = Inr (if b then ''true'' else ''false'')"
| "write_value fo (JNumber n) = write_number fo n"
| "write_value fo (JString s) = Inr (write_string s)"
| "write_value fo (JArray xs) = try_bind (write_items fo True xs) (\<lambda>t. Inr (CHR ''['' # t @ '']''))"
| "write_value fo (JObject ms) =
     try_bind (write_members fo True (sort_key (utf16 \<circ> fst) ms)) (\<lambda>t. Inr (CHR ''{'' # t @ ''}''))"
| "write_items fo first [] = Inr []"
| "write_items fo first (x # xs) =
     try_bind (write_value fo x) (\<lambda>t. try_bind (write_items fo False xs) (\<lambda>ts.
       Inr ((if first then [] else '','') @ t @ ts)))"
| "write_members fo first [] = Inr []"
| "write_members fo first ((k, v) # ms) =
     try_bind (write_value fo v) (\<lambda>t. try_bind (write_members fo False ms) (\<lambda>ts.
       Inr ((if first then [] else '','') @ write_string k @ '':'' @ t @ ts)))"
  by pat_completeness auto

termination
  by (relation "measure
       (case_sum (\<lambda>(_, v). 2 * size v)
         (case_sum (\<lambda>(_, _, xs). Suc (2 * size_list size xs))
           (\<lambda>(_, _, ms). Suc (2 * size_list (size_prod (\<lambda>_. 0) size) ms))))") auto

definition canonicalize :: "'f float_ops \<Rightarrow> 'f number json \<Rightarrow> signatif_error + string" where
  "canonicalize fo v = write_value fo v"

end
