(* ===== verification/Trust_Graph_Properties.thy ===== *)
theory Trust_Graph_Properties
  imports Trust_Graph_Proofs Json
begin

text \<open>
  The properties of the trust graph, with witnesses on a chain of three authorities.
\<close>

section \<open>A small graph\<close>

type_synonym demo_json = "unit number json"

definition authority :: "string \<Rightarrow> authority_kind \<Rightarrow> bytes \<Rightarrow> scope_value \<Rightarrow> demo_json authority_node" where
  "authority i k pk v =
     \<lparr> node_id = i, kind = k, public_key = pk, node_quorum = None, node_scope = scope_set ''domain'' v unconstrained \<rparr>"

definition delegation :: "string \<Rightarrow> string \<Rightarrow> bytes \<Rightarrow> delegation_edge" where
  "delegation p c s = \<lparr> parent = p, child = c, signature = s \<rparr>"

definition chain_ops :: "demo_json graph_op list" where
  "chain_ops =
     [AddNode (authority ''r'' Root [1] Wildcard),
      AddNode (authority ''d'' Delegated [2] (Single ''steel'')),
      AddNode (authority ''e'' EndCertificate [3] (Single ''steel'')),
      AddDelegation (delegation ''r'' ''d'' [1]),
      AddDelegation (delegation ''d'' ''e'' [2])]"

definition chain_graph :: "demo_json trust_graph" where
  "chain_graph = fold graph_exec chain_ops graph_new"

text \<open>A verifier that accepts the signer's key bytes as its signature.\<close>

definition key_verifier :: verifier where
  "key_verifier pk msg sig \<longleftrightarrow> sig = pk"

definition no_binding :: "demo_json authority_node \<Rightarrow> signatif_error + bytes" where
  "no_binding n = Inr []"

definition one_root :: "unit trust_anchor_bundle" where
  "one_root = \<lparr> bundle_version = ''1'', valid_from = 0, valid_until = 100,
     bundle_roots = [\<lparr> anchor_name = ''r'', aggregate_key = [1], anchor_fingerprint = '''', anchor_quorum = None \<rparr>],
     transparency_logs = [], update_log = None, bundle_signature = [1] \<rparr>"

lemma chain_graph_inv: "graph_inv chain_graph"
  unfolding chain_graph_def by (rule graph_ops.run_inv [OF graph_inv_new])

lemma chain_graph_eval:
  "chain_graph =
     \<lparr> nodes = [(''d'', authority ''d'' Delegated [2] (Single ''steel'')),
                (''e'', authority ''e'' EndCertificate [3] (Single ''steel'')),
                (''r'', authority ''r'' Root [1] Wildcard)],
       edges = [delegation ''r'' ''d'' [1], delegation ''d'' ''e'' [2]] \<rparr>"
  by code_simp

definition chain_signer :: "demo_json authority_node" where
  "chain_signer = authority ''e'' EndCertificate [3] (Single ''steel'')"

definition chain_path :: "demo_json verification_path" where
  "chain_path = \<lparr> links =
        [link_of (authority ''d'' Delegated [2] (Single ''steel'')) chain_signer (delegation ''d'' ''e'' [2]),
         link_of (authority ''r'' Root [1] Wildcard) (authority ''d'' Delegated [2] (Single ''steel''))
           (delegation ''r'' ''d'' [1])],
        root = authority ''r'' Root [1] Wildcard \<rparr>"

lemma chain_paths_eval:
  "find_paths no_binding key_verifier one_root chain_graph ''e'' = Some (Inr [chain_path])"
  by code_simp

lemma chain_node_eval: "node chain_graph ''e'' = Some chain_signer"
  by (simp add: chain_graph_eval node_def chain_signer_def)

section \<open>Acyclicity\<close>



text \<open>C20: Every graph built by any sequence of \<open>add_node\<close> and \<open>add_delegation\<close> calls, refused ones included,
  is acyclic and has edges between known nodes only.\<close>

theorem graph_always_acyclic:
  "acyclic (edge_rel (fold graph_exec ops graph_new)) \<and> edges_known (fold graph_exec ops graph_new)"
  using graph_ops.run_inv [OF graph_inv_new, of ops] by (simp add: graph_inv_def)

text \<open>\<open>add_delegation\<close> accepts an edge exactly when both endpoints are known and the relation stays
  acyclic with it; a refused edge leaves the graph as it was.\<close>

theorem add_delegation_exact:
  assumes "graph_inv g"
  shows "(if node g (parent e) \<noteq> None \<and> node g (child e) \<noteq> None \<and> acyclic (insert (child e, parent e) (edge_rel g))
          then add_delegation e g = (Inr (), g\<lparr>edges := edges g @ [e]\<rparr>)
          else \<not> is_ok (fst (add_delegation e g)) \<and> snd (add_delegation e g) = g)"
  using assms add_delegation_eq [of g e] by (auto simp: graph_inv_def)

theorem add_delegation_exact_witness:
  "\<not> is_ok (fst (add_delegation (delegation ''e'' ''r'' [9]) chain_graph)) \<and>
     snd (add_delegation (delegation ''e'' ''r'' [9]) chain_graph) = chain_graph"
proof -
  have "(''e'', ''d'') \<in> edge_rel chain_graph" "(''d'', ''r'') \<in> edge_rel chain_graph"
    by (simp_all add: chain_graph_eval edge_rel_def delegation_def)
  then have "(''e'', ''r'') \<in> (edge_rel chain_graph)\<^sup>*"
    by (meson r_into_rtrancl rtrancl_trans)
  then have "\<not> acyclic (insert (child (delegation ''e'' ''r'' [9]), parent (delegation ''e'' ''r'' [9]))
      (edge_rel chain_graph))"
    by (simp add: acyclic_insert delegation_def)
  then show ?thesis
    using add_delegation_exact [OF chain_graph_inv, of "delegation ''e'' ''r'' [9]"] by argo
qed

section \<open>Verification paths\<close>

lemma check_link_narrows:
  "check_link bb verify l = Inr () \<Longrightarrow> narrows_within (node_scope (link_child l)) (node_scope (link_parent l))"
  by (auto simp: check_link_def narrows_within_def try_bind_Inr_iff split: if_splits option.splits)

lemma path_from_narrows:
  assumes "path_from b g nd ls r" "\<And>l. link_from g nd l \<Longrightarrow> check_link bb verify l = Inr ()" "d \<in> set named"
  shows "the (scope_get (node_scope nd) d) \<le> the (scope_get (node_scope r) d) \<and>
     kind r = Root \<and> matches_root b (public_key r)"
  using assms(1,2)
proof (induction rule: path_from.induct)
  case (path_step nd e p ls r)
  have "narrows_within (node_scope nd) (node_scope p)"
    using check_link_narrows [OF path_step.prems [OF link_here [OF path_step.hyps(1-3)]]] by (simp add: link_of_def)
  then have "the (scope_get (node_scope nd) d) \<le> the (scope_get (node_scope p) d)"
    using assms(3) by (rule narrows_named)
  moreover have "the (scope_get (node_scope p) d) \<le> the (scope_get (node_scope r) d) \<and>
      kind r = Root \<and> matches_root b (public_key r)"
    using path_step.IH path_step.prems link_up [OF path_step.hyps(1-3)] by blast
  ultimately show ?case
    by (auto intro: order_trans)
qed simp

lemma find_paths_spec:
  assumes "graph_inv g" "node g signer = Some nd"
  shows "\<exists>res. find_paths bb verify b g signer = Some res \<and>
     (case res of
        Inl err \<Rightarrow> (\<exists>l. link_from g nd l \<and> check_link bb verify l = Inl err)
      | Inr ps \<Rightarrow> set ps = {\<lparr> links = ls, root = r \<rparr> | ls r. path_from b g nd ls r} \<and>
          (\<forall>l. link_from g nd l \<longrightarrow> check_link bb verify l = Inr ()))"
proof -
  have "card (ancestors g (node_id nd)) \<le> card (set (map fst (nodes g)))"
    by (intro card_mono ancestors_nodes assms) simp
  also have "\<dots> \<le> length (nodes g)"
    using card_length [of "map fst (nodes g)"] by simp
  finally obtain res where w: "walk (Suc (length (nodes g))) bb verify b g nd [] [] = Some res"
    using walk_total(1) [OF assms(1), of nd "Suc (length (nodes g))"] by fastforce
  have "extend_path [] ` {(ls, r). path_from b g nd ls r} = {\<lparr> links = ls, root = r \<rparr> | ls r. path_from b g nd ls r}"
    by (auto simp: extend_path_def image_def)
  then show ?thesis
    using walk_correct(1) [OF w] w assms(2) by (auto simp: walk_spec_def find_paths_def split: sum.splits)
qed

text \<open>C3: On every graph the operations build, \<open>find_paths\<close> returns: it either reports the failed check of a
  link met on the way up from the signer, or returns exactly the paths from the signer to the roots anchored
  in the bundle, every link met having passed the signature and narrowing checks.\<close>

theorem find_paths_exact:
  assumes "graph_inv g" "node g signer = Some nd"
  shows "\<exists>res. find_paths bb verify b g signer = Some res \<and>
     (case res of
        Inl err \<Rightarrow> (\<exists>l. link_from g nd l \<and> check_link bb verify l = Inl err)
      | Inr ps \<Rightarrow> set ps = {\<lparr> links = ls, root = r \<rparr> | ls r. path_from b g nd ls r} \<and>
          (\<forall>l. link_from g nd l \<longrightarrow> check_link bb verify l = Inr ()))"
  using assms by (rule find_paths_spec)

theorem find_paths_exact_witness:
  "path_from one_root chain_graph chain_signer (links chain_path) (root chain_path) \<and> length (links chain_path) = 2"
proof -
  have "set [chain_path] = {\<lparr> links = ls, root = r \<rparr> | ls r. path_from one_root chain_graph chain_signer ls r}"
    using find_paths_exact [OF chain_graph_inv chain_node_eval, of no_binding key_verifier one_root]
    unfolding chain_paths_eval by simp
  then have "chain_path \<in> {\<lparr> links = ls, root = r \<rparr> | ls r. path_from one_root chain_graph chain_signer ls r}"
    by (metis list.set_intros(1))
  then show ?thesis
    by (auto simp: chain_path_def)
qed

text \<open>C22: Along every path \<open>find_paths\<close> returns, each named dimension of the signer's scope lies within the
  anchored root's: delegation only ever narrows.\<close>

theorem path_scope_within_root:
  assumes "graph_inv g" "find_paths bb verify b g signer = Some (Inr ps)" "p \<in> set ps" "d \<in> set named"
  shows "value_narrows_within (the (scope_get (signer_scope p) d)) (the (scope_get (node_scope (root p)) d)) \<and>
     kind (root p) = Root \<and> matches_root b (public_key (root p))"
proof -
  obtain nd where nd: "node g signer = Some nd"
    using assms(2) by (auto simp: find_paths_def split: option.splits)
  have path: "path_from b g nd (links p) (root p)" and ok: "\<And>l. link_from g nd l \<Longrightarrow> check_link bb verify l = Inr ()"
    using find_paths_spec [OF assms(1) nd, of bb verify b] assms(2,3) by auto
  have sc: "signer_scope p = node_scope nd"
    using path by (cases rule: path_from.cases) (auto simp: signer_scope_def link_of_def)
  show ?thesis
    using path_from_narrows [OF path ok assms(4)] unfolding sc less_eq_scope_value_def by blast
qed

theorem path_scope_within_root_witness:
  "value_narrows_within (the (scope_get (signer_scope chain_path) ''domain''))
     (the (scope_get (node_scope (root chain_path)) ''domain'')) \<and>
   kind (root chain_path) = Root \<and> matches_root one_root (public_key (root chain_path))"
  using path_scope_within_root [OF chain_graph_inv chain_paths_eval, of chain_path "''domain''"]
  by (simp add: named_def)

end
