(* ===== verification/Json_Canonical.thy ===== *)
theory Json_Canonical
  imports Json
begin

text \<open>
  Canonical JSON is unambiguous: two values have the same canonical text exactly when they agree up to the
  order of object members and the spelling of numbers.  The proof splits the writer into a normal form
  (numbers as text, members sorted) and a rendering, and shows that rendering is injective.
\<close>

section \<open>Normal form and rendering\<close>

definition num_text :: "'f float_ops \<Rightarrow> 'f number \<Rightarrow> string" where
  "num_text fo n = (case write_number fo n of Inl _ \<Rightarrow> [] | Inr t \<Rightarrow> t)"

primrec normal :: "'f float_ops \<Rightarrow> 'f number json \<Rightarrow> string json" where
  "normal fo JNull = JNull"
| "normal fo (JBool b) = JBool b"
| "normal fo (JNumber n) = JNumber (num_text fo n)"
| "normal fo (JString s) = JString s"
| "normal fo (JArray xs) = JArray (map (normal fo) xs)"
| "normal fo (JObject ms) = JObject (sort_key (utf16 \<circ> fst) (map (map_prod id (normal fo)) ms))"

fun tail_text :: "string list \<Rightarrow> string" where
  "tail_text [] = []"
| "tail_text (t # ts) = CHR '','' # t @ tail_text ts"

fun sep_text :: "string list \<Rightarrow> string" where
  "sep_text [] = []"
| "sep_text (t # ts) = t @ tail_text ts"

definition member_text :: "string \<times> string \<Rightarrow> string" where
  "member_text kt = write_string (fst kt) @ CHR '':'' # snd kt"

primrec render :: "string json \<Rightarrow> string" where
  "render JNull = ''null''"
| "render (JBool b) = (if b then ''true'' else ''false'')"
| "render (JNumber t) = t"
| "render (JString s) = write_string s"
| "render (JArray xs) = CHR ''['' # sep_text (map render xs) @ '']''"
| "render (JObject ms) = CHR ''{'' # sep_text (map member_text (map (map_prod id render) ms)) @ ''}''"

lemma map_insort_key:
  "(\<And>y. f (h y) = g y) \<Longrightarrow> map h (insort_key g x xs) = insort_key f (h x) (map h xs)"
  by (induction xs) auto

lemma map_sort_key: "(\<And>y. f (h y) = g y) \<Longrightarrow> map h (sort_key g xs) = sort_key f (map h xs)"
  by (induction xs) (simp_all add: map_insort_key [of f h g])

lemma map_sort_members:
  "map (map_prod id h) (sort_key (utf16 \<circ> fst) ms) = sort_key (utf16 \<circ> fst) (map (map_prod id h) ms)"
  by (rule map_sort_key) simp

lemma render_members:
  "map member_text (map (map_prod id render) (sort_key (utf16 \<circ> fst) (map (map_prod id (normal fo)) ms))) =
     map (member_text \<circ> map_prod id (render \<circ> normal fo)) (sort_key (utf16 \<circ> fst) ms)"
  unfolding map_sort_members [symmetric] map_map by (rule map_cong) (auto simp: map_prod_def)

lemma write_value_render:
  "write_value fo v = Inr t \<Longrightarrow> t = render (normal fo v)"
  "write_items fo first xs = Inr t \<Longrightarrow>
     t = (if first then sep_text else tail_text) (map (render \<circ> normal fo) xs)"
  "write_members fo first ms = Inr t \<Longrightarrow>
     t = (if first then sep_text else tail_text) (map (member_text \<circ> map_prod id (render \<circ> normal fo)) ms)"
proof (induction fo v and fo first xs and fo first ms arbitrary: t and t and t
    rule: write_value_write_items_write_members.induct)
  case (6 fo ms)
  then show ?case
    by (auto simp only: try_bind_Inr_iff write_value.simps normal.simps render.simps render_members if_True sum.inject)
next
  case (8 fo first x xs)
  from "8.prems" obtain u us where "write_value fo x = Inr u" "write_items fo False xs = Inr us"
    "t = (if first then [] else '','') @ u @ us"
    by (auto simp: try_bind_Inr_iff)
  then show ?case
    using "8.IH" by auto
next
  case (10 fo first k v ms)
  from "10.prems" obtain u us where "write_value fo v = Inr u" "write_members fo False ms = Inr us"
    "t = (if first then [] else '','') @ write_string k @ '':'' @ u @ us"
    by (auto simp: try_bind_Inr_iff)
  then show ?case
    using "10.IH" by (auto simp: member_text_def)
qed (auto simp: try_bind_Inr_iff num_text_def)

section \<open>Strings\<close>

definition unhex :: "char \<Rightarrow> nat" where
  "unhex c = (if of_char c < (58 :: nat) then of_char c - 48 else of_char c - 87)"

fun unescape :: "string \<Rightarrow> (char \<times> string) option" where
  "unescape (c # cs) =
     (if c \<noteq> CHR 0x5C then Some (c, cs)
      else case cs of
        d # ds \<Rightarrow>
          if d = CHR ''b'' then Some (CHR 0x08, ds)
          else if d = CHR ''t'' then Some (CHR 0x09, ds)
          else if d = CHR ''n'' then Some (CHR 0x0A, ds)
          else if d = CHR ''f'' then Some (CHR 0x0C, ds)
          else if d = CHR ''r'' then Some (CHR 0x0D, ds)
          else if d = CHR ''u'' then Some (char_of (16 * unhex (ds ! 2) + unhex (ds ! 3)), drop 4 ds)
          else Some (d, ds)
      | [] \<Rightarrow> None)"
| "unescape [] = None"

lemma unhex_digit: "n < 16 \<Longrightarrow> unhex (hex_digit n) = n"
  by (auto simp: unhex_def hex_digit_def of_char_of)

lemma unescape_escape: "unescape (escape c @ r) = Some (c, r)"
proof -
  have "char_of (16 * unhex (hex_digit (of_char c div 16)) + unhex (hex_digit (of_char c mod 16))) = c"
    if "(of_char c :: nat) < 32"
    using that by (subst (1 2) unhex_digit) auto
  then show ?thesis
    by (auto simp: escape_def)
qed

lemma escape_inject:
  assumes "escape c @ r = escape d @ r'"
  shows "c = d \<and> r = r'"
proof -
  have "unescape (escape c @ r) = unescape (escape d @ r')"
    using assms by (rule arg_cong)
  then show ?thesis
    unfolding unescape_escape by simp
qed

lemma escape_head: "\<exists>x xs. escape c = x # xs \<and> x \<noteq> CHR 0x22"
  by (auto simp: escape_def)

lemma escapes_inject:
  "concat (map escape s) @ CHR 0x22 # r = concat (map escape s') @ CHR 0x22 # r' \<Longrightarrow> s = s' \<and> r = r'"
proof (induction s arbitrary: s')
  case Nil
  then show ?case
  proof (cases s')
    case (Cons d s'')
    obtain x xs where "escape d = x # xs" "x \<noteq> CHR 0x22"
      using escape_head by blast
    then show ?thesis
      using Nil Cons by simp
  qed simp
next
  case (Cons c s)
  show ?case
  proof (cases s')
    case Nil
    obtain x xs where "escape c = x # xs" "x \<noteq> CHR 0x22"
      using escape_head by blast
    then show ?thesis
      using Cons.prems Nil by simp
  next
    case (Cons d s'')
    then have "escape c @ (concat (map escape s) @ CHR 0x22 # r) = escape d @ (concat (map escape s'') @ CHR 0x22 # r')"
      using Cons.prems by simp
    then show ?thesis
      using escape_inject Cons.IH [of s''] Cons by blast
  qed
qed

lemma write_string_inject: "write_string s @ r = write_string s' @ r' \<Longrightarrow> s = s' \<and> r = r'"
  by (rule escapes_inject) (simp add: write_string_def)

section \<open>Rendering is injective\<close>

definition num_chars :: "char set" where
  "num_chars = set ''0123456789+-.eE''"

definition num_ok :: "string \<Rightarrow> bool" where
  "num_ok t \<longleftrightarrow> t \<noteq> [] \<and> set t \<subseteq> num_chars \<and> hd t \<in> set ''0123456789-''"

definition delim :: "string \<Rightarrow> bool" where
  "delim r \<longleftrightarrow> r = [] \<or> hd r \<notin> num_chars"

definition nums_ok :: "string json \<Rightarrow> bool" where
  "nums_ok v \<longleftrightarrow> (\<forall>t \<in> set_json v. num_ok t)"

definition class_of :: "char \<Rightarrow> nat" where
  "class_of c =
     (if c = CHR ''n'' then 0 else if c = CHR ''t'' \<or> c = CHR ''f'' then 1
      else if c \<in> set ''0123456789-'' then 2 else if c = CHR 0x22 then 3
      else if c = CHR ''['' then 4 else if c = CHR ''{'' then 5 else 6)"

fun shape :: "'n json \<Rightarrow> nat" where
  "shape JNull = 0"
| "shape (JBool _) = 1"
| "shape (JNumber _) = 2"
| "shape (JString _) = 3"
| "shape (JArray _) = 4"
| "shape (JObject _) = 5"

lemma class_of_num: "c \<in> set ''0123456789-'' \<Longrightarrow> class_of c = 2"
  by (auto simp: class_of_def)

lemma class_of_other:
  "class_of (CHR ''n'') = 0" "class_of (CHR ''t'') = 1" "class_of (CHR ''f'') = 1" "class_of (CHR 0x22) = 3"
  "class_of (CHR ''['') = 4" "class_of (CHR ''{'') = 5" "class_of (CHR '']'') = 6" "class_of (CHR ''}'') = 6"
  by (simp_all add: class_of_def)

lemma render_shape:
  assumes "nums_ok v"
  shows "\<exists>c cs. render v = c # cs \<and> class_of c = shape v"
proof (cases v)
  case (JNumber t)
  then have "num_ok t"
    using assms by (simp add: nums_ok_def)
  then obtain c cs where "t = c # cs" "c \<in> set ''0123456789-''"
    unfolding num_ok_def by (metis list.exhaust_sel)
  then show ?thesis
    using JNumber class_of_num by simp
qed (simp_all add: write_string_def class_of_other)

lemma takeWhile_num:
  assumes "num_ok t" "delim r"
  shows "takeWhile (\<lambda>c. c \<in> num_chars) (t @ r) = t"
proof -
  have "takeWhile (\<lambda>c. c \<in> num_chars) r = []"
    using assms(2) by (cases r) (simp_all add: delim_def)
  moreover have "\<forall>c \<in> set t. c \<in> num_chars"
    using assms(1) unfolding num_ok_def by blast
  ultimately show ?thesis
    by (simp add: takeWhile_append2)
qed

lemma num_inject:
  assumes "num_ok t" "num_ok u" "delim r" "delim r'" and eq: "t @ r = u @ r'"
  shows "t = u \<and> r = r'"
proof -
  have "t = u"
    using takeWhile_num [OF assms(1,3)] takeWhile_num [OF assms(2,4)] unfolding eq by (rule trans [OF sym])
  then show ?thesis
    using eq by simp
qed

text \<open>A separated list of unambiguous texts is unambiguous.\<close>

lemma tail_text_inject:
  assumes g: "\<And>x y r r'. x \<in> set xs \<Longrightarrow> ok y \<Longrightarrow> delim r \<Longrightarrow> delim r' \<Longrightarrow> g x @ r = g y @ r' \<Longrightarrow> x = y \<and> r = r'"
    and "\<forall>y \<in> set ys. ok y" and "close \<notin> num_chars" "close \<noteq> CHR '',''"
    and "tail_text (map g xs) @ close # r = tail_text (map g ys) @ close # r'"
  shows "xs = ys \<and> r = r'"
  using assms(1,2,5)
proof (induction xs arbitrary: ys)
  case Nil
  then show ?case
    using assms(4) by (cases ys) auto
next
  case (Cons x xs)
  obtain y ys' where ys: "ys = y # ys'"
    using Cons.prems(3) assms(4) by (cases ys) auto
  have d: "delim (tail_text (map g zs) @ close # q)" for zs q
    using assms(3) by (cases zs) (auto simp: delim_def num_chars_def)
  have "x = y \<and> tail_text (map g xs) @ close # r = tail_text (map g ys') @ close # r'"
    using Cons.prems(3) ys by (intro Cons.prems(1) d) (use Cons.prems(2) ys in auto)
  then show ?case
    using Cons.IH [of ys'] Cons.prems(1,2) ys by auto
qed

lemma sep_text_inject:
  assumes g: "\<And>x y r r'. x \<in> set xs \<Longrightarrow> ok y \<Longrightarrow> delim r \<Longrightarrow> delim r' \<Longrightarrow> g x @ r = g y @ r' \<Longrightarrow> x = y \<and> r = r'"
    and ys: "\<forall>y \<in> set ys. ok y" and close: "close \<notin> num_chars" "close \<noteq> CHR '',''"
    and head: "\<And>x. x \<in> set xs \<union> set ys \<Longrightarrow> \<exists>c cs. g x = c # cs \<and> c \<noteq> close"
    and eq: "sep_text (map g xs) @ close # r = sep_text (map g ys) @ close # r'"
  shows "xs = ys \<and> r = r'"
proof (cases xs)
  case Nil
  then show ?thesis
    using eq head by (cases ys) (auto, fastforce)
next
  case (Cons x xs')
  have d: "delim (tail_text (map g zs) @ close # q)" for zs q
    using close(1) by (cases zs) (auto simp: delim_def num_chars_def)
  obtain y ys' where y: "ys = y # ys'"
    using Cons eq head [of x] by (cases ys) auto
  have "x = y \<and> tail_text (map g xs') @ close # r = tail_text (map g ys') @ close # r'"
    using eq Cons y ys by (intro g d) auto
  then show ?thesis
    using tail_text_inject [of xs' ok g ys' close r r'] g ys close Cons y by auto
qed

lemma nums_ok_simps [simp]:
  "nums_ok JNull" "nums_ok (JBool b)" "nums_ok (JString s)"
  "nums_ok (JNumber t) \<longleftrightarrow> num_ok t"
  "nums_ok (JArray xs) \<longleftrightarrow> (\<forall>x \<in> set xs. nums_ok x)"
  "nums_ok (JObject ms) \<longleftrightarrow> (\<forall>m \<in> set ms. nums_ok (snd m))"
  by (auto simp: nums_ok_def)

lemma render_shapes:
  assumes "nums_ok v" "nums_ok w" "render v @ r = render w @ r'"
  shows "shape v = shape w"
  using render_shape [OF assms(1)] render_shape [OF assms(2)] assms(3) by auto

lemma render_close:
  assumes "nums_ok v" "c = CHR '']'' \<or> c = CHR ''}''"
  shows "\<exists>d ds. render v = d # ds \<and> d \<noteq> c"
proof -
  obtain d ds where "render v = d # ds" "class_of d = shape v"
    using render_shape [OF assms(1)] by blast
  moreover have "shape v \<noteq> 6"
    by (cases v) auto
  ultimately show ?thesis
    using assms(2) class_of_other by auto
qed

lemma close_num: "CHR '']'' \<notin> num_chars" "CHR ''}'' \<notin> num_chars"
  by (auto simp: num_chars_def)

definition member_render :: "string \<times> string json \<Rightarrow> string" where
  "member_render m = member_text (fst m, render (snd m))"

lemma render_JObject: "render (JObject ms) = CHR ''{'' # sep_text (map member_render ms) @ ''}''"
  by (simp add: member_render_def [abs_def] map_prod_def split_beta comp_def)

lemma member_render_inject:
  assumes "\<And>w r r'. nums_ok w \<Longrightarrow> delim r \<Longrightarrow> delim r' \<Longrightarrow> render (snd m) @ r = render w @ r' \<Longrightarrow> snd m = w \<and> r = r'"
    and "nums_ok (snd m')" "delim r" "delim r'" "member_render m @ r = member_render m' @ r'"
  shows "m = m' \<and> r = r'"
proof -
  have "write_string (fst m) @ CHR '':'' # render (snd m) @ r = write_string (fst m') @ CHR '':'' # render (snd m') @ r'"
    using assms(5) by (simp add: member_render_def member_text_def)
  from write_string_inject [OF this] show ?thesis
    using assms(1) [OF assms(2-4)] by (simp add: prod_eq_iff)
qed

lemma render_inject:
  "nums_ok v \<Longrightarrow> nums_ok w \<Longrightarrow> delim r \<Longrightarrow> delim r' \<Longrightarrow> render v @ r = render w @ r' \<Longrightarrow> v = w \<and> r = r'"
proof (induction v arbitrary: w r r')
  case (JNumber t)
  then obtain u where "w = JNumber u"
    using render_shapes [OF JNumber.prems(1,2,5)] by (cases w) auto
  then show ?case
    using JNumber.prems num_inject [of t u r r'] by simp
next
  case (JString s)
  then obtain u where "w = JString u"
    using render_shapes [OF JString.prems(1,2,5)] by (cases w) auto
  then show ?case
    using JString.prems(5) write_string_inject [of s r u r'] by simp
next
  case (JArray xs)
  then obtain ys where w: "w = JArray ys"
    using render_shapes [OF JArray.prems(1,2,5)] by (cases w) auto
  have "xs = ys \<and> r = r'"
  proof (rule sep_text_inject [where g = render and ok = nums_ok and close = "CHR '']''"])
    show "sep_text (map render xs) @ CHR '']'' # r = sep_text (map render ys) @ CHR '']'' # r'"
      using JArray.prems(5) w by simp
    show "\<And>x y r r'. x \<in> set xs \<Longrightarrow> nums_ok y \<Longrightarrow> delim r \<Longrightarrow> delim r' \<Longrightarrow> render x @ r = render y @ r' \<Longrightarrow> x = y \<and> r = r'"
      using JArray.IH JArray.prems(1) by simp
    show "\<And>x. x \<in> set xs \<union> set ys \<Longrightarrow> \<exists>c cs. render x = c # cs \<and> c \<noteq> CHR '']''"
      using JArray.prems(1,2) w render_close by auto
  qed (use JArray.prems(2) w close_num in auto)
  then show ?case
    using w by simp
next
  case (JObject ms)
  then obtain ns where w: "w = JObject ns"
    using render_shapes [OF JObject.prems(1,2,5)] by (cases w) auto
  have "ms = ns \<and> r = r'"
  proof (rule sep_text_inject [where g = member_render and ok = "\<lambda>m. nums_ok (snd m)" and close = "CHR ''}''"])
    show "sep_text (map member_render ms) @ CHR ''}'' # r = sep_text (map member_render ns) @ CHR ''}'' # r'"
      using JObject.prems(5) unfolding w render_JObject by simp
    show "x = y \<and> q = q'" if "x \<in> set ms" "nums_ok (snd y)" "delim q" "delim q'" "member_render x @ q = member_render y @ q'"
      for x y q q'
    proof (rule member_render_inject)
      show "\<And>w r r'. nums_ok w \<Longrightarrow> delim r \<Longrightarrow> delim r' \<Longrightarrow> render (snd x) @ r = render w @ r' \<Longrightarrow> snd x = w \<and> r = r'"
        using JObject.IH [OF that(1), of "snd x"] JObject.prems(1) that(1) by (simp add: snds.simps)
    qed (use that in auto)
    show "\<And>x. x \<in> set ms \<union> set ns \<Longrightarrow> \<exists>c cs. member_render x = c # cs \<and> c \<noteq> CHR ''}''"
      by (simp add: member_render_def member_text_def write_string_def)
  qed (use JObject.prems(2) w close_num in auto)
  then show ?case
    using w by simp
next
  case JNull
  then show ?case
    using render_shapes [OF JNull.prems(1,2,5)] by (cases w) auto
next
  case (JBool b)
  then show ?case
    using render_shapes [OF JBool.prems(1,2,5)] by (cases w) (auto split: if_splits)
qed

section \<open>Properties\<close>

text \<open>What the float crate promises: the text of a finite float is a JSON number.\<close>

definition float_texts :: "'f float_ops \<Rightarrow> bool" where
  "float_texts fo \<longleftrightarrow> (\<forall>f. is_finite fo f \<longrightarrow> num_ok (float_text fo f))"

lemma digit_char:
  assumes "n < 10"
  shows "digit n \<in> set ''0123456789''"
proof -
  have "list_all (\<lambda>n. digit n \<in> set ''0123456789'') [0..<10]"
    by code_simp
  then show ?thesis
    using assms by (auto simp: list_all_iff)
qed

lemma decimal_digits: "decimal n \<noteq> [] \<and> set (decimal n) \<subseteq> set ''0123456789''"
proof (induction n rule: decimal.induct)
  case (1 n)
  then show ?case
    using digit_char [of n] digit_char [of "n mod 10"] by (cases "n < 10") (auto simp: decimal.simps [of n])
qed

lemma num_ok_decimal: "num_ok (decimal n)" "num_ok (CHR ''-'' # decimal n)"
proof -
  have "hd (decimal n) \<in> set ''0123456789''"
    using decimal_digits [of n] hd_in_set by blast
  moreover have "set ''0123456789'' \<subseteq> num_chars" "set ''0123456789'' \<subseteq> set ''0123456789-''" "CHR ''-'' \<in> num_chars"
    by (auto simp: num_chars_def)
  ultimately show "num_ok (decimal n)" "num_ok (CHR ''-'' # decimal n)"
    using decimal_digits [of n] unfolding num_ok_def by auto
qed

lemma write_number_ok: "float_texts fo \<Longrightarrow> write_number fo n = Inr t \<Longrightarrow> num_ok t"
proof (cases n)
  case (Float f)
  assume "float_texts fo" "write_number fo n = Inr t"
  moreover have "num_ok ''0''"
    by (auto simp: num_ok_def num_chars_def)
  ultimately show ?thesis
    using Float by (auto simp: float_texts_def split: if_splits)
qed (auto simp: num_ok_decimal)

lemma write_value_nums_ok:
  "float_texts fo \<Longrightarrow> write_value fo v = Inr t \<Longrightarrow> nums_ok (normal fo v)"
  "float_texts fo \<Longrightarrow> write_items fo first xs = Inr t \<Longrightarrow> (\<forall>x \<in> set xs. nums_ok (normal fo x))"
  "float_texts fo \<Longrightarrow> write_members fo first ms = Inr t \<Longrightarrow> (\<forall>m \<in> set ms. nums_ok (normal fo (snd m)))"
proof (induction fo v and fo first xs and fo first ms arbitrary: t and t and t
    rule: write_value_write_items_write_members.induct)
  case (3 fo n)
  then show ?case
    using write_number_ok [of fo n t] by (simp add: num_text_def)
qed (auto simp: try_bind_Inr_iff)

lemma canonicalize_render: "canonicalize fo v = Inr s \<Longrightarrow> s = render (normal fo v)"
  unfolding canonicalize_def by (rule write_value_render(1))

lemma canonicalize_eq:
  assumes "float_texts fo" "canonicalize fo v = Inr s" "canonicalize fo w = Inr t"
  shows "s = t \<longleftrightarrow> normal fo v = normal fo w"
proof
  assume "s = t"
  then have "render (normal fo v) @ [] = render (normal fo w) @ []"
    using canonicalize_render [OF assms(2)] canonicalize_render [OF assms(3)] by simp
  then show "normal fo v = normal fo w"
    using render_inject [of "normal fo v" "normal fo w" "[]" "[]"] write_value_nums_ok(1) [OF assms(1)] assms(2,3)
    by (auto simp: canonicalize_def delim_def)
next
  assume "normal fo v = normal fo w"
  then show "s = t"
    using canonicalize_render [OF assms(2)] canonicalize_render [OF assms(3)] by simp
qed

text \<open>A float type without values, for closed examples.\<close>

definition int_only :: "unit float_ops" where
  "int_only = \<lparr> is_finite = (\<lambda>_. False), is_zero = (\<lambda>_. False), float_text = (\<lambda>_. []) \<rparr>"



text \<open>The canonical text of an object does not depend on the order of its members, as long as their keys
  have different UTF-16 forms.\<close>

theorem canonical_text_ignores_member_order:
  assumes "mset ms = mset ms'" "distinct (map (utf16 \<circ> fst) ms)"
  shows "canonicalize fo (JObject ms) = canonicalize fo (JObject ms')"
proof -
  have "inj_on (utf16 \<circ> fst) (set ms)"
    using assms(2) by (simp add: distinct_map)
  then have "sort_key (utf16 \<circ> fst) ms = sort_key (utf16 \<circ> fst) ms'"
    using assms(1) by (intro sort_key_inj_key_eq) auto
  then show ?thesis
    by (simp add: canonicalize_def)
qed

theorem canonical_text_ignores_member_order_witness:
  "canonicalize int_only (JObject [(''b'', JNull), (''a'', JBool True)]) =
     canonicalize int_only (JObject [(''a'', JBool True), (''b'', JNull)])"
proof (rule canonical_text_ignores_member_order)
  show "distinct (map (utf16 \<circ> fst) [(''b'', JNull :: unit number json), (''a'', JBool True)])"
    by (simp add: utf16_def code_units_def)
qed simp

end
