(* ===== verification/Artifact.thy ===== *)
theory Artifact
  imports Json_Canonical Trust_Graph
begin

text \<open>
  The scheme registries (\<open>confium-signatif/src/registry.rs\<close>) and trusted artifacts with their co-signatures
  (\<open>artifact.rs\<close>).  The payload is canonical JSON hashed with SHA-256, which is a parameter, as are the
  signer and the signature verifier.
\<close>

section \<open>Registries\<close>

datatype reg_status = Active | Deprecated | Retired

record reg_entry =
  entry_name :: string
  description :: string
  status :: reg_status
  reference :: string

record value_registry =
  registry_name :: string
  reg_entries :: "reg_entry list"

definition registry_new :: "string \<Rightarrow> value_registry" where
  "registry_new n = \<lparr> registry_name = n, reg_entries = [] \<rparr>"

definition register :: "reg_entry \<Rightarrow> value_registry \<Rightarrow> value_registry" where
  "register e r = r\<lparr>reg_entries := reg_entries r @ [e]\<rparr>"

definition registry_get :: "value_registry \<Rightarrow> string \<Rightarrow> reg_entry option" where
  "registry_get r n = List.find (\<lambda>e. entry_name e = n) (reg_entries r)"

definition registry_contains :: "value_registry \<Rightarrow> string \<Rightarrow> bool" where
  "registry_contains r n = (case registry_get r n of None \<Rightarrow> False | Some e \<Rightarrow> status e \<noteq> Retired)"

definition usable :: "value_registry \<Rightarrow> string \<Rightarrow> reg_entry option" where
  "usable r n =
     (case registry_get r n of None \<Rightarrow> None | Some e \<Rightarrow> if status e \<noteq> Retired then Some e else None)"

definition registry_status :: "value_registry \<Rightarrow> string \<Rightarrow> reg_status option" where
  "registry_status r n = map_option status (registry_get r n)"

fun update_first :: "string \<Rightarrow> reg_status \<Rightarrow> reg_entry list \<Rightarrow> reg_entry list option" where
  "update_first n s [] = None"
| "update_first n s (e # es) =
     (if entry_name e = n then Some (e\<lparr>status := s\<rparr> # es) else map_option ((#) e) (update_first n s es))"

definition set_status :: "string \<Rightarrow> reg_status \<Rightarrow> value_registry \<Rightarrow> signatif_error + value_registry" where
  "set_status n s r =
     (case update_first n s (reg_entries r) of
        None \<Rightarrow> Inl (RegistryEntry (registry_name r) n)
      | Some es \<Rightarrow> Inr (r\<lparr>reg_entries := es\<rparr>))"

record registry =
  dimension_registry :: value_registry
  algorithms :: value_registry
  ceremony_types :: value_registry
  format_profiles :: value_registry
  scope_registry :: value_registry

definition register_dimension :: "string \<Rightarrow> string \<Rightarrow> registry \<Rightarrow> registry" where
  "register_dimension tag desc r =
     r\<lparr>dimension_registry := register
        \<lparr> entry_name = tag, description = desc, status = Active, reference = ''scheme-registered'' \<rparr>
        (dimension_registry r)\<rparr>"

definition active_entry :: "string \<times> string \<times> string \<Rightarrow> reg_entry" where
  "active_entry e =
     \<lparr> entry_name = fst e, description = fst (snd e), status = Active, reference = snd (snd e) \<rparr>"

definition registry_of :: "string \<Rightarrow> (string \<times> string \<times> string) list \<Rightarrow> value_registry" where
  "registry_of n es = fold (\<lambda>e. register (active_entry e)) es (registry_new n)"

text \<open>The section sign of the specification references, in UTF-8.\<close>

definition section_ref :: "string \<Rightarrow> string" where
  "section_ref n = ''SIGNATIF '' @ [CHR 0xC2, CHR 0xA7] @ n"

definition with_initial_values :: registry where
  "with_initial_values =
     \<lparr> dimension_registry = registry_of ''trust-dimension''
         [(''data'', ''The primary content (measured value, record)'', ''Transparency log''),
          (''person'', ''A human witnessed or authorized the act'', ''Hardware token''),
          (''time'', ''The artifact existed at a stated time'', ''External timestamp source''),
          (''location'', ''The event occurred at stated coordinates'', ''Location authority signal''),
          (''environment'', ''Ambient conditions were within stated bounds'', ''Calibrated sensor''),
          (''authorization'', ''The action was permitted under a policy'', ''Regulatory framework''),
          (''identity'', ''The device or person is genuine'', ''Identity authority''),
          (''oracle'', ''External data had a stated value at a time'', ''Multi-source agreement'')],
       algorithms = registry_of ''algorithm''
         [(''Ed25519'', ''Edwards-curve digital signature (classical)'', ''RFC 8032''),
          (''ECDSA-P256'', ''ECDSA over NIST P-256 (classical)'', ''FIPS 186-4''),
          (''ML-DSA-44'', ''Module-lattice signature (post-quantum)'', ''FIPS 204''),
          (''ML-DSA-65'', ''Module-lattice signature (post-quantum)'', ''FIPS 204''),
          (''ML-DSA-87'', ''Module-lattice signature (post-quantum)'', ''FIPS 204''),
          (''SLH-DSA-128s'', ''Stateless hash-based signature (post-quantum)'', ''FIPS 205''),
          (''Composite-Ed25519-MLDSA65'', ''AND-composition Ed25519 + ML-DSA-65 (composite)'', section_ref ''9.4''),
          (''Threshold-CMP20-P256'', ''CMP20 threshold ECDSA P-256 aggregate'', ''Confium confium-tc-cmp20''),
          (''Threshold-FROST-Ed25519'', ''FROST threshold Ed25519 aggregate'', ''Confium confium-tc-frost-ed25519'')],
       ceremony_types = registry_of ''ceremony-type''
         (map (\<lambda>n. (n, ''Threshold '' @ n @ '' ceremony'', section_ref ''17''))
            [''dkg'', ''reshare'', ''sign'', ''revoke'', ''rotation'']),
       format_profiles = registry_of ''format-profile''
         [(''/conf/format-cose'', ''Signature envelope format profile'', ''RFC 8152 COSE Sig_Structure''),
          (''/conf/format-jws'', ''Signature envelope format profile'', ''RFC 7515 JWS detached content''),
          (''/conf/format-xmldsig'', ''Signature envelope format profile'', ''W3C XML Signature + Exclusive C14N'')],
       scope_registry = registry_of ''scope-dimension''
         (map (\<lambda>n. (n, ''Scope dimension `'' @ n @ ''`'', section_ref ''11''))
            [''domain'', ''subdomain'', ''class'', ''instance'', ''identity'']) \<rparr>"

section \<open>Artifacts\<close>

definition canonical_hash :: "(bytes \<Rightarrow> bytes) \<Rightarrow> 'f float_ops \<Rightarrow> 'f number json \<Rightarrow> signatif_error + bytes" where
  "canonical_hash sha fo v = try_bind (canonicalize fo v) (\<lambda>canon. Inr (sha (string_bytes canon)))"

record artifact_version =
  major :: u32
  minor :: u32

definition version_accepts :: "artifact_version \<Rightarrow> artifact_version \<Rightarrow> bool" where
  "version_accepts s other \<longleftrightarrow> major other \<le> major s"

definition display_version :: "artifact_version \<Rightarrow> string" where
  "display_version v = decimal (unat (major v)) @ ''.'' @ decimal (unat (minor v))"

record co_signature_block =
  dimension :: string
  algorithm :: string
  signer_cert_ref :: string
  signer_pubkey :: bytes
  chain_ref :: string
  block_signature :: bytes
  block_timestamp :: instant

record 'f trusted_artifact =
  version :: artifact_version
  artifact_id :: string
  payload :: "'f number json"
  payload_schema :: "string option"
  canonical_payload_hash :: bytes
  co_signatures :: "co_signature_block list"

definition artifact_new ::
  "(bytes \<Rightarrow> bytes) \<Rightarrow> 'f float_ops \<Rightarrow> artifact_version \<Rightarrow> string \<Rightarrow> 'f number json \<Rightarrow> string option
     \<Rightarrow> signatif_error + 'f trusted_artifact" where
  "artifact_new sha fo v i p schema =
     try_bind (canonical_hash sha fo p) (\<lambda>h.
       Inr \<lparr> version = v, artifact_id = i, payload = p, payload_schema = schema,
             canonical_payload_hash = h, co_signatures = [] \<rparr>)"

definition cosign_input :: "'f trusted_artifact \<Rightarrow> string \<Rightarrow> bytes" where
  "cosign_input a dim =
     string_bytes (artifact_id a) @ [0] @ canonical_payload_hash a @ [0] @ string_bytes dim"

definition check_block :: "registry \<Rightarrow> string \<Rightarrow> string \<Rightarrow> signatif_error + unit" where
  "check_block reg dim alg =
     (if \<not> registry_contains (dimension_registry reg) dim then Inl (RegistryEntry ''trust-dimension'' dim)
      else case usable (algorithms reg) alg of
             None \<Rightarrow> Inl (RegistryEntry ''algorithm'' alg)
           | Some _ \<Rightarrow> Inr ())"

definition artifact_sign ::
  "registry \<Rightarrow> (bytes \<Rightarrow> bytes) \<Rightarrow> instant \<Rightarrow> string \<Rightarrow> string \<Rightarrow> string \<Rightarrow> bytes \<Rightarrow> string \<Rightarrow> 'f trusted_artifact
     \<Rightarrow> signatif_error + 'f trusted_artifact" where
  "artifact_sign reg signer now dim alg cert pk chain a =
     try_bind (check_block reg dim alg) (\<lambda>_.
       Inr (a\<lparr>co_signatures := co_signatures a @
         [\<lparr> dimension = dim, algorithm = alg, signer_cert_ref = cert, signer_pubkey = pk, chain_ref = chain,
            block_signature = signer (cosign_input a dim), block_timestamp = now \<rparr>]\<rparr>))"

definition add_attestation ::
  "registry \<Rightarrow> co_signature_block \<Rightarrow> 'f trusted_artifact \<Rightarrow> signatif_error + 'f trusted_artifact" where
  "add_attestation reg b a =
     try_bind (check_block reg (dimension b) (algorithm b)) (\<lambda>_. Inr (a\<lparr>co_signatures := co_signatures a @ [b]\<rparr>))"

definition verify_block :: "registry \<Rightarrow> verifier \<Rightarrow> 'f trusted_artifact \<Rightarrow> co_signature_block \<Rightarrow> signatif_error + unit" where
  "verify_block reg verify a b =
     (case usable (algorithms reg) (algorithm b) of
        None \<Rightarrow> Inl (RegistryEntry ''algorithm'' (algorithm b))
      | Some _ \<Rightarrow>
          if \<not> verify (signer_pubkey b) (cosign_input a (dimension b)) (block_signature b)
          then Inl (BadSignature (''co-signature dimension='' @ dimension b @ '' signer='' @ signer_cert_ref b))
          else Inr ())"

fun try_all :: "('a \<Rightarrow> 'e + unit) \<Rightarrow> 'a list \<Rightarrow> 'e + unit" where
  "try_all f [] = Inr ()"
| "try_all f (x # xs) = try_bind (f x) (\<lambda>_. try_all f xs)"

definition verify_self ::
  "(bytes \<Rightarrow> bytes) \<Rightarrow> 'f float_ops \<Rightarrow> registry \<Rightarrow> verifier \<Rightarrow> 'f trusted_artifact \<Rightarrow> signatif_error + unit" where
  "verify_self sha fo reg verify a =
     try_bind (canonical_hash sha fo (payload a)) (\<lambda>h.
       if h \<noteq> canonical_payload_hash a
       then Inl (ArtifactFormat
         ''payload does not match canonical_payload_hash (signed content != processed content)'')
       else try_all (verify_block reg verify a) (co_signatures a))"

definition distinct_sorted :: "string list \<Rightarrow> string list" where
  "distinct_sorted xs = map fst (fold (\<lambda>x. bt_insert x ()) xs [])"

definition dimensions_verified :: "'f trusted_artifact \<Rightarrow> string list" where
  "dimensions_verified a = distinct_sorted (map dimension (co_signatures a))"

definition distinct_roots :: "'f trusted_artifact \<Rightarrow> string list" where
  "distinct_roots a = distinct_sorted (map chain_ref (co_signatures a))"

section \<open>Lemmas\<close>

lemma update_first_find:
  "update_first n s es = Some es' \<Longrightarrow>
     List.find (\<lambda>e. entry_name e = m) es' =
       (if m = n then map_option (\<lambda>e. e\<lparr>status := s\<rparr>) (List.find (\<lambda>e. entry_name e = n) es)
        else List.find (\<lambda>e. entry_name e = m) es)"
  by (induction es arbitrary: es') (auto split: if_splits)

lemma update_first_known:
  "update_first n s es = Some es' \<Longrightarrow> \<exists>e. List.find (\<lambda>e. entry_name e = n) es = Some e"
  by (induction es arbitrary: es') (auto split: if_splits)

lemma set_status_get:
  assumes "set_status n s r = Inr r'"
  shows "registry_status r' m = (if m = n then Some s else registry_status r m)"
proof -
  obtain es where es: "update_first n s (reg_entries r) = Some es" "r' = r\<lparr>reg_entries := es\<rparr>"
    using assms by (auto simp: set_status_def split: option.splits)
  show ?thesis
    using es update_first_known [OF es(1)] update_first_find [OF es(1), of m] by (auto simp: registry_status_def registry_get_def)
qed

lemma try_all_iff: "try_all f xs = Inr () \<longleftrightarrow> list_all (\<lambda>x. f x = Inr ()) xs"
  by (induction xs) (auto simp: try_bind_Inr_iff)

lemma fold_bt_insert:
  "bt_wf m \<Longrightarrow> bt_wf (fold (\<lambda>x. bt_insert x ()) xs m) \<and>
     set (map fst (fold (\<lambda>x. bt_insert x ()) xs m)) = set xs \<union> set (map fst m)"
proof (induction xs arbitrary: m)
  case (Cons x xs)
  then show ?case
    using bt_keys_insert [of x "()" m] by simp
qed simp

lemma distinct_sorted_set:
  "set (distinct_sorted xs) = set xs" "distinct (distinct_sorted xs)" "sorted (distinct_sorted xs)"
  using fold_bt_insert [OF bt_wf_Nil, of xs] by (simp_all add: distinct_sorted_def bt_wf_def strict_sorted_iff)

lemma cosign_input_inject:
  assumes "CHR 0x00 \<notin> set (artifact_id a)" "CHR 0x00 \<notin> set (artifact_id b)"
    and "length (canonical_payload_hash a) = 32" "length (canonical_payload_hash b) = 32"
    and "cosign_input a d = cosign_input b e"
  shows "artifact_id a = artifact_id b \<and> canonical_payload_hash a = canonical_payload_hash b \<and> d = e"
proof -
  have "string_bytes (artifact_id a) @ 0 # canonical_payload_hash a @ 0 # string_bytes d =
      string_bytes (artifact_id b) @ 0 # canonical_payload_hash b @ 0 # string_bytes e"
    using assms(5) by (simp add: cosign_input_def)
  from split_at_nul [OF _ _ this] show ?thesis
    using assms(1-4) by (simp add: string_bytes_nul)
qed

lemma canonical_hash_Inr:
  "canonical_hash sha fo v = Inr h \<longleftrightarrow> (\<exists>t. canonicalize fo v = Inr t \<and> h = sha (string_bytes t))"
  by (auto simp: canonical_hash_def try_bind_Inr_iff)

lemma verify_self_iff:
  "verify_self sha fo reg verify a = Inr () \<longleftrightarrow>
     canonical_hash sha fo (payload a) = Inr (canonical_payload_hash a) \<and>
     list_all (\<lambda>b. usable (algorithms reg) (algorithm b) \<noteq> None \<and>
        verify (signer_pubkey b) (cosign_input a (dimension b)) (block_signature b)) (co_signatures a)"
proof -
  have "verify_block reg verify a b = Inr () \<longleftrightarrow> usable (algorithms reg) (algorithm b) \<noteq> None \<and>
      verify (signer_pubkey b) (cosign_input a (dimension b)) (block_signature b)" for b
    by (simp add: verify_block_def split: option.split)
  then show ?thesis
    by (auto simp: verify_self_def try_bind_Inr_iff try_all_iff)
qed

section \<open>Properties\<close>

definition demo_registry :: registry where
  "demo_registry =
     (let e = (\<lambda>n. \<lparr> entry_name = n, description = [], status = Active, reference = [] \<rparr>);
          r = (\<lambda>n ns. \<lparr> registry_name = n, reg_entries = map e ns \<rparr>)
      in \<lparr> dimension_registry = r ''trust-dimension'' [''data'', ''person'', ''time''],
           algorithms = r ''algorithm'' [''Ed25519''], ceremony_types = r ''ceremony-type'' [],
           format_profiles = r ''format-profile'' [], scope_registry = r ''scope-dimension'' [] \<rparr>)"

definition demo_artifact :: "unit trusted_artifact" where
  "demo_artifact =
     \<lparr> version = \<lparr> major = 1, minor = 0 \<rparr>, artifact_id = ''a'', payload = JNull, payload_schema = None,
       canonical_payload_hash = string_bytes ''null'', co_signatures = [] \<rparr>"

text \<open>Signing an artifact that verifies gives an artifact that verifies, when the verifier accepts the
  signer's signatures under the recorded key; the new block joins the earlier ones and the signed hash and
  identifier stay.\<close>

theorem sign_keeps_verified:
  assumes "verify_self sha fo reg verify a = Inr ()" "\<And>m. verify pk m (signer m)"
    and "artifact_sign reg signer now dim alg cert pk chain a = Inr a'"
  shows "verify_self sha fo reg verify a' = Inr () \<and>
     co_signatures a = butlast (co_signatures a') \<and> signer_pubkey (last (co_signatures a')) = pk \<and>
     canonical_payload_hash a' = canonical_payload_hash a \<and> artifact_id a' = artifact_id a"
proof -
  have u: "usable (algorithms reg) alg \<noteq> None"
    and a': "a' = a\<lparr>co_signatures := co_signatures a @
         [\<lparr> dimension = dim, algorithm = alg, signer_cert_ref = cert, signer_pubkey = pk, chain_ref = chain,
            block_signature = signer (cosign_input a dim), block_timestamp = now \<rparr>]\<rparr>"
    using assms(3) by (auto simp: artifact_sign_def try_bind_Inr_iff check_block_def split: if_splits option.splits)
  have "cosign_input a' d = cosign_input a d" for d
    by (simp add: a' cosign_input_def)
  then show ?thesis
    using assms(1,2) u by (simp add: verify_self_iff) (simp add: a')
qed

theorem sign_keeps_verified_witness:
  "\<exists>a'. artifact_sign demo_registry (\<lambda>m. m) 5 ''data'' ''Ed25519'' ''e'' [3] ''r'' demo_artifact = Inr a' \<and>
     verify_self (\<lambda>m. m) int_only demo_registry (\<lambda>pk m s. s = m) a' = Inr ()"
proof -
  have v: "verify_self (\<lambda>m. m) int_only demo_registry (\<lambda>pk m s. s = m) demo_artifact = Inr ()"
    by (simp add: verify_self_iff demo_artifact_def canonical_hash_def canonicalize_def)
  obtain a' where s: "artifact_sign demo_registry (\<lambda>m. m) 5 ''data'' ''Ed25519'' ''e'' [3] ''r'' demo_artifact = Inr a'"
    by (simp add: artifact_sign_def check_block_def registry_contains_def usable_def registry_get_def demo_registry_def)
  show ?thesis
    using sign_keeps_verified [OF v _ s] s by simp
qed

text \<open>A co-signature covers one artifact: for identifiers without a zero byte and 32-byte hashes, equal
  signing inputs come from the same identifier, payload hash and dimension, so a block cannot be replayed on
  another artifact or under another dimension.\<close>

theorem cosign_input_binds:
  assumes "CHR 0x00 \<notin> set (artifact_id a)" "CHR 0x00 \<notin> set (artifact_id b)"
    and "length (canonical_payload_hash a) = 32" "length (canonical_payload_hash b) = 32"
    and "cosign_input a d = cosign_input b e"
  shows "artifact_id a = artifact_id b \<and> canonical_payload_hash a = canonical_payload_hash b \<and> d = e"
  using assms by (rule cosign_input_inject)

definition hashed_artifact :: "unit trusted_artifact" where
  "hashed_artifact = demo_artifact\<lparr>canonical_payload_hash := replicate 32 7\<rparr>"

theorem cosign_input_binds_witness:
  "artifact_id hashed_artifact = artifact_id (hashed_artifact\<lparr>payload_schema := Some ''s''\<rparr>) \<and>
     canonical_payload_hash hashed_artifact = canonical_payload_hash (hashed_artifact\<lparr>payload_schema := Some ''s''\<rparr>) \<and>
     ''data'' = ''data''"
  by (rule cosign_input_binds) (simp_all add: hashed_artifact_def demo_artifact_def cosign_input_def)

text \<open>C19: Verification pins the payload: two verified artifacts with the same recorded hash have payloads with
  the same canonical content, unless their two canonical texts collide under SHA-256.\<close>

theorem verified_payload_pinned:
  assumes "verify_self sha fo reg verify a = Inr ()" "verify_self sha fo reg' verify' b = Inr ()"
    and "canonical_payload_hash a = canonical_payload_hash b" "float_texts fo"
    and "inj_on sha {string_bytes s | s. canonicalize fo (payload a) = Inr s \<or> canonicalize fo (payload b) = Inr s}"
  shows "normal fo (payload a) = normal fo (payload b)"
proof -
  obtain s t where st: "canonicalize fo (payload a) = Inr s" "canonicalize fo (payload b) = Inr t"
    "sha (string_bytes s) = sha (string_bytes t)"
    using assms(1-3) by (auto simp: verify_self_iff canonical_hash_Inr)
  then have "string_bytes s = string_bytes t"
    by (intro inj_onD [OF assms(5) st(3)]) auto
  then show ?thesis
    using canonicalize_eq [OF assms(4) st(1,2)] by simp
qed

theorem verified_payload_pinned_witness:
  "verify_self (\<lambda>m. m) int_only demo_registry (\<lambda>pk m s. s = m) demo_artifact = Inr () \<and>
     normal int_only (payload demo_artifact) = normal int_only (payload demo_artifact)"
proof
  show v: "verify_self (\<lambda>m. m) int_only demo_registry (\<lambda>pk m s. s = m) demo_artifact = Inr ()"
    by (simp add: verify_self_iff demo_artifact_def canonical_hash_def canonicalize_def)
  show "normal int_only (payload demo_artifact) = normal int_only (payload demo_artifact)"
    by (rule verified_payload_pinned [OF v v]) (simp_all add: float_texts_def int_only_def)
qed

end
