(* ===== verification/Conditions.thy ===== *)
theory Conditions
  imports Json Trust_Graph
begin

text \<open>
  Executable scope conditions (\<open>confium-signatif/src/conditions.rs\<close>): a subset of JSON Logic evaluated
  against the facts of an artifact.  The comparison of
  two numbers (\<open>as_f64\<close> and \<open>partial_cmp\<close> of the JSON crate and of the float type) is the parameter \<open>ncmp\<close>.
\<close>

section \<open>Values and comparison\<close>

datatype ordering = Less | Equal | Greater

fun string_cmp :: "string \<Rightarrow> string \<Rightarrow> ordering" where
  "string_cmp x y = (if x < y then Less else if x = y then Equal else Greater)"

fun json_compare :: "('n \<Rightarrow> 'n \<Rightarrow> ordering) \<Rightarrow> 'n json \<Rightarrow> 'n json \<Rightarrow> ordering" where
  "json_compare ncmp (JNumber x) (JNumber y) = ncmp x y"
| "json_compare ncmp (JString x) (JString y) = string_cmp x y"
| "json_compare ncmp a b = (if a = b then Equal else Greater)"

definition cmp_ops :: "string list" where
  "cmp_ops = [''>='', ''>'', ''<='', ''<'', ''=='', ''!='']"

definition cmp_holds :: "string \<Rightarrow> ordering \<Rightarrow> bool" where
  "cmp_holds opr c =
     (if opr = ''>='' then c \<noteq> Less
      else if opr = ''>'' then c = Greater
      else if opr = ''<='' then c \<noteq> Greater
      else if opr = ''<'' then c = Less
      else if opr = ''=='' then c = Equal
      else c \<noteq> Equal)"

section \<open>Evaluation\<close>

definition condition_context ::
  "'n json \<Rightarrow> string \<Rightarrow> string \<Rightarrow> string \<Rightarrow> string \<Rightarrow> 'n json" where
  "condition_context payload artifact_id signer_cert_ref dimension attested_at =
     JObject [(''artifact_id'', JString artifact_id), (''attested_at'', JString attested_at),
       (''dimension'', JString dimension), (''payload'', payload), (''signer_cert_ref'', JString signer_cert_ref)]"

fun split_dots :: "string \<Rightarrow> string list" where
  "split_dots [] = [[]]"
| "split_dots (c # cs) =
     (if c = CHR ''.'' then [] # split_dots cs
      else case split_dots cs of seg # segs \<Rightarrow> (c # seg) # segs)"

fun json_get :: "'n json \<Rightarrow> string \<Rightarrow> 'n json option" where
  "json_get (JObject ms) k = map_of ms k"
| "json_get _ k = None"

fun walk_path :: "string \<Rightarrow> string list \<Rightarrow> 'n json \<Rightarrow> signatif_error + 'n json" where
  "walk_path path [] v = Inr v"
| "walk_path path (seg # segs) v =
     (case json_get v seg of
        None \<Rightarrow> Inl (Encoding (''var path `'' @ path @ ''` not found''))
      | Some v' \<Rightarrow> walk_path path segs v')"

definition var_path :: "(string \<times> 'n json) list \<Rightarrow> string option" where
  "var_path ms = (case map_of ms ''var'' of Some (JString path) \<Rightarrow> Some path | _ \<Rightarrow> None)"

function (sequential) evaluate_condition ::
  "('n \<Rightarrow> 'n \<Rightarrow> ordering) \<Rightarrow> 'n json \<Rightarrow> 'n json \<Rightarrow> signatif_error + bool"
  and evaluate_and :: "('n \<Rightarrow> 'n \<Rightarrow> ordering) \<Rightarrow> 'n json \<Rightarrow> 'n json list \<Rightarrow> signatif_error + bool"
  and evaluate_or :: "('n \<Rightarrow> 'n \<Rightarrow> ordering) \<Rightarrow> 'n json \<Rightarrow> 'n json list \<Rightarrow> signatif_error + bool"
  and resolve_operand :: "('n \<Rightarrow> 'n \<Rightarrow> ordering) \<Rightarrow> 'n json \<Rightarrow> 'n json \<Rightarrow> signatif_error + 'n json" where
  "evaluate_condition ncmp ctx (JObject []) = Inl (Encoding ''condition object is empty'')"
| "evaluate_condition ncmp ctx (JObject ((opr, args) # ms)) =
     (if opr = ''var'' then Inl (Encoding ''var is only valid as an operand, not a top-level condition'')
      else if opr = ''!'' then try_bind (evaluate_condition ncmp ctx args) (\<lambda>b. Inr (\<not> b))
      else if opr = ''!!'' then evaluate_condition ncmp ctx args
      else if opr = ''and'' then
        (case args of JArray xs \<Rightarrow> evaluate_and ncmp ctx xs | _ \<Rightarrow> Inl (Encoding ''and expects an array''))
      else if opr = ''or'' then
        (case args of JArray xs \<Rightarrow> evaluate_or ncmp ctx xs | _ \<Rightarrow> Inl (Encoding ''or expects an array''))
      else if opr \<in> set cmp_ops then
        (case args of
           JArray [x, y] \<Rightarrow>
             try_bind (resolve_operand ncmp ctx x) (\<lambda>a.
             try_bind (resolve_operand ncmp ctx y) (\<lambda>b.
               Inr (cmp_holds opr (json_compare ncmp a b))))
         | JArray _ \<Rightarrow> Inl (Encoding (opr @ '' expects two operands''))
         | _ \<Rightarrow> Inl (Encoding (opr @ '' expects an array'')))
      else Inl (Encoding (''unsupported condition operator '' @ opr)))"
| "evaluate_condition ncmp ctx _ = Inl (Encoding ''condition must be an object'')"
| "evaluate_and ncmp ctx [] = Inr True"
| "evaluate_and ncmp ctx (x # xs) =
     try_bind (evaluate_condition ncmp ctx x) (\<lambda>b. if b then evaluate_and ncmp ctx xs else Inr False)"
| "evaluate_or ncmp ctx [] = Inr False"
| "evaluate_or ncmp ctx (x # xs) =
     try_bind (evaluate_condition ncmp ctx x) (\<lambda>b. if b then Inr True else evaluate_or ncmp ctx xs)"
| "resolve_operand ncmp ctx (JObject ms) =
     (case var_path ms of
        Some path \<Rightarrow> walk_path path (split_dots path) ctx
      | None \<Rightarrow> try_bind (evaluate_condition ncmp ctx (JObject ms)) (\<lambda>b. Inr (JBool b)))"
| "resolve_operand ncmp ctx v = Inr v"
  by pat_completeness auto

termination
  by (relation "measure
       (case_sum (case_sum (\<lambda>(_, _, e). 2 * size e) (\<lambda>(_, _, xs). Suc (2 * size_list size xs)))
         (case_sum (\<lambda>(_, _, xs). Suc (2 * size_list size xs)) (\<lambda>(_, _, v). Suc (2 * size v))))") auto

fun evaluate_from :: "nat \<Rightarrow> ('n \<Rightarrow> 'n \<Rightarrow> ordering) \<Rightarrow> 'n json list \<Rightarrow> 'n json \<Rightarrow> signatif_error + unit" where
  "evaluate_from i ncmp [] ctx = Inr ()"
| "evaluate_from i ncmp (e # es) ctx =
     try_bind (evaluate_condition ncmp ctx e) (\<lambda>ok.
       if \<not> ok then Inl (HardCheck (''scope_condition['' @ decimal i @ ''] not satisfied''))
       else evaluate_from (Suc i) ncmp es ctx)"

definition evaluate_all :: "('n \<Rightarrow> 'n \<Rightarrow> ordering) \<Rightarrow> 'n json list \<Rightarrow> 'n json \<Rightarrow> signatif_error + unit" where
  "evaluate_all ncmp es ctx = evaluate_from 0 ncmp es ctx"

section \<open>Properties\<close>

lemma evaluate_from_iff:
  "evaluate_from i ncmp es ctx = Inr () \<longleftrightarrow> list_all (\<lambda>e. evaluate_condition ncmp ctx e = Inr True) es"
  by (induction es arbitrary: i) (auto simp: try_bind_Inr_iff)

lemma evaluate_all_iff:
  "evaluate_all ncmp es ctx = Inr () \<longleftrightarrow> list_all (\<lambda>e. evaluate_condition ncmp ctx e = Inr True) es"
  unfolding evaluate_all_def by (rule evaluate_from_iff)

lemma evaluate_and_True:
  "evaluate_and ncmp ctx xs = Inr True \<longleftrightarrow> list_all (\<lambda>x. evaluate_condition ncmp ctx x = Inr True) xs"
  by (induction xs) (auto simp: try_bind_Inr_iff)

lemma evaluate_or_False:
  "evaluate_or ncmp ctx xs = Inr False \<longleftrightarrow> list_all (\<lambda>x. evaluate_condition ncmp ctx x = Inr False) xs"
  by (induction xs) (auto simp: try_bind_Inr_iff)

text \<open>Scope conditions fail closed: \<open>evaluate_all\<close> succeeds exactly when every condition evaluates to
  true.  A condition that is malformed, names a missing variable or evaluates to false makes it fail.\<close>

theorem conditions_fail_closed:
  "evaluate_all ncmp es ctx = Inr () \<longleftrightarrow> list_all (\<lambda>e. evaluate_condition ncmp ctx e = Inr True) es"
  by (rule evaluate_all_iff)

text \<open>The connectives have their meaning: a conjunction is true exactly when every operand evaluates to
  true, a disjunction is false exactly when every operand evaluates to false, and negation flips a result
  and keeps an error.\<close>

theorem condition_connectives:
  "(evaluate_condition ncmp ctx (JObject [(''and'', JArray xs)]) = Inr True \<longleftrightarrow>
      list_all (\<lambda>x. evaluate_condition ncmp ctx x = Inr True) xs) \<and>
   (evaluate_condition ncmp ctx (JObject [(''or'', JArray xs)]) = Inr False \<longleftrightarrow>
      list_all (\<lambda>x. evaluate_condition ncmp ctx x = Inr False) xs) \<and>
   (evaluate_condition ncmp ctx (JObject [(''!'', e)]) = Inr b \<longleftrightarrow> evaluate_condition ncmp ctx e = Inr (\<not> b)) \<and>
   (evaluate_condition ncmp ctx (JObject [(''!'', e)]) = Inl err \<longleftrightarrow> evaluate_condition ncmp ctx e = Inl err)"
  by (auto simp: evaluate_and_True evaluate_or_False try_bind_Inr_iff try_bind_Inl_iff)

text \<open>A value that cannot be ordered against a limit counts as greater.  A condition that bounds a
  payload from below by a number holds for every string payload, and so does the reversed bound.\<close>

theorem unordered_value_exceeds_limit:
  "evaluate_all ncmp
     [JObject [(''>='', JArray [JObject [(''var'', JString ''payload'')], JNumber limit])],
      JObject [(''>'', JArray [JNumber limit, JObject [(''var'', JString ''payload'')]])]]
     (condition_context (JString s) aid signer dim at) = Inr ()"
  by (simp add: evaluate_all_iff cmp_ops_def cmp_holds_def var_path_def condition_context_def)

end
