(* ===== verification/Revocation.thy ===== *)
theory Revocation
  imports Ordered_Map Signatif_Error
begin

text \<open>
  Revocation (\<open>confium-signatif/src/revocation.rs\<close>): revocation lists, the view a verifier has of them, and
  the index that marks the artifacts bound to a revoked authority state.
\<close>

section \<open>Lists and views\<close>

definition default_grace_period :: duration where
  "default_grace_period = hours 24"

datatype revocation_reason = KeyCompromise | CessationOfOperation | Superseded | Withdrawn

record revoked_entry =
  fingerprint :: string
  revoked_at :: instant
  reason :: revocation_reason

record crl =
  issuer :: string
  revoked :: "revoked_entry list"
  this_update :: instant
  next_update :: instant
  log_sequence :: u64
  crl_signature :: bytes

definition revokes :: "crl \<Rightarrow> string \<Rightarrow> instant \<Rightarrow> revoked_entry option" where
  "revokes c fp t = List.find (\<lambda>e. fingerprint e = fp \<and> revoked_at e \<le> t) (revoked c)"

definition is_stale :: "crl \<Rightarrow> instant \<Rightarrow> bool" where
  "is_stale c now \<longleftrightarrow> now > next_update c"

datatype revocation_status = Good | GraceDowngrade | Revoked

record revocation_view =
  authority_status :: "string \<Rightarrow> instant \<Rightarrow> revocation_status"
  max_crl_age :: "instant \<Rightarrow> duration"

definition no_revocations :: revocation_view where
  "no_revocations = \<lparr> authority_status = (\<lambda>_ _. Good), max_crl_age = (\<lambda>_. 0) \<rparr>"

record crl_view =
  authority_fingerprints :: "(string, string) btree_map"
  crls :: "crl list"

definition crl_status :: "crl_view \<Rightarrow> string \<Rightarrow> instant \<Rightarrow> revocation_status" where
  "crl_status v i now =
     (case hm_get (authority_fingerprints v) i of
        None \<Rightarrow> Good
      | Some fp \<Rightarrow>
          let stale = list_all (\<lambda>c. is_stale c now) (crls v)
          in if list_ex (\<lambda>c. revokes c fp now \<noteq> None) (crls v) then Revoked
             else if stale \<and> crls v \<noteq> [] then GraceDowngrade else Good)"

fun max_list :: "int list \<Rightarrow> int option" where
  "max_list [] = None"
| "max_list (x # xs) = (case max_list xs of None \<Rightarrow> Some x | Some m \<Rightarrow> Some (max x m))"

definition crl_age :: "crl_view \<Rightarrow> instant \<Rightarrow> duration" where
  "crl_age v now = (case max_list (map (\<lambda>c. now - this_update c) (crls v)) of None \<Rightarrow> 0 | Some a \<Rightarrow> a)"

definition view_of :: "crl_view \<Rightarrow> revocation_view" where
  "view_of v = \<lparr> authority_status = crl_status v, max_crl_age = crl_age v \<rparr>"

section \<open>The index\<close>

record authority_state_binding =
  bound_artifact :: string
  bound_states :: "string list"
  bound_at :: instant

datatype artifact_mark = Marked | Cleared

record revocation_index =
  bindings :: "authority_state_binding list"
  marks :: "(string, artifact_mark) btree_map"
  revoked_states :: "string list"

definition index_new :: revocation_index where
  "index_new = \<lparr> bindings = [], marks = [], revoked_states = [] \<rparr>"

definition index_bind :: "authority_state_binding \<Rightarrow> revocation_index \<Rightarrow> revocation_index" where
  "index_bind b x = x\<lparr>bindings := bindings x @ [b]\<rparr>"

definition mark_bound :: "string \<Rightarrow> artifact_mark \<Rightarrow> authority_state_binding list
    \<Rightarrow> (string, artifact_mark) btree_map \<Rightarrow> (string, artifact_mark) btree_map" where
  "mark_bound fp mk bs m =
     fold (\<lambda>b m. if fp \<in> set (bound_states b) then bt_insert (bound_artifact b) mk m else m) bs m"

definition revoke_state :: "string \<Rightarrow> revocation_index \<Rightarrow> revocation_index" where
  "revoke_state fp x =
     x\<lparr>revoked_states := revoked_states x @ [fp], marks := mark_bound fp Marked (bindings x) (marks x)\<rparr>"

definition correct_state :: "string \<Rightarrow> revocation_index \<Rightarrow> revocation_index" where
  "correct_state fp x =
     x\<lparr>revoked_states := filter (\<lambda>f. f \<noteq> fp) (revoked_states x),
       marks := mark_bound fp Cleared (bindings x) (marks x)\<rparr>"

definition artifact_status :: "revocation_index \<Rightarrow> string \<Rightarrow> string list \<times> artifact_mark option" where
  "artifact_status x h =
     (case List.find (\<lambda>b. bound_artifact b = h) (bindings x) of None \<Rightarrow> [] | Some b \<Rightarrow> bound_states b,
      hm_get (marks x) h)"

definition artifacts_for_state :: "revocation_index \<Rightarrow> string \<Rightarrow> string list" where
  "artifacts_for_state x fp = map bound_artifact (filter (\<lambda>b. fp \<in> set (bound_states b)) (bindings x))"

section \<open>Lemmas\<close>

definition index_inv :: "revocation_index \<Rightarrow> bool" where
  "index_inv x \<longleftrightarrow> bt_wf (marks x)"

lemma mark_bound_spec:
  "bt_wf m \<Longrightarrow> bt_wf (mark_bound fp mk bs m) \<and>
     (hm_get (mark_bound fp mk bs m) h =
        (if \<exists>b \<in> set bs. fp \<in> set (bound_states b) \<and> bound_artifact b = h then Some mk else hm_get m h))"
  unfolding mark_bound_def by (induction bs arbitrary: m) (auto simp: bt_get_insert)

lemma in_artifacts_for_state:
  "h \<in> set (artifacts_for_state x fp) \<longleftrightarrow> (\<exists>b \<in> set (bindings x). fp \<in> set (bound_states b) \<and> bound_artifact b = h)"
  by (auto simp: artifacts_for_state_def)

datatype index_op = Bind authority_state_binding | RevokeState string | CorrectState string

fun index_exec :: "index_op \<Rightarrow> revocation_index \<Rightarrow> revocation_index" where
  "index_exec (Bind b) x = index_bind b x"
| "index_exec (RevokeState fp) x = revoke_state fp x"
| "index_exec (CorrectState fp) x = correct_state fp x"

interpretation revocation_ops: op_invariant index_exec index_inv
proof unfold_locales
  show "index_inv (index_exec a s)" if "index_inv s" for a s
    using that mark_bound_spec
    by (cases a) (auto simp: index_inv_def index_bind_def revoke_state_def correct_state_def)
qed

lemma max_list_Max: "xs \<noteq> [] \<Longrightarrow> max_list xs = Some (Max (set xs))"
proof (induction xs)
  case (Cons x xs)
  then show ?case
    by (cases "xs = []") auto
qed simp

section \<open>Properties\<close>

text \<open>The list view reports an authority as revoked exactly when its fingerprint is known and some held
  list, fresh or stale, revokes that fingerprint at or before the evaluation time.\<close>

theorem crl_status_revoked_iff:
  "crl_status v i now = Revoked \<longleftrightarrow>
     (\<exists>fp c e. hm_get (authority_fingerprints v) i = Some fp \<and> c \<in> set (crls v) \<and> e \<in> set (revoked c) \<and>
        fingerprint e = fp \<and> revoked_at e \<le> now)"
proof -
  have "(\<exists>y. revokes c fp now = Some y) \<longleftrightarrow> (\<exists>e. e \<in> set (revoked c) \<and> fingerprint e = fp \<and> revoked_at e \<le> now)"
    for c fp
    unfolding revokes_def find_Some_iff_ex by blast
  then show ?thesis
    by (auto simp: crl_status_def Let_def list_ex_iff split: option.splits)
qed

text \<open>\<open>revoke_state\<close> marks exactly the artifacts whose recorded bindings name the state and leaves every
  other mark; \<open>correct_state\<close> clears exactly those marks again.\<close>

theorem revocation_marks_bound:
  assumes "index_inv x"
  shows "snd (artifact_status (revoke_state fp x) h) =
       (if h \<in> set (artifacts_for_state x fp) then Some Marked else snd (artifact_status x h)) \<and>
     snd (artifact_status (correct_state fp x) h) =
       (if h \<in> set (artifacts_for_state x fp) then Some Cleared else snd (artifact_status x h))"
  using assms mark_bound_spec [of "marks x" fp _ "bindings x" h]
  unfolding in_artifacts_for_state by (auto simp: index_inv_def artifact_status_def revoke_state_def correct_state_def)

definition two_state_index :: revocation_index where
  "two_state_index = fold index_exec
     [Bind \<lparr> bound_artifact = ''a'', bound_states = [''s'', ''t''], bound_at = 0 \<rparr>, RevokeState ''s'', RevokeState ''t'']
     index_new"

lemma two_state_index_inv: "index_inv two_state_index"
  unfolding two_state_index_def
  by (rule revocation_ops.run_inv) (simp add: index_inv_def index_new_def)

theorem revocation_marks_bound_witness:
  "snd (artifact_status (revoke_state ''s'' two_state_index) ''a'') = Some Marked \<and>
     snd (artifact_status (correct_state ''s'' two_state_index) ''a'') = Some Cleared"
proof -
  have "''a'' \<in> set (artifacts_for_state two_state_index ''s'')"
    by code_simp
  then show ?thesis
    using revocation_marks_bound [OF two_state_index_inv, of "''s''" "''a''"] by simp
qed

text \<open>Correcting one revocation clears an artifact that another revoked state still covers, and an
  artifact bound to a state after its revocation is never marked.\<close>

theorem correction_hides_other_revocation:
  "''t'' \<in> set (revoked_states (correct_state ''s'' two_state_index)) \<and>
     ''a'' \<in> set (artifacts_for_state (correct_state ''s'' two_state_index) ''t'') \<and>
     snd (artifact_status (correct_state ''s'' two_state_index) ''a'') = Some Cleared \<and>
     snd (artifact_status (index_bind \<lparr> bound_artifact = ''b'', bound_states = [''s''], bound_at = 1 \<rparr> two_state_index)
       ''b'') = None"
  by code_simp

text \<open>\<open>max_crl_age\<close> is the age of the oldest list held, so one list that was not refreshed makes a
  verifier with fresh lists report a stale one.\<close>

theorem crl_age_is_oldest:
  assumes "crls v \<noteq> []"
  shows "crl_age v now = Max ((\<lambda>c. now - this_update c) ` set (crls v))"
  using assms max_list_Max [of "map (\<lambda>c. now - this_update c) (crls v)"] by (simp add: crl_age_def)

definition two_crls :: crl_view where
  "two_crls = \<lparr> authority_fingerprints = [],
     crls = map (\<lambda>t. \<lparr> issuer = ''r'', revoked = [], this_update = t, next_update = 100, log_sequence = 0,
       crl_signature = [] \<rparr>) [10, 90] \<rparr>"

theorem crl_age_is_oldest_witness: "crl_age two_crls 95 = 85"
  using crl_age_is_oldest [of two_crls 95] by (simp add: two_crls_def)

end
