(* ===== verification/Pipeline.thy ===== *)
theory Pipeline
  imports Artifact Conditions Revocation Trust_Graph_Properties
begin

text \<open>
  The verification pipeline (\<open>confium-signatif/src/pipeline.rs\<close>) over the anchor bundle, the trust graph, the
  registries, the revocation view and the artifact, with coverage reports, classification and acceptance
  (\<open>coverage.rs\<close>).  What comes from outside the crate (SHA-256, float text and comparison, the serde encodings
  of bundles and nodes, the text of a date, signature verification) is the record \<open>env\<close>.
\<close>

section \<open>Coverage and classification\<close>

datatype hard_check_status = Pass | Fail

record coverage_report =
  hard_checks :: hard_check_status
  transparency_included :: bool
  time_anchored :: bool
  verified_dimensions :: "string list"
  dimension_count :: nat
  independent_roots :: nat
  multi_log_quorum :: bool
  paths_found :: nat
  downgrades :: "string list"

definition rejected :: string where
  "rejected = ''rejected''"

definition starts_with :: "string \<Rightarrow> string \<Rightarrow> bool" where
  "starts_with p s \<longleftrightarrow> take (length p) s = p"

definition reference_classify :: "coverage_report \<Rightarrow> string" where
  "reference_classify r =
     (if hard_checks r = Fail then rejected
      else if \<not> transparency_included r then ''unverified''
      else if \<not> time_anchored r then ''basic''
      else
        let has_deprecated = list_ex (starts_with ''deprecated_algorithm:'') (downgrades r);
            has_person = (''person'' \<in> set (verified_dimensions r) \<and> \<not> has_deprecated)
        in if \<not> has_person then ''verified''
           else if independent_roots r \<ge> 2 then ''certified'' else ''attested'')"

datatype acceptance = Accept | Reject

record acceptance_policy =
  accepted_labels :: "string list"

definition accept_labels :: "string list \<Rightarrow> acceptance_policy" where
  "accept_labels ls = \<lparr> accepted_labels = ls \<rparr>"

definition decide :: "acceptance_policy \<Rightarrow> string \<Rightarrow> acceptance" where
  "decide p l = (if list_ex ((=) l) (accepted_labels p) then Accept else Reject)"

section \<open>The pipeline\<close>

record transparency_inputs =
  artifact_included :: bool
  ti_multi_log_quorum :: bool
  ti_time_anchored :: bool
  time_attested_at :: "instant option"
  ti_downgrades :: "string list"

record freshness_window =
  window :: duration
  grace :: duration

definition freshness_default :: freshness_window where
  "freshness_default = \<lparr> window = seconds (30 * 60), grace = hours 24 \<rparr>"

record verification_outcome =
  report :: coverage_report
  label :: string
  outcome_acceptance :: acceptance

record ('f, 'l) env =
  sha256 :: "bytes \<Rightarrow> bytes"
  floats :: "'f float_ops"
  num_cmp :: "'f number \<Rightarrow> 'f number \<Rightarrow> ordering"
  binding_bytes :: "('f number json) authority_node \<Rightarrow> signatif_error + bytes"
  bundle_canon :: "'l trust_anchor_bundle \<Rightarrow> signatif_error + bytes"
  rfc3339 :: "instant \<Rightarrow> string"
  sig_verify :: verifier

record ('f, 'l) pipeline =
  anchors :: "'l trust_anchor_bundle"
  graph :: "('f number json) trust_graph"
  registries :: registry
  revocation :: revocation_view
  transparency :: transparency_inputs
  freshness :: freshness_window
  classification :: "coverage_report \<Rightarrow> string"
  acceptance_of :: acceptance_policy

definition pipeline_new ::
  "'l trust_anchor_bundle \<Rightarrow> ('f number json) trust_graph \<Rightarrow> registry \<Rightarrow> revocation_view \<Rightarrow> transparency_inputs
     \<Rightarrow> acceptance_policy \<Rightarrow> ('f, 'l) pipeline" where
  "pipeline_new b g reg rv tr acc =
     \<lparr> anchors = b, graph = g, registries = reg, revocation = rv, transparency = tr, freshness = freshness_default,
       classification = reference_classify, acceptance_of = acc \<rparr>"

definition with_classification :: "(coverage_report \<Rightarrow> string) \<Rightarrow> ('f, 'l) pipeline \<Rightarrow> ('f, 'l) pipeline" where
  "with_classification c p = p\<lparr>classification := c\<rparr>"

definition with_freshness :: "freshness_window \<Rightarrow> ('f, 'l) pipeline \<Rightarrow> ('f, 'l) pipeline" where
  "with_freshness w p = p\<lparr>freshness := w\<rparr>"

definition map_err :: "('e \<Rightarrow> 'g) \<Rightarrow> 'e + 'a \<Rightarrow> 'g + 'a" where
  "map_err f r = (case r of Inl e \<Rightarrow> Inl (f e) | Inr x \<Rightarrow> Inr x)"

definition hard_check :: "string \<Rightarrow> signatif_error \<Rightarrow> signatif_error" where
  "hard_check name e = HardCheck (name @ '': '' @ display_error e)"

definition supported_version :: artifact_version where
  "supported_version = \<lparr> major = 1, minor = 0 \<rparr>"

definition add_roots :: "string list \<Rightarrow> 'j verification_path list \<Rightarrow> string list" where
  "add_roots rs ps =
     fold (\<lambda>p rs. if node_id (root p) \<in> set rs then rs else rs @ [node_id (root p)]) ps rs"

fun chain_integrity ::
  "('f, 'l) env \<Rightarrow> ('f, 'l) pipeline \<Rightarrow> co_signature_block list \<Rightarrow> nat \<Rightarrow> string list
     \<Rightarrow> (signatif_error + nat \<times> string list) option" where
  "chain_integrity x p [] n rs = Some (Inr (n, rs))"
| "chain_integrity x p (b # bs) n rs =
     (case node (graph p) (signer_cert_ref b) of
        None \<Rightarrow> Some (Inl (HardCheck (''chain_integrity: unknown signer '' @ signer_cert_ref b)))
      | Some nd \<Rightarrow>
          (case find_paths (binding_bytes x) (sig_verify x) (anchors p) (graph p) (node_id nd) of
             None \<Rightarrow> None
           | Some (Inl e) \<Rightarrow> Some (Inl (hard_check ''chain_integrity'' e))
           | Some (Inr ps) \<Rightarrow>
               if ps = []
               then Some (Inl (HardCheck (''chain_integrity: no path from '' @ node_id nd @ '' to an anchor'')))
               else chain_integrity x p bs (n + length ps) (add_roots rs ps)))"

definition block_conditions ::
  "('f, 'l) env \<Rightarrow> ('f, 'l) pipeline \<Rightarrow> 'f trusted_artifact \<Rightarrow> co_signature_block \<Rightarrow> signatif_error + unit" where
  "block_conditions x p a b =
     (case node (graph p) (signer_cert_ref b) of
        None \<Rightarrow> Inr ()
      | Some nd \<Rightarrow>
          map_err (hard_check ''scope_conditions'')
            (evaluate_all (num_cmp x) (conditions (node_scope nd))
              (condition_context (payload a) (artifact_id a) (signer_cert_ref b) (dimension b)
                (rfc3339 x (block_timestamp b)))))"

definition block_revocation :: "('f, 'l) pipeline \<Rightarrow> instant \<Rightarrow> co_signature_block \<Rightarrow> signatif_error + unit" where
  "block_revocation p now b =
     (case authority_status (revocation p) (signer_cert_ref b) now of
        Revoked \<Rightarrow> Inl (HardCheck (''revocation: signer '' @ signer_cert_ref b @ '' is revoked''))
      | GraceDowngrade \<Rightarrow> Inr ()
      | Good \<Rightarrow> Inr ())"

definition deprecated_downgrades :: "registry \<Rightarrow> co_signature_block list \<Rightarrow> string list" where
  "deprecated_downgrades reg bs =
     map (\<lambda>b. ''deprecated_algorithm:'' @ algorithm b)
       (filter (\<lambda>b. registry_status (algorithms reg) (algorithm b) = Some Deprecated) bs)"

definition soft_downgrades :: "('f, 'l) pipeline \<Rightarrow> 'f trusted_artifact \<Rightarrow> instant \<Rightarrow> string list" where
  "soft_downgrades p a now =
     ti_downgrades (transparency p) @ deprecated_downgrades (registries p) (co_signatures a)
     @ (if \<not> artifact_included (transparency p) then [''transparency_missing''] else [])
     @ (if \<not> ti_time_anchored (transparency p) then [''time_anchor_absent''] else [])
     @ (if max_crl_age (revocation p) now > default_grace_period then [''crl_stale''] else [])"

definition freshness_source :: "('f, 'l) pipeline \<Rightarrow> 'f trusted_artifact \<Rightarrow> instant option" where
  "freshness_source p a =
     (case time_attested_at (transparency p) of
        Some t \<Rightarrow> Some t
      | None \<Rightarrow> max_list (map block_timestamp (filter (\<lambda>b. dimension b = ''time'') (co_signatures a))))"

definition check_freshness :: "('f, 'l) pipeline \<Rightarrow> 'f trusted_artifact \<Rightarrow> instant \<Rightarrow> signatif_error + string list" where
  "check_freshness p a now =
     (case freshness_source p a of
        None \<Rightarrow> Inr []
      | Some newest \<Rightarrow>
          if now - newest > window (freshness p) + grace (freshness p)
          then Inl (HardCheck ''time_freshness: time attestation outside window and grace'')
          else Inr (if now - newest > window (freshness p) then [''time_attestation_stale''] else []))"

definition make_outcome ::
  "('f, 'l) pipeline \<Rightarrow> 'f trusted_artifact \<Rightarrow> nat \<Rightarrow> string list \<Rightarrow> string list \<Rightarrow> verification_outcome" where
  "make_outcome p a n rs ds =
     (let r = \<lparr> hard_checks = Pass, transparency_included = artifact_included (transparency p),
                time_anchored = ti_time_anchored (transparency p), verified_dimensions = dimensions_verified a,
                dimension_count = length (dimensions_verified a), independent_roots = length rs,
                multi_log_quorum = ti_multi_log_quorum (transparency p), paths_found = n, downgrades = ds \<rparr>;
          l = classification p r
      in \<lparr> report = r, label = l, outcome_acceptance = decide (acceptance_of p) l \<rparr>)"

definition early_checks ::
  "('f, 'l) env \<Rightarrow> ('f, 'l) pipeline \<Rightarrow> 'f trusted_artifact \<Rightarrow> instant \<Rightarrow> signatif_error + unit" where
  "early_checks x p a now =
     try_bind (map_err (hard_check ''bundle_validity'') (bundle_verify (bundle_canon x) (sig_verify x) (anchors p) now)) (\<lambda>_.
     if \<not> version_accepts supported_version (version a)
     then Inl (HardCheck (''format_version: artifact '' @ display_version (version a) @ '' exceeds supported ''
            @ display_version supported_version))
     else map_err (hard_check ''signature_validity'')
            (verify_self (sha256 x) (floats x) (registries p) (sig_verify x) a))"

definition late_checks ::
  "('f, 'l) env \<Rightarrow> ('f, 'l) pipeline \<Rightarrow> 'f trusted_artifact \<Rightarrow> instant \<Rightarrow> nat \<Rightarrow> string list
     \<Rightarrow> signatif_error + verification_outcome" where
  "late_checks x p a now n rs =
     try_bind (try_all (block_conditions x p a) (co_signatures a)) (\<lambda>_.
     try_bind (try_all (block_revocation p now) (co_signatures a)) (\<lambda>_.
     try_bind (check_freshness p a now) (\<lambda>stale.
       Inr (make_outcome p a n rs (soft_downgrades p a now @ stale)))))"

definition pipeline_run ::
  "('f, 'l) env \<Rightarrow> ('f, 'l) pipeline \<Rightarrow> 'f trusted_artifact \<Rightarrow> instant
     \<Rightarrow> (signatif_error + verification_outcome) option" where
  "pipeline_run x p a now =
     (case early_checks x p a now of
        Inl e \<Rightarrow> Some (Inl e)
      | Inr _ \<Rightarrow>
          (case chain_integrity x p (co_signatures a) 0 [] of
             None \<Rightarrow> None
           | Some (Inl e) \<Rightarrow> Some (Inl e)
           | Some (Inr (n, rs)) \<Rightarrow> Some (late_checks x p a now n rs)))"

section \<open>Time attestations\<close>

text \<open>\<open>time.rs\<close>: a time authority's attestation over an artifact, and its freshness.\<close>

record time_attestation =
  ta_authority :: string
  ta_artifact_hash :: string
  attested_at :: instant
  external_anchor :: bytes
  ta_signature :: bytes

definition time_verify ::
  "(time_attestation \<Rightarrow> signatif_error + bytes) \<Rightarrow> verifier \<Rightarrow> bytes \<Rightarrow> time_attestation \<Rightarrow> signatif_error + unit" where
  "time_verify signing_bytes verify key t =
     (if external_anchor t = [] then Inl (BadSignature ''time attestation lacks an external anchor'')
      else try_bind (signing_bytes t) (\<lambda>msg.
        if \<not> verify key msg (ta_signature t)
        then Inl (BadSignature (''time authority '' @ ta_authority t))
        else Inr ()))"

datatype time_freshness = Fresh | Stale | Expired

definition time_freshness_of :: "time_attestation \<Rightarrow> instant \<Rightarrow> duration \<Rightarrow> duration \<Rightarrow> time_freshness" where
  "time_freshness_of t now win gr =
     (let age = now - attested_at t
      in if age \<le> win then Fresh else if age \<le> win + gr then Stale else Expired)"

end
