(* ===== verification/Pipeline_Properties.thy ===== *)
theory Pipeline_Properties
  imports Pipeline
begin

text \<open>
  What the verification pipeline guarantees, and what it does not check.
\<close>

section \<open>The hard checks\<close>

definition anchored :: "('f, 'l) env \<Rightarrow> ('f, 'l) pipeline \<Rightarrow> co_signature_block \<Rightarrow> bool" where
  "anchored x p b \<longleftrightarrow>
     (\<exists>nd. node (graph p) (signer_cert_ref b) = Some nd \<and>
        (\<forall>l. link_from (graph p) nd l \<longrightarrow> check_link (binding_bytes x) (sig_verify x) l = Inr ()) \<and>
        (\<exists>ls r. path_from (anchors p) (graph p) nd ls r))"

definition roots_of :: "('f, 'l) pipeline \<Rightarrow> co_signature_block \<Rightarrow> string set" where
  "roots_of p b =
     {node_id r | nd ls r. node (graph p) (signer_cert_ref b) = Some nd \<and> path_from (anchors p) (graph p) nd ls r}"

definition conditions_met ::
  "('f, 'l) env \<Rightarrow> ('f, 'l) pipeline \<Rightarrow> 'f trusted_artifact \<Rightarrow> co_signature_block \<Rightarrow> bool" where
  "conditions_met x p a b \<longleftrightarrow>
     (\<exists>nd. node (graph p) (signer_cert_ref b) = Some nd \<and>
        list_all (\<lambda>e. evaluate_condition (num_cmp x)
            (condition_context (payload a) (artifact_id a) (signer_cert_ref b) (dimension b)
              (rfc3339 x (block_timestamp b))) e = Inr True)
          (conditions (node_scope nd)))"

definition fresh_enough :: "('f, 'l) pipeline \<Rightarrow> 'f trusted_artifact \<Rightarrow> instant \<Rightarrow> bool" where
  "fresh_enough p a now \<longleftrightarrow>
     (case freshness_source p a of None \<Rightarrow> True | Some t \<Rightarrow> now - t \<le> window (freshness p) + grace (freshness p))"

lemma map_err_Inr [simp]: "map_err f r = Inr y \<longleftrightarrow> r = Inr y"
  by (auto simp: map_err_def split: sum.splits)

lemma add_roots_set:
  "set (add_roots rs ps) = set rs \<union> (\<lambda>p. node_id (root p)) ` set ps \<and> (distinct rs \<longrightarrow> distinct (add_roots rs ps))"
  unfolding add_roots_def by (induction ps arbitrary: rs) auto

definition chain_spec ::
  "('f, 'l) env \<Rightarrow> ('f, 'l) pipeline \<Rightarrow> co_signature_block list \<Rightarrow> string list
     \<Rightarrow> signatif_error + nat \<times> string list \<Rightarrow> bool" where
  "chain_spec x p bs rs res \<longleftrightarrow>
     (case res of
        Inl e \<Rightarrow> \<not> list_all (anchored x p) bs
      | Inr (m, rs') \<Rightarrow> list_all (anchored x p) bs \<and> set rs' = set rs \<union> (\<Union>b \<in> set bs. roots_of p b) \<and>
          (distinct rs \<longrightarrow> distinct rs'))"

lemma chain_integrity_spec:
  assumes "graph_inv (graph p)"
  shows "\<exists>res. chain_integrity x p bs n rs = Some res \<and> chain_spec x p bs rs res"
proof (induction bs arbitrary: n rs)
  case (Cons b bs)
  show ?case
  proof (cases "node (graph p) (signer_cert_ref b)")
    case None
    then show ?thesis
      by (simp add: chain_spec_def anchored_def)
  next
    case (Some nd)
    then have nd: "node (graph p) (node_id nd) = Some nd"
      using node_key [OF assms] by simp
    obtain res where res: "find_paths (binding_bytes x) (sig_verify x) (anchors p) (graph p) (node_id nd) = Some res"
      "case res of
         Inl err \<Rightarrow> (\<exists>l. link_from (graph p) nd l \<and> check_link (binding_bytes x) (sig_verify x) l = Inl err)
       | Inr ps \<Rightarrow> set ps = {\<lparr> links = ls, root = r \<rparr> | ls r. path_from (anchors p) (graph p) nd ls r} \<and>
           (\<forall>l. link_from (graph p) nd l \<longrightarrow> check_link (binding_bytes x) (sig_verify x) l = Inr ())"
      using find_paths_spec [OF assms nd] by blast
    show ?thesis
    proof (cases res)
      case (Inl e)
      then have "\<not> anchored x p b"
        using res(2) Some by (auto simp: anchored_def)
      then show ?thesis
        using Some res(1) Inl by (simp add: chain_spec_def)
    next
      case (Inr ps)
      have ps: "set ps = {\<lparr> links = ls, root = r \<rparr> | ls r. path_from (anchors p) (graph p) nd ls r}"
        and ok: "\<forall>l. link_from (graph p) nd l \<longrightarrow> check_link (binding_bytes x) (sig_verify x) l = Inr ()"
        using res(2) Inr by auto
      have roots: "(\<lambda>q. node_id (root q)) ` set ps = roots_of p b"
        unfolding ps roots_of_def using Some by force
      have anch: "anchored x p b \<longleftrightarrow> ps \<noteq> []"
      proof -
        have "ps \<noteq> [] \<longleftrightarrow> (\<exists>ls r. path_from (anchors p) (graph p) nd ls r)"
          unfolding set_empty [symmetric] ps by blast
        then show ?thesis
          using ok Some by (simp add: anchored_def)
      qed
      show ?thesis
      proof (cases "ps = []")
        case True
        then show ?thesis
          using Some res(1) Inr anch by (simp add: chain_spec_def)
      next
        case False
        obtain res' where "chain_integrity x p bs (n + length ps) (add_roots rs ps) = Some res'"
          "chain_spec x p bs (add_roots rs ps) res'"
          using Cons.IH by blast
        then show ?thesis
          using Some res(1) Inr False anch add_roots_set [of rs ps] roots
          by (auto simp: chain_spec_def split: sum.splits)
      qed
    qed
  qed
qed (simp add: chain_spec_def)

lemma early_checks_iff:
  "early_checks x p a now = Inr () \<longleftrightarrow>
     bundle_verify (bundle_canon x) (sig_verify x) (anchors p) now = Inr () \<and> major (version a) \<le> 1 \<and>
     verify_self (sha256 x) (floats x) (registries p) (sig_verify x) a = Inr ()"
  by (auto simp: early_checks_def try_bind_Inr_iff version_accepts_def supported_version_def)

lemma block_conditions_iff:
  "anchored x p b \<Longrightarrow> block_conditions x p a b = Inr () \<longleftrightarrow> conditions_met x p a b"
  by (auto simp: anchored_def block_conditions_def conditions_met_def evaluate_all_iff)

lemma block_revocation_iff:
  "block_revocation p now b = Inr () \<longleftrightarrow> authority_status (revocation p) (signer_cert_ref b) now \<noteq> Revoked"
  by (simp add: block_revocation_def split: revocation_status.splits)

lemma late_checks_iff:
  assumes "list_all (anchored x p) (co_signatures a)"
  shows "is_ok (late_checks x p a now n rs) \<longleftrightarrow>
     list_all (conditions_met x p a) (co_signatures a) \<and>
     list_all (\<lambda>b. authority_status (revocation p) (signer_cert_ref b) now \<noteq> Revoked) (co_signatures a) \<and>
     fresh_enough p a now"
proof -
  have c: "list_all (\<lambda>b. block_conditions x p a b = Inr ()) (co_signatures a) \<longleftrightarrow>
      list_all (conditions_met x p a) (co_signatures a)"
    using assms unfolding list_all_iff by (simp add: block_conditions_iff)
  have f: "(\<exists>ds. check_freshness p a now = Inr ds) \<longleftrightarrow> fresh_enough p a now"
    by (auto simp: check_freshness_def fresh_enough_def split: option.splits)
  show ?thesis
    unfolding is_ok_iff late_checks_def try_bind_Inr_iff try_all_iff
    using c f by (auto simp: try_all_iff block_revocation_iff)
qed

definition hard_checks_hold ::
  "('f, 'l) env \<Rightarrow> ('f, 'l) pipeline \<Rightarrow> 'f trusted_artifact \<Rightarrow> instant \<Rightarrow> bool" where
  "hard_checks_hold x p a now \<longleftrightarrow>
     bundle_verify (bundle_canon x) (sig_verify x) (anchors p) now = Inr () \<and> major (version a) \<le> 1 \<and>
     verify_self (sha256 x) (floats x) (registries p) (sig_verify x) a = Inr () \<and>
     list_all (anchored x p) (co_signatures a) \<and> list_all (conditions_met x p a) (co_signatures a) \<and>
     list_all (\<lambda>b. authority_status (revocation p) (signer_cert_ref b) now \<noteq> Revoked) (co_signatures a) \<and>
     fresh_enough p a now"

lemma pipeline_run_cases:
  assumes "graph_inv (graph p)"
  shows "\<exists>res. pipeline_run x p a now = Some res \<and> (is_ok res \<longleftrightarrow> hard_checks_hold x p a now) \<and>
    (is_ok res \<longrightarrow> (\<exists>n rs. res = late_checks x p a now n rs \<and> distinct rs \<and>
       set rs = (\<Union>b \<in> set (co_signatures a). roots_of p b)))"
proof -
  obtain res where res: "chain_integrity x p (co_signatures a) 0 [] = Some res" "chain_spec x p (co_signatures a) [] res"
    using chain_integrity_spec [OF assms] by blast
  show ?thesis
  proof (cases "early_checks x p a now")
    case (Inl e)
    then have "\<not> hard_checks_hold x p a now"
      using early_checks_iff [of x p a now] by (auto simp: hard_checks_hold_def)
    then show ?thesis
      using Inl by (simp add: pipeline_run_def)
  next
    case (Inr u)
    note early = Inr
    show ?thesis
    proof (cases res)
      case (Inl e)
      then show ?thesis
        using res early by (simp add: pipeline_run_def chain_spec_def hard_checks_hold_def)
    next
      case (Inr nr)
      obtain n rs where nr: "nr = (n, rs)"
        by (cases nr)
      have spec: "list_all (anchored x p) (co_signatures a)" "distinct rs"
        "set rs = (\<Union>b \<in> set (co_signatures a). roots_of p b)"
        using res(2) Inr nr by (auto simp: chain_spec_def)
      have "pipeline_run x p a now = Some (late_checks x p a now n rs)"
        using early res(1) Inr nr by (simp add: pipeline_run_def)
      moreover have "is_ok (late_checks x p a now n rs) \<longleftrightarrow> hard_checks_hold x p a now"
        using late_checks_iff [OF spec(1)] early_checks_iff [of x p a now] early spec(1)
        by (auto simp: hard_checks_hold_def)
      ultimately show ?thesis
        using spec by blast
    qed
  qed
qed

section \<open>A pipeline to run\<close>

definition demo_env :: "(unit, unit) env" where
  "demo_env =
     \<lparr> sha256 = (\<lambda>m. m), floats = int_only, num_cmp = (\<lambda>_ _. Equal), binding_bytes = no_binding,
       bundle_canon = (\<lambda>_. Inr []), rfc3339 = (\<lambda>_. []), sig_verify = key_verifier \<rparr>"

definition demo_pipeline :: "(unit, unit) pipeline" where
  "demo_pipeline =
     \<lparr> anchors = one_root, graph = chain_graph, registries = demo_registry, revocation = no_revocations,
       transparency = \<lparr> artifact_included = True, ti_multi_log_quorum = False, ti_time_anchored = True,
         time_attested_at = None, ti_downgrades = [] \<rparr>,
       freshness = freshness_default, classification = reference_classify,
       acceptance_of = \<lparr> accepted_labels = [''verified'', ''attested''] \<rparr> \<rparr>"

definition data_block :: "bytes \<Rightarrow> co_signature_block" where
  "data_block k = \<lparr> dimension = ''data'', algorithm = ''Ed25519'', signer_cert_ref = ''e'', signer_pubkey = k,
     chain_ref = ''r'', block_signature = k, block_timestamp = 40 \<rparr>"

definition signed_artifact :: "unit trusted_artifact" where
  "signed_artifact = demo_artifact\<lparr>co_signatures := [data_block [3]]\<rparr>"

lemma demo_pipeline_fields [simp]:
  "graph demo_pipeline = chain_graph" "anchors demo_pipeline = one_root" "registries demo_pipeline = demo_registry"
  "revocation demo_pipeline = no_revocations" "sig_verify demo_env = key_verifier" "sha256 demo_env = (\<lambda>m. m)"
  "floats demo_env = int_only" "binding_bytes demo_env = no_binding" "bundle_canon demo_env = (\<lambda>_. Inr [])"
  by (simp_all add: demo_pipeline_def demo_env_def)

definition signed_outcome :: verification_outcome where
  "signed_outcome = make_outcome demo_pipeline signed_artifact 1 [''r''] []"

lemma demo_early:
  "co_signatures a = [] \<or> co_signatures a = [data_block k] \<Longrightarrow> payload a = JNull \<Longrightarrow>
     canonical_payload_hash a = string_bytes ''null'' \<Longrightarrow> version a = \<lparr> major = 1, minor = 0 \<rparr> \<Longrightarrow>
     early_checks demo_env demo_pipeline a 50 = Inr ()"
  unfolding early_checks_iff demo_pipeline_fields
  by (auto simp: bundle_verify_def bundle_signing_bytes_def one_root_def key_verifier_def verify_self_iff
      canonical_hash_def canonicalize_def data_block_def usable_def registry_get_def demo_registry_def)

lemma demo_run: "pipeline_run demo_env demo_pipeline signed_artifact 50 = Some (Inr signed_outcome)"
proof -
  have early: "early_checks demo_env demo_pipeline signed_artifact 50 = Inr ()"
    by (rule demo_early [of _ "[3]"]) (simp_all add: signed_artifact_def demo_artifact_def)
  have nid: "node_id chain_signer = ''e''"
    by (simp add: chain_signer_def authority_def)
  have chain: "chain_integrity demo_env demo_pipeline (co_signatures signed_artifact) 0 [] = Some (Inr (1, [''r'']))"
    by (simp add: signed_artifact_def data_block_def chain_node_eval nid chain_paths_eval add_roots_def)
       (simp add: chain_path_def authority_def)
  have late: "late_checks demo_env demo_pipeline signed_artifact 50 1 [''r''] = Inr signed_outcome"
    by (simp add: late_checks_def block_conditions_def block_revocation_def check_freshness_def freshness_source_def
        soft_downgrades_def deprecated_downgrades_def signed_outcome_def signed_artifact_def data_block_def
        chain_node_eval chain_signer_def authority_def scope_set_def unconstrained_def evaluate_all_def map_err_def
        demo_pipeline_def no_revocations_def default_grace_period_def hours_def
        registry_status_def registry_get_def demo_registry_def)
  show ?thesis
    unfolding pipeline_run_def early chain using late by simp
qed

section \<open>What the run depends on\<close>

lemma chain_integrity_map:
  "(\<And>b. signer_cert_ref (f b) = signer_cert_ref b) \<Longrightarrow>
     chain_integrity x p (map f bs) n rs = chain_integrity x p bs n rs"
  by (induction bs arbitrary: n rs) (auto split: option.splits sum.splits)

lemma try_all_map: "(\<And>b. g (f b) = h b) \<Longrightarrow> try_all g (map f bs) = try_all h bs"
  by (induction bs) auto

definition resign :: "bytes \<Rightarrow> (bytes \<Rightarrow> bytes) \<Rightarrow> 'f trusted_artifact \<Rightarrow> 'f trusted_artifact" where
  "resign k signer a =
     a\<lparr>co_signatures := map (\<lambda>b. b\<lparr>signer_pubkey := k, block_signature := signer (cosign_input a (dimension b))\<rparr>)
        (co_signatures a)\<rparr>"

lemma resign_fields [simp]:
  "version (resign k signer a) = version a" "artifact_id (resign k signer a) = artifact_id a"
  "payload (resign k signer a) = payload a" "canonical_payload_hash (resign k signer a) = canonical_payload_hash a"
  "cosign_input (resign k signer a) d = cosign_input a d"
  by (simp_all add: resign_def cosign_input_def)

lemma resign_late: "late_checks x p (resign k signer a) now n rs = late_checks x p a now n rs"
proof -
  let ?f = "\<lambda>b. b\<lparr>signer_pubkey := k, block_signature := signer (cosign_input a (dimension b))\<rparr>"
  have co: "co_signatures (resign k signer a) = map ?f (co_signatures a)"
    by (simp add: resign_def)
  have "try_all (block_conditions x p (resign k signer a)) (map ?f (co_signatures a)) =
      try_all (block_conditions x p a) (co_signatures a)"
    by (rule try_all_map) (simp add: block_conditions_def split: option.split)
  moreover have "try_all (block_revocation p now) (map ?f (co_signatures a)) =
      try_all (block_revocation p now) (co_signatures a)"
    by (rule try_all_map) (simp add: block_revocation_def split: revocation_status.split)
  moreover have "freshness_source p (resign k signer a) = freshness_source p a"
    by (simp add: freshness_source_def co filter_map comp_def split: option.split)
  moreover have "dimensions_verified (resign k signer a) = dimensions_verified a"
    by (simp add: dimensions_verified_def co comp_def)
  moreover have "soft_downgrades p (resign k signer a) now = soft_downgrades p a now"
    by (simp add: soft_downgrades_def deprecated_downgrades_def co filter_map comp_def)
  ultimately show ?thesis
    by (simp add: late_checks_def check_freshness_def make_outcome_def co)
qed

lemma late_checks_view:
  assumes "max_crl_age r' now = max_crl_age (revocation p) now"
    and "list_all (\<lambda>b. authority_status r' (signer_cert_ref b) now = authority_status (revocation p) (signer_cert_ref b) now)
      (co_signatures a)"
  shows "late_checks x (p\<lparr>revocation := r'\<rparr>) a now n rs = late_checks x p a now n rs"
proof -
  have "try_all (block_revocation (p\<lparr>revocation := r'\<rparr>) now) bs = try_all (block_revocation p now) bs"
    if "list_all (\<lambda>b. authority_status r' (signer_cert_ref b) now = authority_status (revocation p) (signer_cert_ref b) now) bs"
    for bs
    using that by (induction bs) (auto simp: block_revocation_def)
  then have revs: "try_all (block_revocation (p\<lparr>revocation := r'\<rparr>) now) (co_signatures a) =
      try_all (block_revocation p now) (co_signatures a)"
    using assms(2) .
  have conds: "block_conditions x (p\<lparr>revocation := r'\<rparr>) a = block_conditions x p a"
    by (rule ext) (simp add: block_conditions_def)
  have fresh: "check_freshness (p\<lparr>revocation := r'\<rparr>) a now = check_freshness p a now"
    by (simp add: check_freshness_def freshness_source_def split: option.split)
  have soft: "soft_downgrades (p\<lparr>revocation := r'\<rparr>) a now = soft_downgrades p a now"
    using assms(1) by (simp add: soft_downgrades_def)
  have outc: "make_outcome (p\<lparr>revocation := r'\<rparr>) a n rs ds = make_outcome p a n rs ds" for ds
    by (simp add: make_outcome_def)
  show ?thesis
    unfolding late_checks_def revs conds fresh soft outc ..
qed

lemma chain_integrity_view: "chain_integrity x (p\<lparr>revocation := r'\<rparr>) bs n rs = chain_integrity x p bs n rs"
  by (induction bs arbitrary: n rs) (auto split: option.splits sum.splits)

section \<open>Properties\<close>



text \<open>The report counts each anchored root once: the independent roots of a passed run are the different
  roots that paths from its co-signers reach, and the reference policy certifies only with two of them, a
  person co-signature, log inclusion and a time anchor, and without a deprecated algorithm.\<close>

theorem pipeline_root_count:
  assumes "graph_inv (graph p)" "pipeline_run x p a now = Some (Inr out)"
  shows "independent_roots (report out) = card (\<Union>b \<in> set (co_signatures a). roots_of p b) \<and>
     hard_checks (report out) = Pass \<and>
     (reference_classify (report out) = ''certified'' \<longleftrightarrow>
        artifact_included (transparency p) \<and> ti_time_anchored (transparency p) \<and>
        ''person'' \<in> dimension ` set (co_signatures a) \<and>
        \<not> list_ex (starts_with ''deprecated_algorithm:'') (downgrades (report out)) \<and>
        2 \<le> independent_roots (report out))"
proof -
  obtain n rs where late: "late_checks x p a now n rs = Inr out" and rs: "distinct rs"
    "set rs = (\<Union>b \<in> set (co_signatures a). roots_of p b)"
    using pipeline_run_cases [OF assms(1), of x a now] assms(2) by auto
  then obtain ds where out: "out = make_outcome p a n rs ds"
    by (auto simp: late_checks_def try_bind_Inr_iff)
  show ?thesis
    using rs distinct_card [OF rs(1)]
    by (auto simp: out make_outcome_def Let_def reference_classify_def rejected_def dimensions_verified_def
        distinct_sorted_set image_iff split: if_splits)
qed

theorem pipeline_root_count_witness:
  "independent_roots (report signed_outcome) = card (roots_of demo_pipeline (data_block [3])) \<and>
     reference_classify (report signed_outcome) \<noteq> ''certified''"
  using pipeline_root_count [of demo_pipeline demo_env signed_artifact 50 signed_outcome] chain_graph_inv demo_run
  by (simp add: signed_artifact_def data_block_def)

text \<open>C26: The pipeline never compares the key in a co-signature block with the key of the certificate the
  block names.  Whoever holds any key pair can re-sign all blocks of a passing artifact with it, keep the
  certificate references, and obtain the very same outcome.\<close>

theorem certified_key_not_checked:
  assumes "graph_inv (graph p)" "pipeline_run x p a now = Some (Inr out)" "\<And>m. sig_verify x k m (signer m)"
  shows "pipeline_run x p (resign k signer a) now = Some (Inr out) \<and>
     list_all (\<lambda>b. signer_pubkey b = k) (co_signatures (resign k signer a)) \<and>
     map signer_cert_ref (co_signatures (resign k signer a)) = map signer_cert_ref (co_signatures a)"
proof -
  have early: "early_checks x p a now = Inr ()"
    using assms(2) by (auto simp: pipeline_run_def split: sum.splits)
  then have "early_checks x p (resign k signer a) now = Inr ()"
    using assms(3) by (simp add: early_checks_iff verify_self_iff) (simp add: resign_def list_all_iff)
  moreover have "chain_integrity x p (co_signatures (resign k signer a)) 0 [] = chain_integrity x p (co_signatures a) 0 []"
    by (simp add: resign_def chain_integrity_map)
  ultimately have "pipeline_run x p (resign k signer a) now = pipeline_run x p a now"
    using early by (simp add: pipeline_run_def resign_late cong: option.case_cong sum.case_cong prod.case_cong)
  then show ?thesis
    using assms(2) by (simp add: resign_def list_all_iff)
qed

theorem certified_key_not_checked_witness:
  "pipeline_run demo_env demo_pipeline (resign [66] (\<lambda>_. [66]) signed_artifact) 50 = Some (Inr signed_outcome) \<and>
     outcome_acceptance signed_outcome = Accept \<and> map_option public_key (node chain_graph ''e'') = Some [3]"
proof -
  have "pipeline_run demo_env demo_pipeline (resign [66] (\<lambda>_. [66]) signed_artifact) 50 = Some (Inr signed_outcome)"
    using certified_key_not_checked [OF _ demo_run, of "[66]" "\<lambda>_. [66]"] chain_graph_inv by (simp add: key_verifier_def)
  moreover have "outcome_acceptance signed_outcome = Accept"
    by (simp add: signed_outcome_def make_outcome_def demo_pipeline_def reference_classify_def decide_def
        signed_artifact_def dimensions_verified_def distinct_sorted_def data_block_def)
  moreover have "map_option public_key (node chain_graph ''e'') = Some [3]"
    by (simp add: chain_node_eval chain_signer_def authority_def)
  ultimately show ?thesis
    by simp
qed

text \<open>Only the co-signers themselves are looked up in the revocation view.  Two views that agree on the
  co-signers and on the age of their lists give the same run, whatever they say about the authorities that
  issued the co-signers' certificates.\<close>

theorem issuer_revocation_ignored:
  assumes "max_crl_age r' now = max_crl_age (revocation p) now"
    and "list_all (\<lambda>b. authority_status r' (signer_cert_ref b) now = authority_status (revocation p) (signer_cert_ref b) now)
      (co_signatures a)"
  shows "pipeline_run x (p\<lparr>revocation := r'\<rparr>) a now = pipeline_run x p a now"
proof -
  have "early_checks x (p\<lparr>revocation := r'\<rparr>) a now = early_checks x p a now"
    by (simp add: early_checks_def)
  then show ?thesis
    unfolding pipeline_run_def chain_integrity_view late_checks_view [OF assms] by simp
qed

definition issuer_revoked :: revocation_view where
  "issuer_revoked = \<lparr> authority_status = (\<lambda>i _. if i = ''d'' then Revoked else Good), max_crl_age = (\<lambda>_. 0) \<rparr>"

theorem issuer_revocation_ignored_witness:
  "pipeline_run demo_env (demo_pipeline\<lparr>revocation := issuer_revoked\<rparr>) signed_artifact 50 = Some (Inr signed_outcome) \<and>
     authority_status issuer_revoked ''d'' 50 = Revoked"
  using issuer_revocation_ignored [of issuer_revoked 50 demo_pipeline signed_artifact demo_env] demo_run
  by (simp add: issuer_revoked_def no_revocations_def signed_artifact_def data_block_def)

text \<open>An artifact without any co-signature passes every hard check when the bundle is valid, its version is
  supported, its hash is right and no time attestation is stated.\<close>

theorem unsigned_artifact_passes:
  assumes "bundle_verify (bundle_canon x) (sig_verify x) (anchors p) now = Inr ()" "major (version a) \<le> 1"
    and "canonical_hash (sha256 x) (floats x) (payload a) = Inr (canonical_payload_hash a)"
    and "co_signatures a = []" "time_attested_at (transparency p) = None"
  shows "\<exists>out. pipeline_run x p a now = Some (Inr out) \<and> hard_checks (report out) = Pass \<and> paths_found (report out) = 0"
proof -
  have "early_checks x p a now = Inr ()"
    using assms by (simp add: early_checks_iff verify_self_iff)
  then show ?thesis
    using assms(4,5)
    by (simp add: pipeline_run_def late_checks_def check_freshness_def freshness_source_def make_outcome_def Let_def)
qed

theorem unsigned_artifact_passes_witness:
  "\<exists>out. pipeline_run demo_env demo_pipeline demo_artifact 50 = Some (Inr out) \<and>
     hard_checks (report out) = Pass \<and> paths_found (report out) = 0"
proof (rule unsigned_artifact_passes)
  show "bundle_verify (bundle_canon demo_env) (sig_verify demo_env) (anchors demo_pipeline) 50 = Inr ()"
    by (simp add: bundle_verify_def bundle_signing_bytes_def one_root_def key_verifier_def)
qed (simp_all add: demo_artifact_def canonical_hash_def canonicalize_def demo_pipeline_def)

definition label_rank :: "string \<Rightarrow> nat" where
  "label_rank l =
     (if l = ''unverified'' then 1 else if l = ''basic'' then 2 else if l = ''verified'' then 3
      else if l = ''attested'' then 4 else if l = ''certified'' then 5 else 0)"

definition stronger_report :: "coverage_report \<Rightarrow> coverage_report \<Rightarrow> bool" where
  "stronger_report r r' \<longleftrightarrow>
     (hard_checks r' = Fail \<longrightarrow> hard_checks r = Fail) \<and> (transparency_included r \<longrightarrow> transparency_included r') \<and>
     (time_anchored r \<longrightarrow> time_anchored r') \<and>
     (''person'' \<in> set (verified_dimensions r) \<longrightarrow> ''person'' \<in> set (verified_dimensions r')) \<and>
     set (downgrades r') \<subseteq> set (downgrades r) \<and> independent_roots r \<le> independent_roots r'"

text \<open>The reference classification is monotone: a report with at least as much evidence (no worse hard
  checks, inclusion, time anchor, person co-signature, deprecation and root count) never gets a lower label.\<close>

theorem classification_monotone:
  assumes "stronger_report r r'"
  shows "label_rank (reference_classify r) \<le> label_rank (reference_classify r')"
  using assms
  by (auto simp: stronger_report_def reference_classify_def label_rank_def rejected_def list_ex_iff Let_def subset_iff)

theorem classification_monotone_witness:
  "label_rank (reference_classify (report signed_outcome)) \<le>
     label_rank (reference_classify ((report signed_outcome)\<lparr>independent_roots := 2\<rparr>))"
  by (rule classification_monotone)
     (simp add: stronger_report_def signed_outcome_def make_outcome_def Let_def)

text \<open>The pipeline judges an attested time exactly as the attestation itself does: it rejects what
  \<open>TimeAttestation::freshness\<close> calls expired, records a downgrade for what it calls stale, and neither for
  what it calls fresh.\<close>

theorem freshness_agrees:
  assumes "time_attested_at (transparency p) = Some (attested_at t)" "0 \<le> grace (freshness p)"
  shows "check_freshness p a now =
     (case time_freshness_of t now (window (freshness p)) (grace (freshness p)) of
        Fresh \<Rightarrow> Inr []
      | Stale \<Rightarrow> Inr [''time_attestation_stale'']
      | Expired \<Rightarrow> Inl (HardCheck ''time_freshness: time attestation outside window and grace''))"
  using assms by (auto simp: check_freshness_def freshness_source_def time_freshness_of_def Let_def)

definition attested_pipeline :: "(unit, unit) pipeline" where
  "attested_pipeline = demo_pipeline\<lparr>transparency := (transparency demo_pipeline)\<lparr>time_attested_at := Some 5\<rparr>\<rparr>"

theorem freshness_agrees_witness:
  "check_freshness attested_pipeline signed_artifact (5 + hours 1) = Inr [''time_attestation_stale'']"
proof -
  let ?t = "\<lparr> ta_authority = [], ta_artifact_hash = [], attested_at = 5, external_anchor = [], ta_signature = [] \<rparr>"
  have "time_attested_at (transparency attested_pipeline) = Some (attested_at ?t)" "0 \<le> grace (freshness attested_pipeline)"
    by (simp_all add: attested_pipeline_def demo_pipeline_def freshness_default_def hours_def)
  from freshness_agrees [OF this] show ?thesis
    by (simp add: time_freshness_of_def attested_pipeline_def demo_pipeline_def freshness_default_def
        hours_def seconds_def)
qed

end
