(* ===== verification/Spec2Isabelle.thy ===== *)
theory Spec2Isabelle
  imports
    Log_Properties Log_Witness Evidence
    Coordinator_Properties Session_Services Session_Store Batch_Signing
    Leader_Election Round_Coordinator Distributed_Lock Flow_Control
    Shamir Share_Refresh Event_Store Write_Ahead_Log Workflows
    Threshold_Core Attribute_Parser Data_Structures
    Federation
    Trust_Graph_Properties Pipeline_Properties
begin

text \<open>
  \<^bold>\<open>Confium in Isabelle/HOL.\<close> Confium is a Rust workspace for threshold cryptography and federated
  trust. The development covers the parts of it that decide something: the transparency log that
  makes signing visible, the coordinator that runs signing sessions between the holders of key
  shares, the sharing and key generation beneath it, the attribute policies that choose signers,
  and the \<open>signatif\<close> trust framework that verifies an artifact against delegated authorities.
  Paths below are relative to \<open>src/crates\<close>.

  \<^bold>\<open>How the program is represented.\<close> A struct is a record, an enum a datatype, a method a function
  that returns the updated state, a \<open>Result\<close> a sum type (\<open>Inl\<close> the error), \<open>u8\<close>, \<open>u32\<close>, \<open>u64\<close> are
  words that wrap, \<open>usize\<close> is a natural number, an instant is an integer number of nanoseconds and
  an argument of the operation that reads the clock. A \<open>HashMap\<close> is an association list with
  distinct keys and a \<open>BTreeMap\<close> a sorted one (\<open>Confium_Base\<close>, \<open>Ordered_Map\<close>). A panic, where one
  can happen, is \<open>None\<close>. What comes from other crates is an argument: SHA-256 and HMAC, signature
  verification, the curve's scalars (any field) and points (any group), JSON text of \<open>serde_json\<close>,
  random bytes. Theorems name what they need of it, and their witnesses run the definitions on
  concrete instances.

  \<^bold>\<open>Shared theories.\<close> \<open>Confium_Base\<close> holds the machine types, byte encodings, maps and the
  two contracts most components meet, the locales \<open>op_invariant\<close> (operations keep an invariant)
  and \<open>append_only\<close> (operations only extend a log); the audit log, the coordinator, the Merkle tree,
  the round coordinator, the circuit breaker, the revocation index, the trust graph and the event
  store are interpretations. \<open>Text_Encoding\<close> is the standard library's UTF-8, white space and lines.

  \<^bold>\<open>Transparency log\<close> (\<open>confium-transparency\<close>).
  \<^item> \<open>Log_Entry\<close>: \<open>entry.rs\<close>, artifact types and the hashed encoding of an entry, which is injective.
  \<^item> \<open>Merkle\<close>, \<open>Merkle_Levels\<close>, \<open>Merkle_Proofs\<close>, \<open>Log_Properties\<close>: \<open>merkle.rs\<close>. The levels
    maintained incrementally by \<open>append\<close> are those of a rebuild and their root is the RFC 6962 tree
    hash; every entry has an inclusion proof that verifies, and one that verifies is for an entry
    of the log unless the hash collides; consistency verification accepts exactly the roots of two
    prefixes, which pins the earlier entries.
  \<^item> \<open>Log_Witness\<close>: \<open>witness.rs\<close>, a witness that only accepts heads of one log.
  \<^item> \<open>Evidence\<close>: \<open>ers/mod.rs\<close>, RFC 4998 evidence records: exact acceptance and renewal.

  \<^bold>\<open>Coordinator\<close> (\<open>confium-coordinator\<close>).
  \<^item> \<open>Audit_Log\<close>, \<open>Coordinator\<close>, \<open>Coordinator_Properties\<close>: \<open>session.rs\<close>, \<open>audit.rs\<close>,
    \<open>coordinator.rs\<close>, \<open>reaper.rs\<close>. Session states with commitments and shares; the invariant of
    every reachable state, exact results of aggregation, the append-only audit log.
  \<^item> \<open>Session_Services\<close>, \<open>Session_Store\<close>, \<open>Batch_Signing\<close>: policies, idempotency, deadlines,
    checkpoints, the memory and file stores, batches and identifiable abort. The stores meet the
    locales \<open>idempotency_store\<close> and \<open>session_store\<close>; batch aggregation rests on the locale
    \<open>order_insensitive_signer\<close>.
  \<^item> \<open>Leader_Election\<close>: \<open>leader_election.rs\<close> composed into a cluster with a message pool and an
    inductive step relation: one leader per term when grants carry the current term, and the run
    that elects two when a stale grant is counted.
  \<^item> \<open>Round_Coordinator\<close>, \<open>Distributed_Lock\<close>, \<open>Flow_Control\<close>: four-round sessions, leases with
    fencing tokens, the circuit breaker, and the back-pressure gate as interleaved steps of clients.
  \<^item> \<open>Key_Generation\<close>, \<open>Share_Refresh\<close>: \<open>dkg_coordinator.rs\<close> and \<open>refresh_coordinator.rs\<close>: the
    aggregate shares of an honest run recover the sum of the secrets, whose public key is the joint
    key; refresh by exclusive or keeps an exclusive-or secret and moves a polynomial one.
  \<^item> \<open>Event_Store\<close>: \<open>event_sourced.rs\<close>, \<open>async_event_store.rs\<close>: the store refines a map from
    sessions to projections; sequence numbers are unique under every interleaving of the two
    critical sections of \<open>append\<close>.

  \<^bold>\<open>Sharing\<close>. \<open>Shamir\<close>: \<open>confium-tc-frost-p256/src/shamir.rs\<close> and \<open>confium-crypto-vss/src/vss.rs\<close>:
  any threshold of shares recovers the secret, Feldman verification accepts exactly the shares on
  the committed polynomial, and the wire format round-trips.

  \<^bold>\<open>Attribute policies\<close> (\<open>confium-attributes\<close>). \<open>Attributes\<close>: predicates, their evaluation and the
  recursive-descent parser. \<open>Attribute_Parser\<close>: the parser accepts exactly the texts of an inductive
  grammar, always returns, and bounds the nesting and the counts of what it returns.

  \<^bold>\<open>Data structures\<close> (\<open>confium-observability\<close>). \<open>Data_Structures\<close>: Bloom filter, count-min sketch,
  ring buffer, HKDF against RFC 5869, key wrapping, channel, entropy monitor.

  \<^bold>\<open>Trust framework\<close> (\<open>confium-signatif\<close>).
  \<^item> \<open>Scope\<close>, \<open>Signatif_Error\<close>: \<open>scope.rs\<close>, \<open>error.rs\<close>: the lattice of scope values and narrowing.
  \<^item> \<open>Trust_Graph\<close>, \<open>Trust_Graph_Proofs\<close>, \<open>Trust_Graph_Properties\<close>: \<open>graph.rs\<close>, \<open>bundle.rs\<close>: the
    depth-first check decides acyclicity, graphs built by the public operations are acyclic, the
    path search returns exactly the checked paths to anchored roots, and scopes narrow along them.
  \<^item> \<open>Json\<close>, \<open>Json_Canonical\<close>: \<open>jcs.rs\<close>: the RFC 8785 writer, whose text determines the value.
  \<^item> \<open>Conditions\<close>, \<open>Artifact\<close>, \<open>Revocation\<close>: \<open>conditions.rs\<close>, \<open>registry.rs\<close>, \<open>artifact.rs\<close>,
    \<open>revocation.rs\<close>: the condition language, co-signed artifacts, revocation lists and marks.
  \<^item> \<open>Pipeline\<close>, \<open>Pipeline_Properties\<close>: \<open>pipeline.rs\<close>, \<open>coverage.rs\<close>, \<open>time.rs\<close>: the whole run over
    the parts above, which passes exactly when every hard check does, and what it leaves unchecked.

  \<^bold>\<open>Fuel and bounds.\<close> The cycle check \<open>visit\<close> has fuel for one nested call per unmarked node or edge
  target (\<open>visit_fuel\<close>), the path search \<open>walk\<close> for one step per node of an acyclic graph, the
  operand loop of the policy parser for one step per character, the HKDF loop for one step per
  block of its 255; each is proved never to run out. Loops of the Merkle tree halve their
  argument and are total functions. Counters of type \<open>u32\<close> and \<open>u64\<close> wrap in the model; where a
  theorem needs that they have not, it says so.

  \<^bold>\<open>Not modelled.\<close> Sockets, HTTP and JSON-RPC servers, metrics and dashboards; dynamic loading, the
  foreign-function interface and macros of the engine; hardware, cloud and disk key stores; encodings
  produced by external crates (X.509, CMS, COSE, JOSE, CBOR); curve, lattice and Paillier arithmetic
  and zero-knowledge proofs, whose code is calls into big-integer and curve crates; floating-point
  token buckets and back-off; bindings to other languages. Threads appear where the code's result
  depends on their interleaving (back-pressure gate, event store, channel) and nowhere else.
\<close>

end
